(* ===== verification/Prelude.thy ===== *)
theory Prelude
  imports Main "HOL-Library.Word"
begin

text \<open>
  Shared vocabulary of the development: the outcome type of a computation of the kernel, the
  combinator for its \<open>while\<close> loops, machine arithmetic of \<open>usize\<close> and \<open>isize\<close> on the target
  \<open>riscv32imac\<close> (both 32 bits wide) under the two build profiles of Cargo, bounds-checked
  slice access, and the generic lemmas on lists and words that the components share.
\<close>

unbundle bit_operations_syntax

named_theorems arith_ok \<open>checked arithmetic that stays in range\<close>
named_theorems unat_ok \<open>values of words under operations that stay in range\<close>
named_theorems monad_simps \<open>evaluation of the outcome monad\<close>


section \<open>Outcomes\<close>

text \<open>
  A call returns (\<open>Ret\<close>), panics (\<open>Panic\<close>: the kernel prints and halts for ever, so there is no
  state to return), or never returns for another reason (\<open>Hang\<close>).
\<close>

datatype panic =
    Overflow          \<comment> \<open>arithmetic overflow, only with overflow checks\<close>
  | DivZero
  | OutOfBounds       \<comment> \<open>slice index out of bounds\<close>
  | UnwrapNone        \<comment> \<open>\<open>unwrap\<close> of \<open>None\<close> or \<open>Err\<close>\<close>
  | Expect string     \<comment> \<open>\<open>expect\<close> of \<open>None\<close>\<close>
  | Assert string     \<comment> \<open>a failed \<open>assert!\<close>\<close>
  | Explicit string   \<comment> \<open>the kernel's own \<open>panic!\<close>\<close>
  | Formatted string "32 word list"   \<comment> \<open>\<open>panic!\<close> with its format string and the arguments\<close>

datatype 'a outcome = Ret 'a | Panic panic | Hang

datatype ('a, 'e) Result = Ok 'a | Err 'e

fun obind :: "'a outcome \<Rightarrow> ('a \<Rightarrow> 'b outcome) \<Rightarrow> 'b outcome" where
  "obind (Ret a) f = f a"
| "obind (Panic e) f = Panic e"
| "obind Hang f = Hang"

declare obind.simps [monad_simps]

lemma obind_assoc: "obind (obind r f) g = obind r (\<lambda>a. obind (f a) g)"
  by (cases r) auto

lemma obind_Ret_right [simp]: "obind r Ret = r"
  by (cases r) auto

lemma obind_eq_Ret: "obind r f = Ret b \<longleftrightarrow> (\<exists>a. r = Ret a \<and> f a = Ret b)"
  by (cases r) auto

lemma obind_cong [fundef_cong]:
  "r = r' \<Longrightarrow> (\<And>a. r' = Ret a \<Longrightarrow> f a = f' a) \<Longrightarrow> obind r f = obind r' f'"
  by (cases r') auto

text \<open>\<open>Option::expect\<close> and \<open>Result::unwrap\<close>.\<close>

fun expect :: "'a option \<Rightarrow> string \<Rightarrow> 'a outcome" where
  "expect (Some a) msg = Ret a"
| "expect None msg = Panic (Expect msg)"

fun unwrap :: "('a, 'e) Result \<Rightarrow> 'a outcome" where
  "unwrap (Ok a) = Ret a"
| "unwrap (Err e) = Panic UnwrapNone"

definition assert :: "bool \<Rightarrow> string \<Rightarrow> unit outcome" where
  "assert b msg = (if b then Ret () else Panic (Assert msg))"

lemma assert_simps [simp, monad_simps]:
  "assert True msg = Ret ()"
  "assert False msg = Panic (Assert msg)"
  by (simp_all add: assert_def)


section \<open>Loops\<close>

text \<open>
  A \<open>while\<close> loop is the iteration of its body: \<open>Inl s\<close> asks for another iteration from state
  \<open>s\<close>, \<open>Inr a\<close> leaves the loop with \<open>a\<close>. An infinite loop is \<open>Hang\<close>.
\<close>

partial_function (option) loop_opt ::
    "('s \<Rightarrow> ('s + 'a) outcome) \<Rightarrow> 's \<Rightarrow> 'a outcome option" where
  "loop_opt body s =
     (case body s of
        Ret (Inl s') \<Rightarrow> loop_opt body s'
      | Ret (Inr a) \<Rightarrow> Some (Ret a)
      | Panic e \<Rightarrow> Some (Panic e)
      | Hang \<Rightarrow> None)"

definition loop :: "('s \<Rightarrow> ('s + 'a) outcome) \<Rightarrow> 's \<Rightarrow> 'a outcome" where
  "loop body s = (case loop_opt body s of Some r \<Rightarrow> r | None \<Rightarrow> Hang)"

lemma loop_unfold [code]:
  "loop body s =
     (case body s of
        Ret (Inl s') \<Rightarrow> loop body s'
      | Ret (Inr a) \<Rightarrow> Ret a
      | Panic e \<Rightarrow> Panic e
      | Hang \<Rightarrow> Hang)"
  unfolding loop_def
  by (subst loop_opt.simps) (simp split: outcome.splits sum.splits)

lemma loop_continue: "body s = Ret (Inl s') \<Longrightarrow> loop body s = loop body s'"
  by (subst loop_unfold) simp

lemma loop_exit: "body s = Ret (Inr a) \<Longrightarrow> loop body s = Ret a"
  by (subst loop_unfold) simp

lemma loop_panic: "body s = Panic e \<Longrightarrow> loop body s = Panic e"
  by (subst loop_unfold) simp

text \<open>Total correctness of a loop by an invariant and a measure.\<close>

lemma loop_total:
  fixes m :: "'s \<Rightarrow> nat"
  assumes "I s"
    and "\<And>s. I s \<Longrightarrow>
      (case body s of
         Ret (Inl s') \<Rightarrow> I s' \<and> m s' < m s
       | Ret (Inr a) \<Rightarrow> Q (Ret a)
       | Panic e \<Rightarrow> Q (Panic e)
       | Hang \<Rightarrow> Q Hang)"
  shows "Q (loop body s)"
  using assms(1)
proof (induction "m s" arbitrary: s rule: less_induct)
  case less
  show ?case
    using assms(2)[OF less.prems] less.hyps
    by (subst loop_unfold) (auto split: outcome.splits sum.splits)
qed


section \<open>Machine integers\<close>

type_synonym usize = "32 word"

text \<open>
  Cargo's profiles differ in the overflow checks: \<open>Dev\<close> panics on overflow, \<open>Release\<close> wraps.
\<close>

datatype profile = Dev | Release

definition u_add :: "profile \<Rightarrow> usize \<Rightarrow> usize \<Rightarrow> usize outcome" where
  "u_add p a b =
     (if p = Dev \<and> 2 ^ 32 \<le> uint a + uint b then Panic Overflow else Ret (a + b))"

definition u_sub :: "profile \<Rightarrow> usize \<Rightarrow> usize \<Rightarrow> usize outcome" where
  "u_sub p a b = (if p = Dev \<and> a < b then Panic Overflow else Ret (a - b))"

definition u_mul :: "profile \<Rightarrow> usize \<Rightarrow> usize \<Rightarrow> usize outcome" where
  "u_mul p a b =
     (if p = Dev \<and> 2 ^ 32 \<le> uint a * uint b then Panic Overflow else Ret (a * b))"

definition u_div :: "usize \<Rightarrow> usize \<Rightarrow> usize outcome" where
  "u_div a b = (if b = 0 then Panic DivZero else Ret (a div b))"

definition u_rem :: "usize \<Rightarrow> usize \<Rightarrow> usize outcome" where
  "u_rem a b = (if b = 0 then Panic DivZero else Ret (a mod b))"

text \<open>\<open>usize::pow\<close> with a \<open>u32\<close> exponent, and \<open><<\<close> (whose amount is masked when unchecked).\<close>

definition u_pow :: "profile \<Rightarrow> usize \<Rightarrow> usize \<Rightarrow> usize outcome" where
  "u_pow p a e =
     (if p = Dev \<and> 2 ^ 32 \<le> uint a ^ unat e then Panic Overflow else Ret (a ^ unat e))"

definition u_shl :: "profile \<Rightarrow> usize \<Rightarrow> usize \<Rightarrow> usize outcome" where
  "u_shl p a n =
     (if p = Dev \<and> 32 \<le> n then Panic Overflow else Ret (push_bit (unat (n mod 32)) a))"

text \<open>\<open>usize::div_ceil\<close> of the core library: quotient and remainder, rounded up.\<close>

definition u_div_ceil :: "profile \<Rightarrow> usize \<Rightarrow> usize \<Rightarrow> usize outcome" where
  "u_div_ceil p a b =
     obind (u_div a b) (\<lambda>q. obind (u_rem a b) (\<lambda>r. if 0 < r then u_add p q 1 else Ret q))"

text \<open>\<open>usize::ilog2\<close> panics at zero; \<open>usize::trailing_zeros\<close> is 32 there.\<close>

function ilog2_word :: "usize \<Rightarrow> usize" where
  "ilog2_word a = (if a \<le> 1 then 0 else 1 + ilog2_word (drop_bit 1 a))"
  by pat_completeness auto
termination
  by (relation "measure unat") (auto simp: drop_bit_Suc unat_div word_le_nat_alt)

function ctz_word :: "usize \<Rightarrow> usize" where
  "ctz_word a = (if a = 0 then 32 else if bit a 0 then 0 else 1 + ctz_word (drop_bit 1 a))"
  by pat_completeness auto
termination
  by (relation "measure unat") (auto simp: drop_bit_Suc unat_div unat_gt_0)

declare ilog2_word.simps [simp del] ctz_word.simps [simp del]

definition u_ilog2 :: "usize \<Rightarrow> usize outcome" where
  "u_ilog2 a = (if a = 0 then Panic (Explicit ''argument of integer logarithm must be positive'')
                else Ret (ilog2_word a))"

definition u_trailing_zeros :: "usize \<Rightarrow> usize" where
  "u_trailing_zeros a = (if a = 0 then 32 else ctz_word a)"

text \<open>\<open>isize\<close> is read as an \<open>int\<close> in its range; \<open>as usize\<close> reinterprets the bits.\<close>

type_synonym isize = int

definition i_add :: "profile \<Rightarrow> isize \<Rightarrow> isize \<Rightarrow> isize outcome" where
  "i_add p a b =
     (if - (2 ^ 31) \<le> a + b \<and> a + b < 2 ^ 31 then Ret (a + b)
      else if p = Dev then Panic Overflow
      else Ret (signed_take_bit 31 (a + b)))"

definition i_as_usize :: "isize \<Rightarrow> usize" where
  "i_as_usize a = word_of_int a"

subsection \<open>Arithmetic that stays in range\<close>

lemma uint_checks:
  "2 ^ 32 \<le> uint a + uint b \<longleftrightarrow> 2 ^ 32 \<le> unat a + unat b"
  "2 ^ 32 \<le> uint a * uint b \<longleftrightarrow> 2 ^ 32 \<le> unat a * unat b"
  "2 ^ 32 \<le> uint a ^ n \<longleftrightarrow> 2 ^ 32 \<le> unat a ^ n"
  "uint a < int l \<longleftrightarrow> unat a < l"
  for a b :: usize
proof -
  have c: "(2::int) ^ 32 = int (2 ^ 32)" by simp
  show "2 ^ 32 \<le> uint a + uint b \<longleftrightarrow> 2 ^ 32 \<le> unat a + unat b"
    unfolding uint_nat c of_nat_add [symmetric] by (simp only: of_nat_le_iff)
  show "2 ^ 32 \<le> uint a * uint b \<longleftrightarrow> 2 ^ 32 \<le> unat a * unat b"
    unfolding uint_nat c of_nat_mult [symmetric] by (simp only: of_nat_le_iff)
  show "2 ^ 32 \<le> uint a ^ n \<longleftrightarrow> 2 ^ 32 \<le> unat a ^ n"
    unfolding uint_nat c of_nat_power [symmetric] by (simp only: of_nat_le_iff)
  show "uint a < int l \<longleftrightarrow> unat a < l"
    unfolding uint_nat by (simp only: of_nat_less_iff)
qed

lemma u_add_ok [arith_ok]: "unat a + unat b < 2 ^ 32 \<Longrightarrow> u_add p a b = Ret (a + b)"
  by (simp only: u_add_def uint_checks) simp

lemma u_add_Dev: "u_add Dev a b = Ret c \<longleftrightarrow> unat a + unat b < 2 ^ 32 \<and> c = a + b"
  by (simp only: u_add_def uint_checks) auto

lemma u_sub_ok [arith_ok]: "b \<le> a \<Longrightarrow> u_sub p a b = Ret (a - b)"
  by (simp add: u_sub_def not_less)

lemma u_mul_ok [arith_ok]: "unat a * unat b < 2 ^ 32 \<Longrightarrow> u_mul p a b = Ret (a * b)"
  by (simp only: u_mul_def uint_checks) simp

lemma u_pow_ok [arith_ok]: "unat a ^ unat e < 2 ^ 32 \<Longrightarrow> u_pow p a e = Ret (a ^ unat e)"
  by (simp only: u_pow_def uint_checks) simp

lemma u_shl_ok [arith_ok]: "unat n < 32 \<Longrightarrow> u_shl p a n = Ret (push_bit (unat n) a)"
  by (simp add: u_shl_def unat_mod word_le_nat_alt)

lemma u_div_ok [arith_ok]: "b \<noteq> 0 \<Longrightarrow> u_div a b = Ret (a div b)"
  by (simp add: u_div_def)

lemma u_rem_ok [arith_ok]: "b \<noteq> 0 \<Longrightarrow> u_rem a b = Ret (a mod b)"
  by (simp add: u_rem_def)

lemma i_add_ok [arith_ok]:
  "- (2 ^ 31) \<le> a + b \<Longrightarrow> a + b < 2 ^ 31 \<Longrightarrow> i_add p a b = Ret (a + b)"
  by (simp add: i_add_def)


subsection \<open>Powers of two\<close>

lemma pow2_less_D: "(2::nat) ^ a < 2 ^ b \<Longrightarrow> a < b"
  by (rule power_less_imp_less_exp [of 2]) auto

lemma pow2_le_D: "(2::nat) ^ a \<le> 2 ^ b \<Longrightarrow> a \<le> b"
  by (rule power_le_imp_le_exp [of 2]) auto

subsection \<open>Reading words as natural numbers\<close>

lemma unat_of_nat_ok [unat_ok]: "n < 2 ^ 32 \<Longrightarrow> unat (of_nat n :: usize) = n"
  by (simp add: unat_of_nat)

lemma unat_add_ok [unat_ok]:
  "unat a + unat b < 2 ^ 32 \<Longrightarrow> unat (a + b) = unat a + unat b" for a b :: usize
  by (simp add: unat_word_ariths)

lemma unat_sub_ok [unat_ok]: "b \<le> a \<Longrightarrow> unat (a - b) = unat a - unat b" for a b :: usize
  by (simp add: unat_sub_if' word_le_nat_alt)

lemma unat_mul_ok [unat_ok]:
  "unat a * unat b < 2 ^ 32 \<Longrightarrow> unat (a * b) = unat a * unat b" for a b :: usize
  by (simp add: unat_word_ariths)

lemma unat_pow2: "k < 32 \<Longrightarrow> unat ((2::usize) ^ k) = 2 ^ k"
proof -
  assume "k < 32"
  then have "(2::nat) ^ k < 2 ^ 32" by (intro power_strict_increasing) auto
  then have "unat (of_nat (2 ^ k) :: usize) = 2 ^ k" by (rule unat_of_nat_ok)
  then show ?thesis by simp
qed

lemma pow2_usize_inj: "(2::usize) ^ j = 2 ^ k \<Longrightarrow> j < 32 \<Longrightarrow> k < 32 \<Longrightarrow> j = k"
proof -
  assume eq: "(2::usize) ^ j = 2 ^ k" and lt: "j < 32" "k < 32"
  from eq have "unat ((2::usize) ^ j) = unat ((2::usize) ^ k)" by (rule arg_cong)
  then have "(2::nat) ^ j = 2 ^ k" unfolding unat_pow2 [OF lt(1)] unat_pow2 [OF lt(2)] .
  then show ?thesis by simp
qed

lemma unat_less_32: "unat (a :: usize) < 2 ^ 32"
  using unsigned_less [of a] by simp


section \<open>Slices\<close>

definition idx :: "'a list \<Rightarrow> usize \<Rightarrow> 'a outcome" where
  "idx xs i = (if uint i < int (length xs) then Ret (xs ! unat i) else Panic OutOfBounds)"

definition upd :: "'a list \<Rightarrow> usize \<Rightarrow> 'a \<Rightarrow> 'a list outcome" where
  "upd xs i v = (if uint i < int (length xs) then Ret (xs[unat i := v]) else Panic OutOfBounds)"

lemma idx_ok [arith_ok]: "unat i < length xs \<Longrightarrow> idx xs i = Ret (xs ! unat i)"
  by (simp add: idx_def uint_checks)

lemma upd_ok [arith_ok]: "unat i < length xs \<Longrightarrow> upd xs i v = Ret (xs[unat i := v])"
  by (simp add: upd_def uint_checks)

end
