(* ===== verification/Addr.thy ===== *)
theory Addr
  imports Prelude "HOL-Library.Option_ord"
begin

text \<open>
  The address types of \<open>src/rust/src/mem.rs\<close>: \<open>PhysAddr\<close>, a physical address with the size of the
  block it was allocated as (if any), and \<open>VirtAddr\<close>. The derived comparison of \<open>PhysAddr\<close> is
  lexicographic, an absent size before every present one; pointers are addresses, and a raw slice
  is an address with an element count.
\<close>

section \<open>Physical addresses\<close>

datatype PhysAddr = PhysAddr (pa_addr: usize) (pa_size: "usize option")

definition PhysAddr_new :: "usize \<Rightarrow> usize option \<Rightarrow> PhysAddr" where
  "PhysAddr_new addr sz = PhysAddr addr sz"

definition PhysAddr_size :: "PhysAddr \<Rightarrow> usize option" where
  "PhysAddr_size self = pa_size self"

definition PhysAddr_as_usize :: "PhysAddr \<Rightarrow> usize" where
  "PhysAddr_as_usize self = pa_addr self"

definition PhysAddr_is_aligned :: "PhysAddr \<Rightarrow> usize \<Rightarrow> bool outcome" where
  "PhysAddr_is_aligned self alignment =
     obind (u_rem (pa_addr self) alignment) (\<lambda>r. Ret (r = 0))"

definition PhysAddr_as_ptr :: "PhysAddr \<Rightarrow> usize" where
  "PhysAddr_as_ptr self = pa_addr self"

definition PhysAddr_as_mut_ptr :: "PhysAddr \<Rightarrow> usize" where
  "PhysAddr_as_mut_ptr self = pa_addr self"

datatype raw_slice = RawSlice (slice_ptr: usize) (slice_len: usize)

definition PhysAddr_as_slice :: "PhysAddr \<Rightarrow> usize \<Rightarrow> raw_slice" where
  "PhysAddr_as_slice self len = RawSlice (pa_addr self) len"

definition PhysAddr_as_mut_slice :: "PhysAddr \<Rightarrow> usize \<Rightarrow> raw_slice" where
  "PhysAddr_as_mut_slice self len = RawSlice (pa_addr self) len"

definition PhysAddr_as_mut_slice_leak :: "PhysAddr \<Rightarrow> usize \<Rightarrow> raw_slice" where
  "PhysAddr_as_mut_slice_leak self len = RawSlice (pa_addr self) len"

definition PhysAddr_as_struct :: "PhysAddr \<Rightarrow> usize" where
  "PhysAddr_as_struct self = pa_addr self"

definition PhysAddr_as_mut_struct :: "PhysAddr \<Rightarrow> usize" where
  "PhysAddr_as_mut_struct self = pa_addr self"

text \<open>The derived order.\<close>

instantiation PhysAddr :: linorder
begin

definition less_eq_PhysAddr :: "PhysAddr \<Rightarrow> PhysAddr \<Rightarrow> bool" where
  "less_eq_PhysAddr a b \<longleftrightarrow>
     pa_addr a < pa_addr b \<or> (pa_addr a = pa_addr b \<and> pa_size a \<le> pa_size b)"

definition less_PhysAddr :: "PhysAddr \<Rightarrow> PhysAddr \<Rightarrow> bool" where
  "less_PhysAddr a b \<longleftrightarrow>
     pa_addr a < pa_addr b \<or> (pa_addr a = pa_addr b \<and> pa_size a < pa_size b)"

instance
  by standard (auto simp: less_eq_PhysAddr_def less_PhysAddr_def intro: PhysAddr.expand)

end


section \<open>Virtual addresses\<close>

datatype VirtAddr = VirtAddr (va_addr: usize)

definition VirtAddr_new :: "usize \<Rightarrow> VirtAddr" where
  "VirtAddr_new addr = VirtAddr addr"

definition VirtAddr_as_usize :: "VirtAddr \<Rightarrow> usize" where
  "VirtAddr_as_usize self = va_addr self"

definition VirtAddr_is_aligned :: "VirtAddr \<Rightarrow> usize \<Rightarrow> bool outcome" where
  "VirtAddr_is_aligned self alignment =
     obind (u_rem (va_addr self) alignment) (\<lambda>r. Ret (r = 0))"

definition VirtAddr_add_usize :: "profile \<Rightarrow> VirtAddr \<Rightarrow> usize \<Rightarrow> VirtAddr outcome" where
  "VirtAddr_add_usize p self rhs =
     obind (u_add p (va_addr self) rhs) (\<lambda>a. Ret (VirtAddr a))"

definition VirtAddr_add :: "profile \<Rightarrow> VirtAddr \<Rightarrow> VirtAddr \<Rightarrow> VirtAddr outcome" where
  "VirtAddr_add p self rhs =
     obind (u_add p (va_addr self) (va_addr rhs)) (\<lambda>a. Ret (VirtAddr a))"

definition VirtAddr_sub_usize :: "profile \<Rightarrow> VirtAddr \<Rightarrow> usize \<Rightarrow> VirtAddr outcome" where
  "VirtAddr_sub_usize p self rhs =
     obind (u_sub p (va_addr self) rhs) (\<lambda>a. Ret (VirtAddr a))"

definition VirtAddr_sub :: "profile \<Rightarrow> VirtAddr \<Rightarrow> VirtAddr \<Rightarrow> VirtAddr outcome" where
  "VirtAddr_sub p self rhs =
     obind (u_sub p (va_addr self) (va_addr rhs)) (\<lambda>a. Ret (VirtAddr a))"

instantiation VirtAddr :: linorder
begin

definition less_eq_VirtAddr :: "VirtAddr \<Rightarrow> VirtAddr \<Rightarrow> bool" where
  "less_eq_VirtAddr a b \<longleftrightarrow> va_addr a \<le> va_addr b"

definition less_VirtAddr :: "VirtAddr \<Rightarrow> VirtAddr \<Rightarrow> bool" where
  "less_VirtAddr a b \<longleftrightarrow> va_addr a < va_addr b"

instance
  by standard (auto simp: less_eq_VirtAddr_def less_VirtAddr_def intro: VirtAddr.expand)

end


section \<open>Facts\<close>

lemma PhysAddr_is_aligned_dvd:
  assumes "n \<noteq> 0"
  shows "PhysAddr_is_aligned a n = Ret (unat n dvd unat (pa_addr a))"
  using assms
  by (simp add: PhysAddr_is_aligned_def arith_ok unat_mod dvd_eq_mod_eq_0 word_unat_eq_iff)

text \<open>Adding an offset and subtracting it again is the identity wherever the addition returns.\<close>

lemma VirtAddr_sub_add:
  "VirtAddr_add_usize p a n = Ret b \<Longrightarrow> p = Dev \<Longrightarrow> VirtAddr_sub_usize p b n = Ret a"
proof -
  assume a: "VirtAddr_add_usize p a n = Ret b" and p: "p = Dev"
  then have r: "unat (va_addr a) + unat n < 2 ^ 32" "b = VirtAddr (va_addr a + n)"
    by (auto simp: VirtAddr_add_usize_def obind_eq_Ret u_add_Dev)
  then have "n \<le> va_addr a + n" by (simp add: word_le_nat_alt unat_add_ok)
  with r show ?thesis by (simp add: VirtAddr_sub_usize_def arith_ok)
qed

end
