(* ===== verification/Bits.thy ===== *)
theory Bits
  imports Prelude
begin

text \<open>
  The integer helpers of the buddy allocator (\<open>src/rust/src/mem.rs\<close>, \<open>find_order\<close> and
  \<open>next_power_of_two\<close>) with the facts on logarithms and trailing zeros they rest on.
\<close>

section \<open>Definitions\<close>

definition PAGE_SIZE :: usize where
  "PAGE_SIZE = 4096"

definition usize_MAX :: usize where
  "usize_MAX = - 1"

definition find_order :: "profile \<Rightarrow> usize \<Rightarrow> usize outcome" where
  "find_order p n =
     (if n = usize_MAX then u_mul p 4 8
      else obind (u_add p n 1) u_ilog2)"

definition next_power_of_two :: "profile \<Rightarrow> usize \<Rightarrow> usize option outcome" where
  "next_power_of_two p n =
     (if n = 0 then Ret (Some 1)
      else if usize_MAX div 2 + 1 < n then Ret None
      else
        obind (u_sub p n 1) (\<lambda>x.
        let x = x OR drop_bit 1 x;
            x = x OR drop_bit 2 x;
            x = x OR drop_bit 4 x;
            x = x OR drop_bit 8 x;
            x = x OR drop_bit 16 x
        in obind (u_add p x 1) (\<lambda>r. Ret (Some r))))"


section \<open>Logarithms and trailing zeros of natural numbers\<close>

fun ilog2_nat :: "nat \<Rightarrow> nat" where
  "ilog2_nat n = (if n \<le> 1 then 0 else Suc (ilog2_nat (n div 2)))"

declare ilog2_nat.simps [simp del]

lemma ilog2_nat_unique: "2 ^ k \<le> n \<Longrightarrow> n < 2 ^ Suc k \<Longrightarrow> ilog2_nat n = k"
proof (induction k arbitrary: n)
  case 0
  then show ?case by (subst ilog2_nat.simps) simp
next
  case (Suc k)
  from Suc.prems have "2 ^ k \<le> n div 2" "n div 2 < 2 ^ Suc k" by auto
  then have "ilog2_nat (n div 2) = k" by (rule Suc.IH)
  moreover have "1 < n" using Suc.prems(1) one_le_power [of "2::nat" k] unfolding power_Suc by linarith
  ultimately show ?case by (subst ilog2_nat.simps) simp
qed

lemma ilog2_nat_bounds: "0 < n \<Longrightarrow> 2 ^ ilog2_nat n \<le> n \<and> n < 2 ^ Suc (ilog2_nat n)"
proof (induction n rule: ilog2_nat.induct)
  case (1 n)
  show ?case
  proof (cases "n \<le> 1")
    case True
    with 1 show ?thesis by (subst (1 2) ilog2_nat.simps) simp
  next
    case False
    with 1 have "2 ^ ilog2_nat (n div 2) \<le> n div 2 \<and> n div 2 < 2 ^ Suc (ilog2_nat (n div 2))"
      by simp
    with False show ?thesis by (subst (1 2) ilog2_nat.simps) auto
  qed
qed

lemma ilog2_nat_power [simp]: "ilog2_nat (2 ^ k) = k"
  by (rule ilog2_nat_unique) simp_all

lemma ilog2_nat_mono: "0 < m \<Longrightarrow> m \<le> n \<Longrightarrow> ilog2_nat m \<le> ilog2_nat n"
proof -
  assume "0 < m" "m \<le> n"
  then have "2 ^ ilog2_nat m < (2::nat) ^ Suc (ilog2_nat n)"
    using ilog2_nat_bounds [of m] ilog2_nat_bounds [of n] by linarith
  then have "ilog2_nat m < Suc (ilog2_nat n)" by (rule pow2_less_D)
  then show ?thesis by simp
qed

lemma ilog2_nat_less_32: "n < 2 ^ 32 \<Longrightarrow> ilog2_nat n < 32"
proof (cases "n = 0")
  case False
  assume "n < 2 ^ 32"
  with False have "(2::nat) ^ ilog2_nat n < 2 ^ 32" using ilog2_nat_bounds [of n] by linarith
  then show ?thesis by (rule pow2_less_D)
qed (simp add: ilog2_nat.simps)

lemma ilog2_word_nat: "ilog2_word a = of_nat (ilog2_nat (unat a))"
proof (induction a rule: ilog2_word.induct)
  case (1 a)
  have "unat (drop_bit 1 a) = unat a div 2"
    by (simp add: drop_bit_Suc unat_div)
  with 1 show ?case
    by (subst ilog2_word.simps, subst ilog2_nat.simps) (simp add: word_le_nat_alt)
qed

lemma u_ilog2_ok [arith_ok]: "a \<noteq> 0 \<Longrightarrow> u_ilog2 a = Ret (of_nat (ilog2_nat (unat a)))"
  by (simp add: u_ilog2_def ilog2_word_nat)

lemma ctz_word_power: "k < 32 \<Longrightarrow> ctz_word (2 ^ k) = of_nat k"
proof (induction k)
  case 0
  then show ?case by (subst ctz_word.simps) simp
next
  case (Suc k)
  have "drop_bit 1 ((2::usize) ^ Suc k) = 2 ^ k"
    using Suc.prems by (intro bit_word_eqI) (auto simp: bit_simps)
  moreover have "(2::usize) ^ Suc k \<noteq> 0"
    using unat_pow2 [of "Suc k"] Suc.prems by (metis power_not_zero unat_0 zero_neq_numeral)
  moreover have "\<not> bit ((2::usize) ^ Suc k) 0"
    using Suc.prems by (simp add: bit_simps)
  ultimately show ?case using Suc by (subst ctz_word.simps) simp
qed

lemma u_trailing_zeros_power: "k < 32 \<Longrightarrow> u_trailing_zeros (2 ^ k) = of_nat k"
  using unat_pow2 [of k]
  by (auto simp: u_trailing_zeros_def ctz_word_power)


section \<open>\<open>find_order\<close>\<close>

lemma find_order_eq:
  assumes "unat n + 1 < 2 ^ 32"
  shows "find_order p n = Ret (of_nat (ilog2_nat (Suc (unat n))))"
proof -
  have n: "unat (n + 1) = Suc (unat n)"
    using assms by (simp add: unat_word_ariths)
  have "n \<noteq> usize_MAX"
    using assms by (auto simp: usize_MAX_def unsigned_minus_1_eq_mask mask_eq_exp_minus_1)
  moreover have "n + 1 \<noteq> 0" using n by auto
  ultimately show ?thesis using assms n
    by (simp add: find_order_def arith_ok)
qed

lemma find_order_power:
  assumes "unat n = 2 ^ k" and "1 \<le> k" and "k < 32"
  shows "find_order p n = Ret (of_nat k)"
proof -
  have two: "2 \<le> (2::nat) ^ k" using assms(2) by (cases k) auto
  have "(2::nat) ^ k \<le> 2 ^ 31" using assms(3) by (intro power_increasing) auto
  then have "find_order p n = Ret (of_nat (ilog2_nat (Suc (unat n))))"
    using assms(1) by (intro find_order_eq) simp
  moreover have "ilog2_nat (Suc (unat n)) = k"
    using assms(1) two by (intro ilog2_nat_unique) auto
  ultimately show ?thesis by simp
qed


section \<open>\<open>next_power_of_two\<close>: the bit smear\<close>

text \<open>After the shifts by 1, 2, 4, 8 and 16 a bit is set iff one of the 32 bits from it on was.\<close>

definition smeared :: "usize \<Rightarrow> nat \<Rightarrow> usize \<Rightarrow> bool" where
  "smeared x w y \<longleftrightarrow> (\<forall>n. bit y n \<longleftrightarrow> (\<exists>k<w. bit x (n + k)))"

lemma smeared_start: "smeared x 1 x"
  by (simp add: smeared_def)

lemma smeared_step: "smeared x w y \<Longrightarrow> smeared x (2 * w) (y OR drop_bit w y)"
  unfolding smeared_def
proof (intro allI)
  fix n
  assume *: "\<forall>n. bit y n \<longleftrightarrow> (\<exists>k<w. bit x (n + k))"
  have "bit (y OR drop_bit w y) n \<longleftrightarrow> (\<exists>k<w. bit x (n + k)) \<or> (\<exists>k<w. bit x (w + n + k))"
    using * by (simp add: bit_or_iff bit_drop_bit_eq)
  also have "\<dots> \<longleftrightarrow> (\<exists>k<2 * w. bit x (n + k))"
  proof
    assume "(\<exists>k<w. bit x (n + k)) \<or> (\<exists>k<w. bit x (w + n + k))"
    then show "\<exists>k<2 * w. bit x (n + k)"
    proof
      assume "\<exists>k<w. bit x (n + k)"
      then obtain k where "k < w" "bit x (n + k)" by blast
      then show ?thesis by (intro exI [of _ k]) simp
    next
      assume "\<exists>k<w. bit x (w + n + k)"
      then obtain k where "k < w" "bit x (n + (w + k))" by (auto simp: ac_simps)
      then show ?thesis by (intro exI [of _ "w + k"]) simp
    qed
  next
    assume "\<exists>k<2 * w. bit x (n + k)"
    then obtain k where k: "k < 2 * w" "bit x (n + k)" by blast
    show "(\<exists>k<w. bit x (n + k)) \<or> (\<exists>k<w. bit x (w + n + k))"
    proof (cases "k < w")
      case False
      with k have "k - w < w" "bit x (w + n + (k - w))" by (auto simp: ac_simps)
      then show ?thesis by blast
    qed (use k in blast)
  qed
  finally show "bit (y OR drop_bit w y) n \<longleftrightarrow> (\<exists>k<2 * w. bit x (n + k))" .
qed

definition smear :: "usize \<Rightarrow> usize" where
  "smear x =
    (let x = x OR drop_bit 1 x;
         x = x OR drop_bit 2 x;
         x = x OR drop_bit 4 x;
         x = x OR drop_bit 8 x
     in x OR drop_bit 16 x)"

lemma smeared_smear: "smeared x 32 (smear x)"
  using smeared_start [of x, THEN smeared_step, THEN smeared_step, THEN smeared_step,
      THEN smeared_step, THEN smeared_step]
  by (simp add: smear_def Let_def)

lemma smear_eq_mask:
  assumes "2 ^ b \<le> unat x" and "unat x < 2 ^ Suc b" and "b < 32"
  shows "smear x = mask (Suc b)"
proof (rule bit_word_eqI)
  fix n assume "n < LENGTH(32)"
  then have n: "n < 32" by simp
  have bit_nat: "bit x m = bit (unat x) m" for m
    by (simp add: bit_unsigned_iff)
  have top: "bit x b"
  proof -
    have "unat x div 2 ^ b = 1"
      using assms(1,2) by (intro div_nat_eqI) auto
    then have "bit (unat x) b" by (simp add: bit_iff_odd)
    then show ?thesis by (simp add: bit_nat)
  qed
  have above: "\<not> bit x m" if "b < m" for m
  proof -
    have "unat x < 2 ^ m" using assms(2) that
      by (meson Suc_leI less_le_trans one_le_numeral power_increasing)
    then have "\<not> bit (unat x) m" by (simp add: bit_iff_odd)
    then show ?thesis by (simp add: bit_nat)
  qed
  have "bit (smear x) n \<longleftrightarrow> (\<exists>k<32. bit x (n + k))"
    using smeared_smear [of x] by (simp add: smeared_def)
  also have "\<dots> \<longleftrightarrow> n \<le> b"
  proof
    assume "n \<le> b"
    with top assms(3) show "\<exists>k<32. bit x (n + k)"
      by (intro exI [of _ "b - n"]) auto
  qed (use above in \<open>auto simp: not_less [symmetric]\<close>)
  also have "\<dots> \<longleftrightarrow> bit (mask (Suc b) :: usize) n"
    using n by (auto simp: bit_mask_iff)
  finally show "bit (smear x) n = bit (mask (Suc b) :: usize) n" .
qed

lemma smear_zero [simp]: "smear 0 = 0"
  by (simp add: smear_def)

lemma next_power_of_two_smear:
  assumes "n \<noteq> 0" and "unat n \<le> 2 ^ 31"
  shows "next_power_of_two p n = obind (u_add p (smear (n - 1)) 1) (\<lambda>r. Ret (Some r))"
proof -
  have "\<not> usize_MAX div 2 + 1 < n"
    using assms(2) by (simp add: usize_MAX_def word_less_nat_alt)
  moreover have "1 \<le> n" using assms(1) by (simp add: word_le_nat_alt unat_gt_0 Suc_le_eq)
  ultimately show ?thesis using assms(1)
    by (simp add: next_power_of_two_def smear_def Let_def arith_ok)
qed

text \<open>The smallest exponent whose power covers \<open>n\<close>.\<close>

definition ceil_log2 :: "nat \<Rightarrow> nat" where
  "ceil_log2 n = (if n \<le> 1 then 0 else Suc (ilog2_nat (n - 1)))"

lemma ceil_log2_ge: "n \<le> 2 ^ ceil_log2 n"
  using ilog2_nat_bounds [of "n - 1"] by (auto simp: ceil_log2_def)

lemma ceil_log2_least: "n \<le> 2 ^ k \<Longrightarrow> ceil_log2 n \<le> k"
proof (cases "n \<le> 1")
  case False
  assume "n \<le> 2 ^ k"
  then have "2 ^ ilog2_nat (n - 1) < (2::nat) ^ k"
    using ilog2_nat_bounds [of "n - 1"] False by linarith
  then show ?thesis using False by (simp add: ceil_log2_def)
qed (simp add: ceil_log2_def)

lemma ceil_log2_lower: "2 ^ k < n \<Longrightarrow> k < ceil_log2 n"
  using ceil_log2_ge [of n] by (meson less_le_trans pow2_less_D)

lemma ceil_log2_power [simp]: "ceil_log2 (2 ^ k) = k"
  using ceil_log2_ge [of "2 ^ k"] ceil_log2_least [of "2 ^ k" k] by (simp add: antisym)

lemma ceil_log2_mono: "m \<le> n \<Longrightarrow> ceil_log2 m \<le> ceil_log2 n"
  using ceil_log2_ge [of n] by (meson ceil_log2_least le_trans)

lemma next_power_of_two_eq:
  assumes "n \<noteq> 0" and "unat n \<le> 2 ^ 31"
  shows "next_power_of_two p n = Ret (Some (2 ^ ceil_log2 (unat n)))"
proof (cases "n = 1")
  case True
  then show ?thesis using assms by (simp add: next_power_of_two_smear ceil_log2_def u_add_def)
next
  case False
  have one: "1 < unat n" using assms(1) False
    by (metis One_nat_def unat_1 unat_eq_zero word_unat_eq_iff less_one linorder_neqE_nat)
  define b where "b = ilog2_nat (unat n - 1)"
  have x: "unat (n - 1) = unat n - 1"
    using one by (simp add: unat_sub_ok word_le_nat_alt)
  have b: "2 ^ b \<le> unat (n - 1)" "unat (n - 1) < 2 ^ Suc b"
    using ilog2_nat_bounds [of "unat n - 1"] one by (auto simp: x b_def)
  have "(2::nat) ^ b < 2 ^ 31" using b(1) assms(2) x one by linarith
  then have b31: "b < 31" by (rule pow2_less_D)
  have sm: "smear (n - 1) = mask (Suc b)"
    using b b31 by (intro smear_eq_mask) auto
  have le: "(2::nat) ^ Suc b \<le> 2 ^ 31" using b31 by (intro power_increasing) auto
  have "unat (mask (Suc b) :: usize) = 2 ^ Suc b - 1"
    using b31 unat_pow2 [of "Suc b"] by (simp add: mask_eq_exp_minus_1 unat_sub_ok word_le_nat_alt)
  then have "u_add p (mask (Suc b)) 1 = Ret (mask (Suc b) + 1)"
    using le by (intro u_add_ok) simp
  moreover have "mask (Suc b) + 1 = (2::usize) ^ Suc b"
    by (simp add: mask_eq_exp_minus_1)
  moreover have "ceil_log2 (unat n) = Suc b"
    using one by (simp add: ceil_log2_def b_def)
  ultimately show ?thesis
    using assms by (simp add: next_power_of_two_smear sm)
qed

lemma next_power_of_two_None:
  assumes "2 ^ 31 < unat n"
  shows "next_power_of_two p n = Ret None"
proof -
  have "usize_MAX div 2 + 1 < n"
    using assms by (simp add: usize_MAX_def word_less_nat_alt)
  moreover have "n \<noteq> 0" using assms by auto
  ultimately show ?thesis by (simp add: next_power_of_two_def)
qed

end
