(* ===== verification/Ram.thy ===== *)
theory Ram
  imports Prelude
begin

text \<open>
  Physical memory as the unsafe code of the kernel sees it: bytes addressed by \<open>usize\<close>. Words are
  stored little-endian, as the target does. \<open>write_bytes\<close> is the pointer method of that name on a
  pointer to bytes.
\<close>

type_synonym ram = "usize \<Rightarrow> 8 word"

definition write_bytes :: "ram \<Rightarrow> usize \<Rightarrow> 8 word \<Rightarrow> usize \<Rightarrow> ram" where
  "write_bytes m a v n = (\<lambda>x. if x - a < n then v else m x)"

definition load32 :: "ram \<Rightarrow> usize \<Rightarrow> usize" where
  "load32 m a =
     ucast (m a) OR push_bit 8 (ucast (m (a + 1))) OR push_bit 16 (ucast (m (a + 2)))
       OR push_bit 24 (ucast (m (a + 3)))"

definition store32 :: "ram \<Rightarrow> usize \<Rightarrow> usize \<Rightarrow> ram" where
  "store32 m a v =
     m(a := ucast v, a + 1 := ucast (drop_bit 8 v), a + 2 := ucast (drop_bit 16 v),
       a + 3 := ucast (drop_bit 24 v))"


section \<open>Reading what was written\<close>

lemma write_bytes_inside: "x - a < n \<Longrightarrow> write_bytes m a v n x = v"
  by (simp add: write_bytes_def)

lemma write_bytes_outside: "\<not> x - a < n \<Longrightarrow> write_bytes m a v n x = m x"
  by (simp add: write_bytes_def)

lemma add_neq [simp]:
  "a + 1 \<noteq> a" "a + 2 \<noteq> a" "a + 3 \<noteq> a" "a + 2 \<noteq> a + 1" "a + 3 \<noteq> a + 1" "a + 3 \<noteq> a + 2"
  "a \<noteq> a + 1" "a \<noteq> a + 2" "a \<noteq> a + 3" "a + 1 \<noteq> a + 2" "a + 1 \<noteq> a + 3" "a + 2 \<noteq> a + 3"
  for a :: usize
  by (simp_all add: add_left_cancel flip: add.assoc)

lemma bytes_join:
  "ucast (ucast v :: 8 word) OR push_bit 8 (ucast (ucast (drop_bit 8 v) :: 8 word))
     OR push_bit 16 (ucast (ucast (drop_bit 16 v) :: 8 word))
     OR push_bit 24 (ucast (ucast (drop_bit 24 v) :: 8 word)) = v"
  for v :: usize
proof (rule bit_word_eqI)
  fix n assume "n < LENGTH(32)"
  then consider "n < 8" | "8 \<le> n" "n < 16" | "16 \<le> n" "n < 24" | "24 \<le> n" "n < 32"
    by fastforce
  then show "bit ((ucast (ucast v :: 8 word) :: usize) OR push_bit 8 (ucast (ucast (drop_bit 8 v) :: 8 word))
     OR push_bit 16 (ucast (ucast (drop_bit 16 v) :: 8 word))
     OR push_bit 24 (ucast (ucast (drop_bit 24 v) :: 8 word))) n = bit v n"
    by cases (auto simp: bit_simps)
qed

lemma load32_store32_same [simp]: "load32 (store32 m a v) a = v"
  by (simp add: load32_def store32_def bytes_join)

text \<open>Two word cells are apart when neither starts inside the other.\<close>

definition apart :: "usize \<Rightarrow> usize \<Rightarrow> bool" where
  "apart a b \<longleftrightarrow> 4 \<le> a - b \<and> 4 \<le> b - a"

lemma apart_sym: "apart a b \<longleftrightarrow> apart b a"
  by (auto simp: apart_def)

lemma store32_outside: "4 \<le> x - a \<Longrightarrow> store32 m a v x = m x"
  by (auto simp: store32_def word_le_nat_alt)

lemma apart_cells:
  assumes "apart a b"
  shows "4 \<le> b - a" "4 \<le> b + 1 - a" "4 \<le> b + 2 - a" "4 \<le> b + 3 - a"
proof -
  from assms have *: "4 \<le> unat (b - a)" "4 \<le> unat (a - b)"
    by (simp_all add: apart_def word_le_nat_alt)
  then have "a \<noteq> b" by auto
  then have "unat (b - a) + unat (a - b) = 2 ^ 32"
    using unat_less_32 [of a] unat_less_32 [of b]
    by (auto simp: unat_sub_if' word_unat_eq_iff)
  then have up: "unat (b - a) + 3 < 2 ^ 32" using *(2) by linarith
  have "unat (b - a + c) = unat (b - a) + unat c" if "unat c \<le> 3" for c
    using up that by (intro unat_add_ok) linarith
  from this [of 1] this [of 2] this [of 3]
  have "4 \<le> unat (b - a + 1)" "4 \<le> unat (b - a + 2)" "4 \<le> unat (b - a + 3)"
    using *(1) by simp_all
  then show "4 \<le> b - a" "4 \<le> b + 1 - a" "4 \<le> b + 2 - a" "4 \<le> b + 3 - a"
    using *(1) by (simp_all add: word_le_nat_alt diff_add_eq)
qed

lemma load32_store32_apart [simp]: "apart a b \<Longrightarrow> load32 (store32 m a v) b = load32 m b"
  using apart_cells [of a b] by (simp add: load32_def store32_outside)

definition aligned :: "nat \<Rightarrow> usize \<Rightarrow> bool" where
  "aligned n a \<longleftrightarrow> n dvd unat a"



section \<open>What a write leaves alone\<close>

definition unchanged_on :: "nat set \<Rightarrow> ram \<Rightarrow> ram \<Rightarrow> bool" where
  "unchanged_on S m m' \<longleftrightarrow> (\<forall>x. unat x \<in> S \<longrightarrow> m' x = m x)"

lemma unchanged_on_refl [simp]: "unchanged_on S m m"
  by (simp add: unchanged_on_def)

lemma unchanged_on_trans: "unchanged_on S m m' \<Longrightarrow> unchanged_on S m' m'' \<Longrightarrow> unchanged_on S m m''"
  by (simp add: unchanged_on_def)

lemma unchanged_on_mono: "unchanged_on S m m' \<Longrightarrow> T \<subseteq> S \<Longrightarrow> unchanged_on T m m'"
  by (auto simp: unchanged_on_def)

lemma word_range:
  assumes "unat a + 4 \<le> 2 ^ 32"
  shows "unat (a + 1 :: usize) = unat a + 1" "unat (a + 2 :: usize) = unat a + 2"
    "unat (a + 3 :: usize) = unat a + 3"
  using assms unat_add_ok [of a 1] unat_add_ok [of a 2] unat_add_ok [of a 3] by simp_all

lemma store32_on:
  assumes "unat a + 4 \<le> 2 ^ 32" "{unat a..<unat a + 4} \<inter> S = {}"
  shows "unchanged_on S m (store32 m a v)"
proof -
  note wr = word_range [OF assms(1)]
  have "x \<noteq> a" "x \<noteq> a + 1" "x \<noteq> a + 2" "x \<noteq> a + 3" if "unat x \<in> S" for x
    using that wr assms(2) by (auto simp: disjoint_iff)
  then show ?thesis by (simp add: unchanged_on_def store32_def)
qed

lemma load32_on:
  assumes "unchanged_on S m m'" "{unat a..<unat a + 4} \<subseteq> S" "unat a + 4 \<le> 2 ^ 32"
  shows "load32 m' a = load32 m a"
proof -
  note wr = word_range [OF assms(3)]
  have "unat a \<in> S" "unat (a + 1) \<in> S" "unat (a + 2) \<in> S" "unat (a + 3) \<in> S"
    using assms(2) wr by auto
  then show ?thesis using assms(1) by (simp add: unchanged_on_def load32_def)
qed

text \<open>A word of zeroed memory.\<close>

lemma load32_zero:
  assumes "\<And>x. unat a \<le> unat x \<Longrightarrow> unat x < unat a + 4 \<Longrightarrow> m x = 0" "unat a + 4 \<le> 2 ^ 32"
  shows "load32 m a = 0"
proof -
  note wr = word_range [OF assms(2)]
  have "m a = 0" "m (a + 1) = 0" "m (a + 2) = 0" "m (a + 3) = 0" using wr by (auto intro!: assms(1))
  then show ?thesis by (simp add: load32_def)
qed

end
