(* ===== verification/Buddy.thy ===== *)
theory Buddy
  imports Addr Bits Ram
begin

text \<open>
  The memory management of \<open>src/rust/src/mem.rs\<close>: the bump allocator \<open>InitialAlloc\<close> that carves the
  metadata out of the reserved region, and the buddy allocator \<open>Memory\<close> over an array of block
  states. The slices \<open>buddy_meta\<close> and \<open>buddy_stack\<close> are exclusive references, so the model holds
  their elements in the record; the bytes they occupy are written to the memory by \<open>Memory_new\<close>.
\<close>

datatype Error = OutOfMemory | ZeroSize

section \<open>Initial allocator\<close>

record InitialAlloc =
  ia_start :: usize
  ia_end :: usize
  ia_next :: usize

text \<open>\<open>_end.offset_from(_start) as usize\<close> is the difference of the two addresses.\<close>

definition InitialAlloc_new :: "ram \<Rightarrow> usize \<Rightarrow> usize \<Rightarrow> InitialAlloc \<times> ram" where
  "InitialAlloc_new ram start end =
     (\<lparr>ia_start = start, ia_end = end, ia_next = start\<rparr>,
      write_bytes ram start 0 (end - start))"

definition page_alloc ::
    "profile \<Rightarrow> InitialAlloc \<Rightarrow> usize \<Rightarrow> (PhysAddr \<times> InitialAlloc) outcome" where
  "page_alloc p self n =
     obind (u_mul p n PAGE_SIZE) (\<lambda>size.
     let addr = ia_next self in
     obind (u_add p addr size) (\<lambda>top.
     if top \<le> ia_end self then
       obind (u_add p (ia_next self) size) (\<lambda>next.
       Ret (PhysAddr_new addr (Some size), self\<lparr>ia_next := next\<rparr>))
     else Panic (Explicit ''OutOfMemory'')))"


section \<open>Buddy allocator\<close>

datatype BlockState = Free | Allocated | Split

fun BlockState_as_u8 :: "BlockState \<Rightarrow> 8 word" where
  "BlockState_as_u8 Free = 1"
| "BlockState_as_u8 Allocated = 2"
| "BlockState_as_u8 Split = 3"

record Memory =
  m_start :: PhysAddr
  m_end :: PhysAddr
  mem_size :: usize
  buddy_node_count :: usize
  buddy_high_order :: usize
  buddy_low_order :: usize
  buddy_stack_size :: usize
  buddy_stack :: "usize list"
  buddy_meta :: "BlockState list"

definition Memory_new ::
    "profile \<Rightarrow> ram \<Rightarrow> usize option \<Rightarrow> usize option \<Rightarrow> usize option \<Rightarrow> usize option \<Rightarrow>
     (Memory \<times> ram) outcome" where
  "Memory_new p ram ram_start ram_end alloc_mem_start alloc_mem_end =
     obind (expect alloc_mem_start
       ''expected the start address of the reserved allocator memory region, found None.'')
       (\<lambda>alloc_mem_start.
     obind (expect alloc_mem_end
       ''expected the end address of the reserved allocator memory region, found None.'')
       (\<lambda>alloc_mem_end.
     case InitialAlloc_new ram alloc_mem_start alloc_mem_end of (sc_alloc, ram) \<Rightarrow>
     obind (expect ram_start ''expected the start address of RAM, found None.'') (\<lambda>start.
     obind (expect ram_end ''expected the end address of RAM, found None.'') (\<lambda>end.
     obind (u_sub p end start) (\<lambda>mem_size.
     obind (u_div mem_size PAGE_SIZE) (\<lambda>pages.
     obind (u_mul p 2 pages) (\<lambda>twice.
     obind (u_sub p twice 1) (\<lambda>buddy_node_count.
     obind (u_mul p buddy_node_count 1) (\<lambda>buddy_meta_size.
     obind (u_div_ceil p buddy_meta_size PAGE_SIZE) (\<lambda>meta_pages.
     obind (page_alloc p sc_alloc meta_pages) (\<lambda>(meta_addr, sc_alloc).
     let meta_slice = PhysAddr_as_mut_slice_leak meta_addr buddy_node_count;
         ram = write_bytes ram (slice_ptr meta_slice) (BlockState_as_u8 Free) buddy_node_count;
         buddy_meta = replicate (unat (slice_len meta_slice)) Free
     in
     obind (find_order p mem_size) (\<lambda>buddy_high_order.
     obind (find_order p PAGE_SIZE) (\<lambda>buddy_low_order.
     obind (u_sub p buddy_high_order buddy_low_order) (\<lambda>levels.
     obind (u_add p levels 1) (\<lambda>buddy_stack_len.
     obind (u_mul p buddy_meta_size 4) (\<lambda>buddy_stack_size.
     obind (u_div_ceil p buddy_stack_size PAGE_SIZE) (\<lambda>stack_pages.
     obind (page_alloc p sc_alloc stack_pages) (\<lambda>(stack_addr, sc_alloc).
     let stack_slice = PhysAddr_as_mut_slice_leak stack_addr buddy_stack_len;
         ram = write_bytes ram (slice_ptr stack_slice) 0 (buddy_meta_size * 4);
         buddy_stack = replicate (unat (slice_len stack_slice)) 0
     in
     Ret (\<lparr>m_start = PhysAddr_new start None,
           m_end = PhysAddr_new end None,
           mem_size = mem_size,
           buddy_node_count = buddy_node_count,
           buddy_high_order = buddy_high_order,
           buddy_low_order = buddy_low_order,
           buddy_stack_size = buddy_stack_size,
           buddy_stack = buddy_stack,
           buddy_meta = buddy_meta\<rparr>, ram)))))))))))))))))))"

text \<open>
  The loop of \<open>buddy_alloc\<close>: a depth-first search over the nodes of the tree, left child first,
  with an explicit stack. Its state is the allocator and the stack pointer.
\<close>

definition push_children ::
    "profile \<Rightarrow> Memory \<Rightarrow> isize \<Rightarrow> usize \<Rightarrow> (Memory \<times> isize) outcome" where
  "push_children p m sp i =
     obind (i_add p sp 1) (\<lambda>sp.
     obind (u_mul p 2 i) (\<lambda>j.
     obind (u_add p j 2) (\<lambda>right.
     obind (upd (buddy_stack m) (i_as_usize sp) right) (\<lambda>stack.
     obind (i_add p sp 1) (\<lambda>sp.
     obind (u_mul p 2 i) (\<lambda>j.
     obind (u_add p j 1) (\<lambda>left.
     obind (upd stack (i_as_usize sp) left) (\<lambda>stack.
     Ret (m\<lparr>buddy_stack := stack\<rparr>, sp)))))))))"

definition node_addr :: "profile \<Rightarrow> Memory \<Rightarrow> usize \<Rightarrow> usize \<Rightarrow> usize outcome" where
  "node_addr p m i level =
     obind (u_add p 1 i) (\<lambda>j.
     obind (u_pow p 2 level) (\<lambda>first.
     obind (u_sub p j first) (\<lambda>at_level.
     obind (u_sub p (buddy_high_order m) level) (\<lambda>order.
     obind (u_pow p 2 order) (\<lambda>size.
     obind (u_mul p at_level size) (\<lambda>off.
     Ret (PhysAddr_as_usize (m_start m) + off)))))))"

fun alloc_body ::
    "profile \<Rightarrow> usize \<Rightarrow> usize \<Rightarrow> Memory \<times> isize \<Rightarrow>
     (Memory \<times> isize + (PhysAddr, Error) Result \<times> Memory) outcome" where
  "alloc_body p n req_order (m, sp) =
     (if 0 \<le> sp then
        obind (idx (buddy_stack m) (i_as_usize sp)) (\<lambda>i.
        obind (i_add p sp (- 1)) (\<lambda>sp.
        obind (find_order p i) (\<lambda>level.
        if req_order = level then
          obind (idx (buddy_meta m) i) (\<lambda>state.
          if state = Free then
            obind (upd (buddy_meta m) i Allocated) (\<lambda>meta.
            obind (node_addr p m i level) (\<lambda>addr.
            Ret (Inr (Ok (PhysAddr_new addr (Some n)), m\<lparr>buddy_meta := meta\<rparr>))))
          else Ret (Inl (m, sp)))
        else
          obind (idx (buddy_meta m) i) (\<lambda>state.
          case state of
            Free \<Rightarrow>
              obind (upd (buddy_meta m) i Split) (\<lambda>meta.
              obind (push_children p (m\<lparr>buddy_meta := meta\<rparr>) sp i) (\<lambda>s. Ret (Inl s)))
          | Allocated \<Rightarrow> Ret (Inl (m, sp))
          | Split \<Rightarrow> obind (push_children p m sp i) (\<lambda>s. Ret (Inl s))))))
      else Ret (Inr (Err OutOfMemory, m)))"

definition Memory_buddy_alloc ::
    "profile \<Rightarrow> Memory \<Rightarrow> usize \<Rightarrow> ((PhysAddr, Error) Result \<times> Memory) outcome" where
  "Memory_buddy_alloc p m n =
     (if mem_size m < n then Ret (Err OutOfMemory, m)
      else if n = 0 then Ret (Err ZeroSize, m)
      else
        let n = (if n < PAGE_SIZE then PAGE_SIZE else n) in
        obind (next_power_of_two p n) (\<lambda>r.
        obind (expect r ''can you really handle that size??'') (\<lambda>n.
        obind (find_order p n) (\<lambda>order.
        obind (u_sub p (buddy_high_order m) order) (\<lambda>req_order.
        let sp = 0 in
        obind (upd (buddy_stack m) (i_as_usize sp) 0) (\<lambda>stack.
        loop (alloc_body p n req_order) (m\<lparr>buddy_stack := stack\<rparr>, sp)))))))"

text \<open>
  \<open>buddy_free\<close> marks the block free and merges it with its buddy as long as the buddy is free
  too. The state of the merge loop is the allocator, the current node, its level and the node of
  its buddy.
\<close>

definition buddy_index :: "profile \<Rightarrow> usize \<Rightarrow> usize \<Rightarrow> usize outcome" where
  "buddy_index p i_at_level level =
     obind (u_pow p 2 level) (\<lambda>first.
     obind (u_add p (i_at_level XOR 1) first) (\<lambda>j. u_sub p j 1))"

definition index_at_level :: "profile \<Rightarrow> usize \<Rightarrow> usize \<Rightarrow> usize outcome" where
  "index_at_level p i level =
     obind (u_add p 1 i) (\<lambda>j. obind (u_pow p 2 level) (\<lambda>first. u_sub p j first))"

fun free_body ::
    "profile \<Rightarrow> Memory \<times> usize \<times> usize \<times> usize \<Rightarrow>
     (Memory \<times> usize \<times> usize \<times> usize + Memory) outcome" where
  "free_body p (m, i, level, buddy_i) =
     obind (idx (buddy_meta m) buddy_i) (\<lambda>buddy.
     if buddy = Free then
       obind (u_sub p i 1) (\<lambda>j.
       obind (u_div j 2) (\<lambda>i.
       obind (idx (buddy_meta m) i) (\<lambda>parent.
       if parent = Split then
         obind (upd (buddy_meta m) i Free) (\<lambda>meta.
         let m = m\<lparr>buddy_meta := meta\<rparr> in
         if i = 0 then Ret (Inr m)
         else
           obind (u_sub p level 1) (\<lambda>level.
           obind (index_at_level p i level) (\<lambda>i_at_level.
           obind (buddy_index p i_at_level level) (\<lambda>buddy_i.
           Ret (Inl (m, i, level, buddy_i))))))
       else Panic (Formatted ''buddy_free(): Memory at index {i} was not split, something is wrong.'' [i]))))
     else Ret (Inr m))"

definition Memory_buddy_free :: "profile \<Rightarrow> Memory \<Rightarrow> PhysAddr \<Rightarrow> Memory outcome" where
  "Memory_buddy_free p m addr =
     (case pa_size addr of
        None \<Rightarrow> Ret m
      | Some _ \<Rightarrow>
        obind (expect (pa_size addr) ''buddy_free(): size is None.'') (\<lambda>size.
        obind (u_sub p (PhysAddr_as_usize addr) (PhysAddr_as_usize (m_start m))) (\<lambda>offset.
        obind (u_sub p (buddy_high_order m) (u_trailing_zeros size)) (\<lambda>level.
        obind (u_div offset size) (\<lambda>position.
        obind (u_shl p 1 level) (\<lambda>first.
        obind (u_sub p first 1) (\<lambda>base.
        obind (u_add p base position) (\<lambda>i.
        obind (index_at_level p i level) (\<lambda>i_at_level.
        obind (idx (buddy_meta m) i) (\<lambda>state.
        if state = Allocated then
          obind (upd (buddy_meta m) i Free) (\<lambda>meta.
          obind (buddy_index p i_at_level level) (\<lambda>buddy_i.
          loop (free_body p) (m\<lparr>buddy_meta := meta\<rparr>, i, level, buddy_i)))
        else Panic (Formatted
          ''buddy_free(): Memory at index {i} was not allocated, something is wrong.'' [i])))))))))))"

end
