(* ===== verification/Buddy_Tree.thy ===== *)
theory Buddy_Tree
  imports Main
begin

text \<open>
  The abstract specification of the buddy allocator: a binary tree of blocks, in which a block
  is free, allocated, or split into two halves. Allocation takes the leftmost free block of the
  requested level (splitting a larger one when it meets one), and release merges free buddies
  bottom-up. The theory relates the tree to what a client sees, the set of allocated blocks.
\<close>

section \<open>Trees of blocks\<close>

datatype btree = BFree | BAlloc | BSplit btree btree

text \<open>
  \<open>talloc k t\<close> allocates a block \<open>k\<close> levels below the root; the result carries its position
  among the \<open>2 ^ k\<close> blocks of that level.
\<close>

fun talloc :: "nat \<Rightarrow> btree \<Rightarrow> (nat \<times> btree) option" where
  "talloc 0 BFree = Some (0, BAlloc)"
| "talloc 0 BAlloc = None"
| "talloc 0 (BSplit l r) = None"
| "talloc (Suc k) BAlloc = None"
| "talloc (Suc k) BFree =
     map_option (\<lambda>(q, l). (q, BSplit l BFree)) (talloc k BFree)"
| "talloc (Suc k) (BSplit l r) =
     (case talloc k l of
        Some (q, l') \<Rightarrow> Some (q, BSplit l' r)
      | None \<Rightarrow> map_option (\<lambda>(q, r'). (2 ^ k + q, BSplit l r')) (talloc k r))"

fun merge :: "btree \<Rightarrow> btree \<Rightarrow> btree" where
  "merge BFree BFree = BFree"
| "merge l r = BSplit l r"

fun tfree :: "nat \<Rightarrow> nat \<Rightarrow> btree \<Rightarrow> btree option" where
  "tfree 0 q BAlloc = Some BFree"
| "tfree (Suc k) q (BSplit l r) =
     (if q < 2 ^ k then map_option (\<lambda>l'. merge l' r) (tfree k q l)
      else map_option (\<lambda>r'. merge l r') (tfree k (q - 2 ^ k) r))"
| "tfree 0 q (BSplit l r) = None"
| "tfree 0 q BFree = None"
| "tfree (Suc k) q BFree = None"
| "tfree (Suc k) q BAlloc = None"

lemma merge_cases: "merge l r = (if l = BFree \<and> r = BFree then BFree else BSplit l r)"
  by (cases "(l, r)" rule: merge.cases) auto

text \<open>Splits happen at most \<open>d\<close> levels deep.\<close>

fun depth_ok :: "nat \<Rightarrow> btree \<Rightarrow> bool" where
  "depth_ok (Suc d) (BSplit l r) = (depth_ok d l \<and> depth_ok d r)"
| "depth_ok 0 (BSplit l r) = False"
| "depth_ok _ _ = True"

text \<open>No split block has two free halves.\<close>

fun coalesced :: "btree \<Rightarrow> bool" where
  "coalesced (BSplit l r) =
     (coalesced l \<and> coalesced r \<and> \<not> (l = BFree \<and> r = BFree))"
| "coalesced _ = True"

text \<open>A free block at a level at most \<open>k\<close> below the root.\<close>

fun has_free :: "nat \<Rightarrow> btree \<Rightarrow> bool" where
  "has_free _ BFree = True"
| "has_free _ BAlloc = False"
| "has_free 0 (BSplit l r) = False"
| "has_free (Suc k) (BSplit l r) = (has_free k l \<or> has_free k r)"

text \<open>
  The allocated blocks of a tree of size \<open>2 ^ d\<close> placed at \<open>a\<close>: pairs of an address and the
  logarithm of a size. \<open>extent\<close> is the set of addresses of such a block.
\<close>

fun blocks :: "nat \<Rightarrow> nat \<Rightarrow> btree \<Rightarrow> (nat \<times> nat) set" where
  "blocks a d BFree = {}"
| "blocks a d BAlloc = {(a, d)}"
| "blocks a 0 (BSplit l r) = {}"
| "blocks a (Suc d) (BSplit l r) = blocks a d l \<union> blocks (a + 2 ^ d) d r"

definition extent :: "nat \<times> nat \<Rightarrow> nat set" where
  "extent = (\<lambda>(a, d). {a ..< a + 2 ^ d})"

lemma extent_iff [simp]: "x \<in> extent (a, d) \<longleftrightarrow> a \<le> x \<and> x < a + 2 ^ d"
  by (simp add: extent_def)


section \<open>Blocks are inside the tree's extent and pairwise disjoint\<close>

lemma blocks_inside:
  "b \<in> blocks a d t \<Longrightarrow> a \<le> fst b \<and> fst b + 2 ^ snd b \<le> a + 2 ^ d"
proof (induction a d t rule: blocks.induct)
  case (4 a d l r)
  then show ?case by (auto simp: algebra_simps)
qed auto

lemma blocks_extent: "b \<in> blocks a d t \<Longrightarrow> extent b \<subseteq> extent (a, d)"
  using blocks_inside [of b a d t] by (cases b) auto

lemma blocks_disjoint:
  "b \<in> blocks a d t \<Longrightarrow> c \<in> blocks a d t \<Longrightarrow> b \<noteq> c \<Longrightarrow> extent b \<inter> extent c = {}"
proof (induction a d t rule: blocks.induct)
  case (4 a d l r)
  have cross: "extent x \<inter> extent y = {}"
    if "x \<in> blocks a d l" "y \<in> blocks (a + 2 ^ d) d r" for x y
    using blocks_inside [OF that(1)] blocks_inside [OF that(2)]
    by (cases x; cases y) (auto simp: extent_def)
  from "4.prems" consider "b \<in> blocks a d l" "c \<in> blocks a d l"
    | "b \<in> blocks a d l" "c \<in> blocks (a + 2 ^ d) d r"
    | "c \<in> blocks a d l" "b \<in> blocks (a + 2 ^ d) d r"
    | "b \<in> blocks (a + 2 ^ d) d r" "c \<in> blocks (a + 2 ^ d) d r"
    by auto
  then show ?case
  proof cases
    case 1
    with "4.IH"(1) "4.prems"(3) show ?thesis by blast
  next
    case 2
    then show ?thesis by (rule cross)
  next
    case 3
    then have "extent c \<inter> extent b = {}" by (rule cross)
    then show ?thesis by blast
  next
    case 4
    with "4.IH"(2) "4.prems"(3) show ?thesis by blast
  qed
qed auto

text \<open>Positions in the two halves.\<close>

lemma right_pos: "k \<le> e \<Longrightarrow> (2 ^ k + q) * 2 ^ (e - k) = 2 ^ e + q * 2 ^ (e - k)" for q :: nat
  by (simp add: algebra_simps flip: power_add)

lemma left_pos:
  fixes q :: nat
  assumes "k \<le> e" "q < 2 ^ k"
  shows "q * 2 ^ (e - k) + 2 ^ (e - k) \<le> 2 ^ e"
proof -
  have "(q + 1) * 2 ^ (e - k) \<le> 2 ^ k * 2 ^ (e - k)" using assms(2) by (intro mult_le_mono1) simp
  then show ?thesis using assms(1) by (simp flip: power_add)
qed


section \<open>Allocation\<close>

lemma talloc_BFree: "\<exists>t'. talloc k BFree = Some (0, t')"
  by (induction k) auto

text \<open>Allocation fails exactly when no free block of the level, or above it, is left.\<close>

lemma talloc_None_iff: "talloc k t = None \<longleftrightarrow> \<not> has_free k t"
proof (induction k t rule: talloc.induct)
  case (5 k)
  then show ?case using talloc_BFree [of k] by auto
qed (auto split: option.splits)

lemma talloc_pos: "talloc k t = Some (q, t') \<Longrightarrow> q < 2 ^ k"
proof (induction k t arbitrary: q t' rule: talloc.induct)
  case (6 k l r)
  then show ?case by (fastforce split: option.splits)
qed (fastforce split: option.splits)+

lemma talloc_ne_BFree: "talloc k t = Some (q, t') \<Longrightarrow> t' \<noteq> BFree"
  by (induction k t arbitrary: q t' rule: talloc.induct) (auto split: option.splits)

lemma talloc_depth_ok: "talloc k t = Some (q, t') \<Longrightarrow> k \<le> d \<Longrightarrow> depth_ok d t \<Longrightarrow> depth_ok d t'"
proof (induction k t arbitrary: q t' d rule: talloc.induct)
  case (5 k)
  then show ?case by (cases d) auto
next
  case (6 k l r)
  then show ?case by (cases d) (auto split: option.splits)
qed auto

lemma talloc_coalesced: "talloc k t = Some (q, t') \<Longrightarrow> coalesced t \<Longrightarrow> coalesced t'"
proof (induction k t arbitrary: q t' rule: talloc.induct)
  case (5 k)
  then show ?case by (auto dest: talloc_ne_BFree)
next
  case (6 k l r)
  then show ?case by (auto split: option.splits dest: talloc_ne_BFree)
qed auto

text \<open>The block handed out is new, and nothing else changes.\<close>

lemma talloc_blocks:
  "talloc k t = Some (q, t') \<Longrightarrow> k \<le> d \<Longrightarrow>
     blocks a d t' = insert (a + q * 2 ^ (d - k), d - k) (blocks a d t)"
proof (induction k t arbitrary: q t' d a rule: talloc.induct)
  case (5 k)
  then obtain e where "d = Suc e" by (cases d) auto
  with 5 show ?case by auto
next
  case (6 k l r)
  from "6.prems"(2) obtain e where d: "d = Suc e" "k \<le> e" by (cases d) auto
  show ?case
  proof (cases "talloc k l")
    case (Some s)
    then obtain l' where "talloc k l = Some (q, l')" "t' = BSplit l' r" using 6 by (cases s) auto
    with "6.IH"(1) [of q l' e a] d show ?thesis by simp
  next
    case None
    then obtain q' r' where r: "talloc k r = Some (q', r')" "q = 2 ^ k + q'" "t' = BSplit l r'"
      using 6 by (auto split: option.splits)
    have "blocks (a + 2 ^ e) e r' =
        insert (a + 2 ^ e + q' * 2 ^ (e - k), e - k) (blocks (a + 2 ^ e) e r)"
      using None r(1) d(2) by (rule "6.IH"(2))
    moreover have "a + 2 ^ e + q' * 2 ^ (e - k) = a + q * 2 ^ (e - k)"
      using d(2) r(2) by (simp add: right_pos)
    ultimately show ?thesis using r(3) d(1) by simp
  qed
qed auto

text \<open>The block was free before: it meets no allocated block.\<close>

lemma talloc_fresh:
  assumes "talloc k t = Some (q, t')" "k \<le> d" "b \<in> blocks a d t"
  shows "extent b \<inter> extent (a + q * 2 ^ (d - k), d - k) = {}"
  using assms
proof (induction k t arbitrary: q t' d a b rule: talloc.induct)
  case (6 k l r)
  from "6.prems"(2) obtain e where d: "d = Suc e" "k \<le> e" by (cases d) auto
  show ?case
  proof (cases "talloc k l")
    case (Some s)
    then obtain l' where s: "talloc k l = Some (q, l')" using 6 by (cases s) auto
    have up: "q * 2 ^ (e - k) + 2 ^ (e - k) \<le> 2 ^ e"
      using d(2) talloc_pos [OF s] by (rule left_pos)
    have "extent b \<inter> extent (a + q * 2 ^ (e - k), e - k) = {}" if "b \<in> blocks (a + 2 ^ e) e r"
      using blocks_inside [OF that] up by (cases b) auto
    moreover have "extent b \<inter> extent (a + q * 2 ^ (e - k), e - k) = {}" if "b \<in> blocks a e l"
      using s d(2) that by (rule "6.IH"(1))
    ultimately show ?thesis using "6.prems"(3) d by auto
  next
    case None
    then obtain q' r' where s: "talloc k r = Some (q', r')" "q = 2 ^ k + q'"
      using 6 by (auto split: option.splits)
    have "extent b \<inter> extent (a + q * 2 ^ (e - k), e - k) = {}" if "b \<in> blocks a e l"
      using blocks_inside [OF that] d(2) s(2) by (cases b) (auto simp: right_pos)
    moreover have "extent b \<inter> extent (a + q * 2 ^ (e - k), e - k) = {}"
      if "b \<in> blocks (a + 2 ^ e) e r"
      using "6.IH"(2) [OF None s(1) d(2) that] d(2) s(2) by (simp add: right_pos add.assoc)
    ultimately show ?thesis using "6.prems"(3) d by auto
  qed
qed auto


text \<open>
  Allocation is complete: when it fails, every block of the requested level overlaps an
  allocated one. This needs the tree to be coalesced.
\<close>

lemma coalesced_no_blocks:
  "coalesced t \<Longrightarrow> depth_ok d t \<Longrightarrow> blocks a d t = {} \<Longrightarrow> t = BFree"
proof (induction d t arbitrary: a rule: depth_ok.induct)
  case (1 d l r)
  then have "l = BFree" "r = BFree" by auto
  with 1 show ?case by simp
qed auto

lemma no_free_overlap:
  assumes "\<not> has_free k t" "coalesced t" "depth_ok d t" "k \<le> d" "q < 2 ^ k"
  shows "\<exists>b\<in>blocks a d t. extent b \<inter> extent (a + q * 2 ^ (d - k), d - k) \<noteq> {}"
  using assms
proof (induction k t arbitrary: q d a rule: has_free.induct)
  case (2 k)
  have "a + q * 2 ^ (d - k) \<in> extent (a, d) \<inter> extent (a + q * 2 ^ (d - k), d - k)"
  proof -
    have "q * 2 ^ (d - k) < 2 ^ d"
      using left_pos [of k d q] 2 zero_less_power [of "2::nat" "d - k"] by linarith
    then show ?thesis by simp
  qed
  then show ?case by fastforce
next
  case (3 l r)
  then have "blocks a d (BSplit l r) \<noteq> {}" using coalesced_no_blocks by blast
  then obtain b where b: "b \<in> blocks a d (BSplit l r)" by blast
  then have "extent b \<subseteq> extent (a, d)" by (rule blocks_extent)
  moreover have "fst b \<in> extent b" by (cases b) simp
  ultimately show ?case using b 3 by fastforce
next
  case (4 k l r)
  obtain e where d: "d = Suc e" "k \<le> e" using "4.prems"(4) by (cases d) auto
  show ?case
  proof (cases "q < 2 ^ k")
    case True
    with "4.IH"(1) [of e q a] "4.prems" d show ?thesis by auto
  next
    case False
    then obtain q' where q: "q = 2 ^ k + q'" by (metis le_iff_add not_less)
    then have "q' < 2 ^ k" using "4.prems"(5) by simp
    with "4.IH"(2) [of e q' "a + 2 ^ e"] "4.prems" d
    obtain b where "b \<in> blocks (a + 2 ^ e) e r"
        "extent b \<inter> extent (a + 2 ^ e + q' * 2 ^ (e - k), e - k) \<noteq> {}" by auto
    moreover have "a + 2 ^ e + q' * 2 ^ (e - k) = a + q * 2 ^ (e - k)"
      using d(2) q by (simp add: right_pos)
    ultimately show ?thesis using d(1) by auto
  qed
qed auto


section \<open>Release\<close>

text \<open>A block can be released exactly when it is allocated.\<close>

lemma tfree_Some_iff:
  assumes "q < 2 ^ k" "k \<le> d" "depth_ok d t"
  shows "(\<exists>t'. tfree k q t = Some t') \<longleftrightarrow> (a + q * 2 ^ (d - k), d - k) \<in> blocks a d t"
  using assms
proof (induction k q t arbitrary: d a rule: tfree.induct)
  case (1 q)
  then show ?case by simp
next
  case (2 k q l r)
  from "2.prems"(2) obtain e where d: "d = Suc e" "k \<le> e" by (cases d) auto
  let ?b = "\<lambda>a q. (a + q * 2 ^ (e - k), e - k)"
  show ?case
  proof (cases "q < 2 ^ k")
    case True
    then have "q * 2 ^ (e - k) < 2 ^ e"
      using left_pos [OF d(2) True] zero_less_power [of "2::nat" "e - k"] by linarith
    then have "?b a q \<notin> blocks (a + 2 ^ e) e r"
      using blocks_inside [of "?b a q" "a + 2 ^ e" e r] by auto
    moreover have "(\<exists>t'. tfree k q l = Some t') \<longleftrightarrow> ?b a q \<in> blocks a e l"
      using "2.IH"(1) [OF True True d(2)] "2.prems"(3) d(1) by simp
    ultimately show ?thesis using True d by auto
  next
    case False
    then obtain q' where q: "q = 2 ^ k + q'" by (metis le_iff_add not_less)
    then have b: "?b a q = ?b (a + 2 ^ e) q'" using d(2) by (simp add: right_pos)
    then have "?b a q \<notin> blocks a e l"
      using blocks_inside [of "?b a q" a e l] by auto
    moreover have "(\<exists>t'. tfree k q' r = Some t') \<longleftrightarrow> ?b (a + 2 ^ e) q' \<in> blocks (a + 2 ^ e) e r"
      using "2.IH"(2) [OF False, of e "a + 2 ^ e"] "2.prems" d q by simp
    ultimately have "(\<exists>t'. tfree k q' r = Some t') \<longleftrightarrow> ?b a q \<in> blocks a d (BSplit l r)"
      unfolding b d(1) by simp
    then show ?thesis using False d(1) q by auto
  qed
next
  case (3 q l r)
  have "(a, d) \<notin> blocks a d (BSplit l r)"
  proof (cases d)
    case (Suc e)
    have "(a, Suc e) \<notin> blocks a e l" "(a, Suc e) \<notin> blocks (a + 2 ^ e) e r"
      using blocks_inside [of "(a, Suc e)" a e l] blocks_inside [of "(a, Suc e)" "a + 2 ^ e" e r]
      by auto
    then show ?thesis using Suc by simp
  qed simp
  with 3 show ?case by simp
qed auto

lemma merge_blocks: "blocks a (Suc d) (merge l r) = blocks a d l \<union> blocks (a + 2 ^ d) d r"
  by (auto simp: merge_cases)

lemma merge_coalesced: "coalesced l \<Longrightarrow> coalesced r \<Longrightarrow> coalesced (merge l r)"
  by (auto simp: merge_cases)

lemma merge_depth_ok: "depth_ok d l \<Longrightarrow> depth_ok d r \<Longrightarrow> depth_ok (Suc d) (merge l r)"
  by (auto simp: merge_cases)

text \<open>A released block disappears, and no other one.\<close>

lemma tfree_blocks:
  assumes "tfree k q t = Some t'" "q < 2 ^ k" "k \<le> d"
  shows "blocks a d t' = blocks a d t - {(a + q * 2 ^ (d - k), d - k)}"
  using assms
proof (induction k q t arbitrary: t' d a rule: tfree.induct)
  case (2 k q l r)
  from "2.prems"(3) obtain e where d: "d = Suc e" "k \<le> e" by (cases d) auto
  let ?b = "\<lambda>a q. (a + q * 2 ^ (e - k), e - k)"
  show ?case
  proof (cases "q < 2 ^ k")
    case True
    then obtain l' where l': "tfree k q l = Some l'" "t' = merge l' r" using "2.prems"(1) by auto
    have "q * 2 ^ (e - k) < 2 ^ e"
      using left_pos [OF d(2) True] zero_less_power [of "2::nat" "e - k"] by linarith
    then have "?b a q \<notin> blocks (a + 2 ^ e) e r"
      using blocks_inside [of "?b a q" "a + 2 ^ e" e r] by auto
    then show ?thesis
      using "2.IH"(1) [OF True l'(1) True d(2)] l'(2) d(1) by (auto simp: merge_blocks)
  next
    case False
    then obtain q' where q: "q = 2 ^ k + q'" by (metis le_iff_add not_less)
    obtain r' where r': "tfree k q' r = Some r'" "t' = merge l r'"
      using "2.prems"(1) False q by auto
    have b: "?b a q = ?b (a + 2 ^ e) q'" using d(2) q by (simp add: right_pos)
    then have "?b a q \<notin> blocks a e l"
      using blocks_inside [of "?b a q" a e l] by auto
    moreover have "blocks (a + 2 ^ e) e r' = blocks (a + 2 ^ e) e r - {?b (a + 2 ^ e) q'}"
      using "2.IH"(2) [OF False, of r' e "a + 2 ^ e"] r'(1) "2.prems"(2) d(2) q by simp
    ultimately have "blocks a (Suc e) t' = blocks a (Suc e) (BSplit l r) - {?b a q}"
      unfolding r'(2) b merge_blocks by auto
    then show ?thesis using d(1) by simp
  qed
qed auto

lemma depth_ok_mono: "depth_ok d t \<Longrightarrow> d \<le> e \<Longrightarrow> depth_ok e t"
proof (induction d t arbitrary: e rule: depth_ok.induct)
  case (1 d l r)
  then show ?case by (cases e) auto
qed auto

text \<open>Every allocated block has a level and a position on it.\<close>

lemma blocks_position:
  assumes "(x, j) \<in> blocks a d t" "depth_ok e t" "e \<le> d"
  shows "\<exists>k q. k \<le> e \<and> q < 2 ^ k \<and> j = d - k \<and> x = a + q * 2 ^ (d - k)"
  using assms
proof (induction a d t arbitrary: e rule: blocks.induct)
  case (2 a d)
  then show ?case by (intro exI [of _ 0]) auto
next
  case (4 a d l r)
  then obtain e' where e: "e = Suc e'" "e' \<le> d" by (cases e) auto
  from "4.prems"(1) consider "(x, j) \<in> blocks a d l" | "(x, j) \<in> blocks (a + 2 ^ d) d r" by auto
  then show ?case
  proof cases
    case 1
    from "4.IH"(1) [OF 1, of e'] "4.prems"(2) e obtain k q where
      "k \<le> e'" "q < 2 ^ k" "j = d - k" "x = a + q * 2 ^ (d - k)" by auto
    then show ?thesis using e by (intro exI [of _ "Suc k"] exI [of _ q]) auto
  next
    case 2
    from "4.IH"(2) [OF 2, of e'] "4.prems"(2) e obtain k q where
      "k \<le> e'" "q < 2 ^ k" "j = d - k" "x = a + 2 ^ d + q * 2 ^ (d - k)" by auto
    then show ?thesis
      using e right_pos [of k d q] by (intro exI [of _ "Suc k"] exI [of _ "2 ^ k + q"]) auto
  qed
qed auto

lemma tfree_depth_ok: "tfree k q t = Some t' \<Longrightarrow> depth_ok d t \<Longrightarrow> depth_ok d t'"
proof (induction k q t arbitrary: t' d rule: tfree.induct)
  case (2 k q l r)
  then show ?case by (cases d) (auto split: if_splits intro!: merge_depth_ok)
qed auto

lemma tfree_coalesced: "tfree k q t = Some t' \<Longrightarrow> coalesced t \<Longrightarrow> coalesced t'"
  by (induction k q t arbitrary: t' rule: tfree.induct)
    (auto split: if_splits intro!: merge_coalesced)

text \<open>Releasing an allocation gives back the tree as it was, coalescing included.\<close>

lemma tfree_talloc:
  "talloc k t = Some (q, t') \<Longrightarrow> coalesced t \<Longrightarrow> tfree k q t' = Some t"
proof (induction k t arbitrary: q t' rule: talloc.induct)
  case (5 k)
  then obtain l where l: "talloc k BFree = Some (q, l)" "t' = BSplit l BFree" by auto
  with 5 have "tfree k q l = Some BFree" by simp
  with l talloc_pos [OF l(1)] show ?case by simp
next
  case (6 k l r)
  show ?case
  proof (cases "talloc k l")
    case (Some s)
    then obtain l' where l: "talloc k l = Some (q, l')" "t' = BSplit l' r" using 6 by (cases s) auto
    with 6 have "tfree k q l' = Some l" by simp
    with l talloc_pos [OF l(1)] 6(4) show ?thesis by (auto simp: merge_cases)
  next
    case None
    then obtain q' r' where r: "talloc k r = Some (q', r')" "q = 2 ^ k + q'" "t' = BSplit l r'"
      using 6 by (auto split: option.splits)
    with 6 None have "tfree k q' r' = Some r" by simp
    with r 6(4) show ?thesis by (auto simp: merge_cases)
  qed
qed auto

end
