(* ===== verification/Buddy_Alloc.thy ===== *)
theory Buddy_Alloc
  imports Buddy Buddy_Tree
begin

text \<open>
  The allocation search of \<open>Memory_buddy_alloc\<close> refines \<open>talloc\<close> on trees. The array of block
  states represents a tree (\<open>repr\<close>); one iteration of the loop is described by three lemmas (hit,
  skip, descend), and the whole search by one induction on the levels still to go, which also
  shows that the loop ends and that the explicit stack never overflows.
\<close>

section \<open>The array of block states as a tree\<close>

fun allfree :: "BlockState list \<Rightarrow> nat \<Rightarrow> nat \<Rightarrow> bool" where
  "allfree meta i 0 = (i < length meta \<and> meta ! i = Free)"
| "allfree meta i (Suc d) =
     (i < length meta \<and> meta ! i = Free \<and> allfree meta (2 * i + 1) d \<and> allfree meta (2 * i + 2) d)"

fun below_free :: "BlockState list \<Rightarrow> nat \<Rightarrow> nat \<Rightarrow> bool" where
  "below_free meta i 0 = True"
| "below_free meta i (Suc d) = (allfree meta (2 * i + 1) d \<and> allfree meta (2 * i + 2) d)"

lemma allfree_iff: "allfree meta i d \<longleftrightarrow> i < length meta \<and> meta ! i = Free \<and> below_free meta i d"
  by (cases d) auto

text \<open>
  \<open>repr meta i d t\<close>: the subtree of \<open>d\<close> levels under node \<open>i\<close> represents \<open>t\<close>, and every node
  under a free or an allocated one is free.
\<close>

fun repr :: "BlockState list \<Rightarrow> nat \<Rightarrow> nat \<Rightarrow> btree \<Rightarrow> bool" where
  "repr meta i d BFree = allfree meta i d"
| "repr meta i d BAlloc = (i < length meta \<and> meta ! i = Allocated \<and> below_free meta i d)"
| "repr meta i 0 (BSplit l r) = False"
| "repr meta i (Suc d) (BSplit l r) =
     (i < length meta \<and> meta ! i = Split \<and> repr meta (2 * i + 1) d l \<and> repr meta (2 * i + 2) d r)"

fun nodes :: "nat \<Rightarrow> nat \<Rightarrow> nat set" where
  "nodes i 0 = {i}"
| "nodes i (Suc d) = insert i (nodes (2 * i + 1) d \<union> nodes (2 * i + 2) d)"

lemma root_in_nodes [simp]: "i \<in> nodes i d"
  by (cases d) auto

text \<open>A node belongs to the subtree of each of its ancestors.\<close>

lemma nodesD: "j \<in> nodes i d \<Longrightarrow> \<exists>k\<le>d. Suc j div 2 ^ k = Suc i"
proof (induction d arbitrary: i)
  case 0
  then show ?case by simp
next
  case (Suc d)
  have up: "\<exists>k\<le>Suc d. Suc j div 2 ^ k = Suc i"
    if "k \<le> d" "Suc j div 2 ^ k = c" "c div 2 = Suc i" for k c
    using that by (intro exI [of _ "Suc k"]) (simp add: div_mult2_eq mult.commute [of 2])
  from Suc.prems consider "j = i" | "j \<in> nodes (2 * i + 1) d" | "j \<in> nodes (2 * i + 2) d"
    by auto
  then show ?case
  proof cases
    case 1
    then show ?thesis by (intro exI [of _ 0]) simp
  next
    case 2
    from Suc.IH [OF this] show ?thesis by (auto intro: up)
  next
    case 3
    from Suc.IH [OF this] show ?thesis by (auto intro: up)
  qed
qed

lemma nodes_ge: "j \<in> nodes i d \<Longrightarrow> i \<le> j"
  using nodesD [of j i d] by (metis Suc_le_mono div_le_dividend)

lemma nodes_bound: "j \<in> nodes i d \<Longrightarrow> Suc j < (i + 2) * 2 ^ d"
proof -
  assume "j \<in> nodes i d"
  then obtain k where k: "k \<le> d" "Suc j div 2 ^ k = Suc i" using nodesD by blast
  then have "Suc j < (i + 2) * 2 ^ k"
    using div_less_iff_less_mult [of "2 ^ k" "Suc j" "i + 2"] by simp
  also have "\<dots> \<le> (i + 2) * 2 ^ d"
    using k(1) by (intro mult_le_mono2 power_increasing) auto
  finally show ?thesis .
qed

lemma ancestors_nested:
  fixes n a b :: nat
  assumes "n div 2 ^ k = a" "n div 2 ^ k' = b" "k \<le> k'"
  shows "b = a div 2 ^ (k' - k)"
proof -
  have "n div 2 ^ k' = n div 2 ^ k div 2 ^ (k' - k)"
    using assms(3) by (simp add: div_mult2_eq [symmetric] flip: power_add)
  with assms show ?thesis by simp
qed

lemma nodes_disjoint: "nodes (2 * i + 1) d \<inter> nodes (2 * i + 2) d' = {}"
proof -
  have False if "j \<in> nodes (2 * i + 1) d" "j \<in> nodes (2 * i + 2) d'" for j
  proof -
    from nodesD [OF that(1)] obtain k where k: "Suc j div 2 ^ k = 2 * i + 2" by auto
    from nodesD [OF that(2)] obtain k' where k': "Suc j div 2 ^ k' = 2 * i + 3"
      by (auto simp: numeral_3_eq_3)
    show False
    proof (cases "k \<le> k'")
      case True
      then have "2 * i + 3 \<le> 2 * i + 2"
        using ancestors_nested [OF k k'] by (metis div_le_dividend)
      then show False by simp
    next
      case False
      then obtain e where e: "k - k' = Suc e" by (metis Suc_diff_Suc not_le)
      have "2 * i + 2 = (2 * i + 3) div 2 ^ (k - k')"
        using False ancestors_nested [OF k' k] by simp
      also have "\<dots> = (2 * i + 3) div 2 div 2 ^ e" by (simp add: e div_mult2_eq)
      also have "\<dots> \<le> (2 * i + 3) div 2" by (rule div_le_dividend)
      finally show False by simp
    qed
  qed
  then show ?thesis by blast
qed

lemma notin_children [simp]: "i \<notin> nodes (Suc (2 * i)) d" "i \<notin> nodes (Suc (Suc (2 * i))) d"
  using nodes_ge [of i "2 * i + 1" d] nodes_ge [of i "2 * i + 2" d] by auto

text \<open>The representation depends on the nodes of the subtree only.\<close>

definition same_on :: "nat set \<Rightarrow> 'a list \<Rightarrow> 'a list \<Rightarrow> bool" where
  "same_on S xs ys \<longleftrightarrow> length xs = length ys \<and> (\<forall>j\<in>S. xs ! j = ys ! j)"

lemma same_on_subset: "same_on S xs ys \<Longrightarrow> T \<subseteq> S \<Longrightarrow> same_on T xs ys"
  by (auto simp: same_on_def)

lemma same_on_trans: "same_on S xs ys \<Longrightarrow> same_on S ys zs \<Longrightarrow> same_on S xs zs"
  by (simp add: same_on_def)

lemma same_on_refl [simp]: "same_on S xs xs"
  by (simp add: same_on_def)

lemma same_on_update: "i \<notin> S \<Longrightarrow> same_on S (xs[i := v]) xs"
  unfolding same_on_def by (metis length_list_update nth_list_update_neq)

lemma allfree_same: "same_on (nodes i d) xs ys \<Longrightarrow> allfree xs i d = allfree ys i d"
proof (induction d arbitrary: i)
  case (Suc d)
  have "same_on (nodes (2 * i + 1) d) xs ys" "same_on (nodes (2 * i + 2) d) xs ys"
    by (rule same_on_subset [OF Suc.prems], auto)+
  with Suc show ?case by (simp add: same_on_def)
qed (simp add: same_on_def)

lemma below_free_same:
  "same_on (nodes i d - {i}) xs ys \<Longrightarrow> below_free xs i d = below_free ys i d"
proof (cases d)
  case (Suc e)
  assume *: "same_on (nodes i d - {i}) xs ys"
  have "same_on (nodes (2 * i + 1) e) xs ys" "same_on (nodes (2 * i + 2) e) xs ys"
    by (rule same_on_subset [OF *], use Suc in \<open>auto dest: nodes_ge\<close>)+
  then show ?thesis using Suc by (simp add: allfree_same)
qed simp

lemma repr_same: "same_on (nodes i d) xs ys \<Longrightarrow> repr xs i d t = repr ys i d t"
proof (induction xs i d t rule: repr.induct)
  case (1 meta i d)
  then show ?case by (simp add: allfree_same)
next
  case (2 meta i d)
  then have "same_on (nodes i d - {i}) meta ys" by (rule same_on_subset) auto
  then have "below_free meta i d = below_free ys i d" by (rule below_free_same)
  with 2 show ?case by (simp add: same_on_def)
next
  case (4 meta i d l r)
  have "same_on (nodes (2 * i + 1) d) meta ys" "same_on (nodes (2 * i + 2) d) meta ys"
    by (rule same_on_subset [OF "4.prems"], auto)+
  with 4 show ?case by (simp add: same_on_def)
qed simp

lemma repr_depth_ok: "repr meta i d t \<Longrightarrow> depth_ok d t"
  by (induction meta i d t rule: repr.induct) auto

lemma repr_root:
  assumes "repr meta i d t"
  shows "i < length meta"
    and "meta ! i = Free \<longleftrightarrow> t = BFree"
    and "meta ! i = Allocated \<longleftrightarrow> t = BAlloc"
  using assms by (cases "(meta, i, d, t)" rule: repr.cases; auto simp: allfree_iff)+

text \<open>An array represents at most one tree.\<close>

lemma repr_unique: "repr meta i d t \<Longrightarrow> repr meta i d t' \<Longrightarrow> t = t'"
proof (induction meta i d t arbitrary: t' rule: repr.induct)
  case (1 meta i d)
  then show ?case using repr_root(2) [OF "1.prems"(2)] by (simp add: allfree_iff)
next
  case (2 meta i d)
  then show ?case using repr_root(3) [OF "2.prems"(2)] by simp
next
  case (4 meta i d l r)
  then show ?case by (cases t') (auto simp: allfree_iff)
qed simp

lemma allfree_replicate:
  "\<forall>j\<in>nodes i d. j < n \<Longrightarrow> allfree (replicate n Free) i d"
  by (induction d arbitrary: i) auto


section \<open>Geometry\<close>

text \<open>
  \<open>geom m D\<close>: the allocator manages \<open>2 ^ D\<close> pages of memory at its start address, with a
  metadata array for the \<open>2 ^ (D + 1) - 1\<close> nodes and a stack of \<open>D + 1\<close> entries.
\<close>

definition geom :: "Memory \<Rightarrow> nat \<Rightarrow> bool" where
  "geom m D \<longleftrightarrow>
     D \<le> 19 \<and> unat (buddy_high_order m) = D + 12 \<and>
     2 ^ (D + 1) - 1 \<le> length (buddy_meta m) \<and> length (buddy_meta m) < 2 ^ 31 \<and>
     length (buddy_stack m) = D + 1 \<and>
     unat (pa_addr (m_start m)) + 2 ^ (D + 12) \<le> 2 ^ 32"

lemma geom_updates [simp]:
  "length ms = length (buddy_meta m) \<Longrightarrow> geom (m\<lparr>buddy_meta := ms\<rparr>) D = geom m D"
  "length st = length (buddy_stack m) \<Longrightarrow> geom (m\<lparr>buddy_stack := st\<rparr>) D = geom m D"
  by (simp_all add: geom_def)

definition at_level :: "usize \<Rightarrow> nat \<Rightarrow> bool" where
  "at_level i l \<longleftrightarrow> 2 ^ l \<le> Suc (unat i) \<and> Suc (unat i) < 2 ^ Suc l"

lemma pow2_bound: "l \<le> 19 \<Longrightarrow> (2::nat) ^ l \<le> 524288"
  using power_increasing [of l 19 "2::nat"] by simp

lemma at_level_small: "at_level i l \<Longrightarrow> l \<le> 19 \<Longrightarrow> unat i < 1048576"
  using pow2_bound [of l] by (simp add: at_level_def)

lemma at_level_find_order [arith_ok]:
  assumes "at_level i l" "l \<le> 19"
  shows "find_order p i = Ret (of_nat l)"
proof -
  have "find_order p i = Ret (of_nat (ilog2_nat (Suc (unat i))))"
    using at_level_small [OF assms] by (intro find_order_eq) simp
  moreover have "ilog2_nat (Suc (unat i)) = l"
    using assms(1) by (intro ilog2_nat_unique) (auto simp: at_level_def)
  ultimately show ?thesis by simp
qed

lemma at_level_root [simp]: "at_level 0 0"
  by (simp add: at_level_def)

lemma child_unat:
  assumes "at_level i l" "l \<le> 19"
  shows "unat (2 * i + 1) = 2 * unat i + 1" "unat (2 * i + 2) = 2 * unat i + 2"
    "unat (2 * i) = 2 * unat i"
  using at_level_small [OF assms] by (simp_all add: unat_word_ariths)

lemma at_level_children:
  assumes "at_level i l" "l \<le> 19"
  shows "at_level (2 * i + 1) (Suc l)" "at_level (2 * i + 2) (Suc l)"
  using assms child_unat [OF assms] by (auto simp: at_level_def)

lemma level_eq_iff: "l \<le> 19 \<Longrightarrow> R \<le> 19 \<Longrightarrow> (of_nat R :: usize) = of_nat l \<longleftrightarrow> R = l"
  using unat_of_nat_ok [of l] unat_of_nat_ok [of R] by (auto dest: arg_cong [of _ _ unat])

lemma u_sub_level:
  assumes "unat h = H" "l \<le> H" "H < 32"
  shows "u_sub p h (of_nat l) = Ret (of_nat (H - l))"
proof -
  have l: "unat (of_nat l :: usize) = l" using assms by (intro unat_of_nat_ok) simp
  have le: "of_nat l \<le> h" using assms l by (simp add: word_le_nat_alt)
  moreover have "h - of_nat l = of_nat (H - l)"
  proof (rule word_unat_eq_iff [THEN iffD2])
    show "unat (h - of_nat l) = unat (of_nat (H - l) :: usize)"
      using unat_sub_ok [OF le] assms l unat_of_nat_ok [of "H - l"] by simp
  qed
  ultimately show ?thesis by (simp add: u_sub_ok)
qed

lemma u_pow_two: "l < 32 \<Longrightarrow> u_pow p 2 (of_nat l) = Ret (2 ^ l)"
proof -
  assume l: "l < 32"
  then have u: "unat (of_nat l :: usize) = l" by (intro unat_of_nat_ok) simp
  have "(2::nat) ^ l < 2 ^ 32" using l by (intro power_strict_increasing) auto
  with u show ?thesis using u_pow_ok [of 2 "of_nat l" p] by simp
qed

text \<open>The address of a node: its position on its level times the size of a block there.\<close>

lemma node_addr_eq:
  assumes "geom m D" "at_level i l" "l \<le> D"
  shows "node_addr p m i (of_nat l) =
     Ret (pa_addr (m_start m) + of_nat ((Suc (unat i) - 2 ^ l) * 2 ^ (D + 12 - l)))"
proof -
  have D: "D \<le> 19" "l \<le> 19" using assms by (auto simp: geom_def)
  have i: "unat (1 + i) = Suc (unat i)"
    using at_level_small [OF assms(2) D(2)] by (simp add: unat_word_ariths)
  have first: "unat ((2::usize) ^ l) = 2 ^ l" using D by (intro unat_pow2) simp
  have le: "(2::usize) ^ l \<le> 1 + i"
    using assms(2) i first by (simp add: word_le_nat_alt at_level_def)
  have pos: "unat (1 + i - 2 ^ l) = Suc (unat i) - 2 ^ l"
    using unat_sub_ok [OF le] i first by simp
  have ord: "u_sub p (buddy_high_order m) (of_nat l) = Ret (of_nat (D + 12 - l))"
    using assms(1,3) by (intro u_sub_level) (auto simp: geom_def)
  have size: "unat ((2::usize) ^ (D + 12 - l)) = 2 ^ (D + 12 - l)"
    using D by (intro unat_pow2) simp
  have "Suc (unat i) - 2 ^ l \<le> 2 ^ l" using assms(2) unfolding at_level_def power_Suc by linarith
  then have "(Suc (unat i) - 2 ^ l) * 2 ^ (D + 12 - l) \<le> 2 ^ l * 2 ^ (D + 12 - l)"
    by (rule mult_le_mono1)
  also have "\<dots> = 2 ^ (D + 12)" using assms(3) by (simp flip: power_add)
  also have "\<dots> \<le> (2::nat) ^ 31" using D by (intro power_increasing) auto
  finally have bound: "(Suc (unat i) - 2 ^ l) * 2 ^ (D + 12 - l) < 2 ^ 32" by simp
  have "u_mul p (1 + i - 2 ^ l) (2 ^ (D + 12 - l)) = Ret ((1 + i - 2 ^ l) * 2 ^ (D + 12 - l))"
    using bound pos size by (intro u_mul_ok) simp
  moreover have "(1 + i - 2 ^ l) * 2 ^ (D + 12 - l) =
      of_nat ((Suc (unat i) - 2 ^ l) * 2 ^ (D + 12 - l))"
  proof -
    have "of_nat (unat (1 + i - 2 ^ l)) = 1 + i - 2 ^ l" by simp
    then show ?thesis unfolding pos by simp
  qed
  moreover have "u_add p 1 i = Ret (1 + i)"
    using at_level_small [OF assms(2) D(2)] by (intro u_add_ok) simp
  ultimately show ?thesis
    using assms(1) D ord le
    by (simp add: node_addr_def geom_def u_pow_two u_sub_ok PhysAddr_as_usize_def)
qed


section \<open>One iteration of the search\<close>

text \<open>
  \<open>top m D sp i\<close>: the stack pointer is in range and the entry it names is node \<open>i\<close>.
\<close>

definition top :: "Memory \<Rightarrow> isize \<Rightarrow> usize \<Rightarrow> bool" where
  "top m sp i \<longleftrightarrow> 0 \<le> sp \<and> nat sp < length (buddy_stack m) \<and> buddy_stack m ! nat sp = i"

lemma unat_i_as_usize: "0 \<le> sp \<Longrightarrow> nat sp < 2 ^ 32 \<Longrightarrow> unat (i_as_usize sp) = nat sp"
proof -
  assume "0 \<le> sp" "nat sp < 2 ^ 32"
  then have "word_of_int sp = (of_nat (nat sp) :: usize)" by simp
  with unat_of_nat_ok [OF \<open>nat sp < 2 ^ 32\<close>] show ?thesis by (simp add: i_as_usize_def)
qed

lemma stack_top:
  assumes "geom m D" "top m sp i"
  shows "idx (buddy_stack m) (i_as_usize sp) = Ret i" "i_add p sp (- 1) = Ret (sp - 1)"
    "0 \<le> sp" "nat sp \<le> D" "D \<le> 19"
proof -
  show sp: "0 \<le> sp" "nat sp \<le> D" "D \<le> 19" using assms by (auto simp: geom_def top_def)
  then have "unat (i_as_usize sp) = nat sp" by (intro unat_i_as_usize) auto
  then show "idx (buddy_stack m) (i_as_usize sp) = Ret i"
    using assms(2) by (simp add: idx_ok top_def)
  show "i_add p sp (- 1) = Ret (sp - 1)"
    using sp i_add_ok [of sp "- 1" p] by simp
qed

lemma body_hit:
  assumes "geom m D" "top m sp i" "at_level i R" "R \<le> D"
    and "unat i < length (buddy_meta m)" "buddy_meta m ! unat i = Free"
  shows "alloc_body p n (of_nat R) (m, sp) =
     Ret (Inr (Ok (PhysAddr (pa_addr (m_start m)
         + of_nat ((Suc (unat i) - 2 ^ R) * 2 ^ (D + 12 - R))) (Some n)),
       m\<lparr>buddy_meta := (buddy_meta m)[unat i := Allocated]\<rparr>))"
  using stack_top [OF assms(1,2)] assms(4-) node_addr_eq [OF assms(1,3,4), of p]
    at_level_find_order [OF assms(3), of p]
  by (simp add: idx_ok upd_ok PhysAddr_new_def)

lemma body_skip:
  assumes "geom m D" "top m sp i" "at_level i l" "l \<le> R" "R \<le> D"
    and "unat i < length (buddy_meta m)"
    and "if l = R then buddy_meta m ! unat i \<noteq> Free else buddy_meta m ! unat i = Allocated"
  shows "alloc_body p n (of_nat R) (m, sp) = Ret (Inl (m, sp - 1))"
  using stack_top [OF assms(1,2)] assms(4-) at_level_find_order [OF assms(3), of p]
  by (simp add: idx_ok level_eq_iff split: if_splits)

definition descend :: "Memory \<Rightarrow> isize \<Rightarrow> usize \<Rightarrow> Memory" where
  "descend m sp i =
     m\<lparr>buddy_meta := (buddy_meta m)[unat i := Split],
       buddy_stack := (buddy_stack m)[nat sp := 2 * i + 2, nat sp + 1 := 2 * i + 1]\<rparr>"

lemma push_children_eq:
  assumes "geom m D" "0 \<le> sp" "nat sp < D" "at_level i l" "l \<le> 19"
  shows "push_children p m (sp - 1) i =
     Ret (m\<lparr>buddy_stack := (buddy_stack m)[nat sp := 2 * i + 2, nat sp + 1 := 2 * i + 1]\<rparr>,
       sp + 1)"
proof -
  have D: "D \<le> 19" "length (buddy_stack m) = D + 1" using assms(1) by (auto simp: geom_def)
  have i: "unat i < 1048576" using assms(4,5) by (rule at_level_small)
  have sp: "i_add p (sp - 1) 1 = Ret sp" "i_add p sp 1 = Ret (sp + 1)"
    using assms(2,3) D i_add_ok [of "sp - 1" 1 p] i_add_ok [of sp 1 p] by auto
  have u: "unat (i_as_usize sp) = nat sp" "unat (i_as_usize (sp + 1)) = nat sp + 1"
    using assms(2,3) D unat_i_as_usize [of sp] unat_i_as_usize [of "sp + 1"]
    by (auto simp: nat_add_distrib)
  have c: "u_mul p 2 i = Ret (2 * i)" "u_add p (2 * i) 2 = Ret (2 * i + 2)"
      "u_add p (2 * i) 1 = Ret (2 * i + 1)"
    using i child_unat [OF assms(4,5)] by (auto intro!: u_mul_ok u_add_ok)
  show ?thesis
    using D assms(3) u by (simp add: push_children_def sp c upd_ok)
qed

lemma body_descend:
  assumes "geom m D" "top m sp i" "at_level i l" "l < R" "R \<le> D" "nat sp < D"
    and "unat i < length (buddy_meta m)"
    and "buddy_meta m ! unat i = Free \<or> buddy_meta m ! unat i = Split"
  shows "alloc_body p n (of_nat R) (m, sp) = Ret (Inl (descend m sp i, sp + 1))"
proof -
  have D: "0 \<le> sp" "D \<le> 19" using stack_top(3,5) [OF assms(1,2)] by auto
  have push: "push_children p m' (sp - 1) i =
     Ret (m'\<lparr>buddy_stack := (buddy_stack m')[nat sp := 2 * i + 2, nat sp + 1 := 2 * i + 1]\<rparr>,
       sp + 1)" if "geom m' D" for m'
    using that D assms by (intro push_children_eq [where D = D and l = l]) auto
  have same: "m\<lparr>buddy_meta := (buddy_meta m)[unat i := Split]\<rparr> = m" if "buddy_meta m ! unat i = Split"
    using that list_update_id [of "buddy_meta m" "unat i"] by simp
  from assms(8) show ?thesis
  proof
    assume "buddy_meta m ! unat i = Free"
    then show ?thesis
      using assms stack_top [OF assms(1,2)] at_level_find_order [OF assms(3), of p]
        push [of "m\<lparr>buddy_meta := (buddy_meta m)[unat i := Split]\<rparr>"]
      by (simp add: idx_ok upd_ok level_eq_iff descend_def)
  next
    assume s: "buddy_meta m ! unat i = Split"
    have "descend m sp i =
        m\<lparr>buddy_stack := (buddy_stack m)[nat sp := 2 * i + 2, nat sp + 1 := 2 * i + 1]\<rparr>"
      using same [OF s] unfolding descend_def by (metis Memory.surjective Memory.update_convs(8,9))
    then show ?thesis
      using assms s stack_top [OF assms(1,2)] at_level_find_order [OF assms(3), of p]
        push [OF assms(1)]
      by (simp add: idx_ok level_eq_iff)
  qed
qed


section \<open>The whole search\<close>

text \<open>
  What the search does with the node \<open>i\<close> on top of the stack: it either allocates under \<open>i\<close> as
  \<open>talloc\<close> does, or drops \<open>i\<close> and goes on with the rest of the stack, the block states unchanged.
\<close>

definition block_of :: "Memory \<Rightarrow> nat \<Rightarrow> nat \<Rightarrow> nat \<Rightarrow> usize" where
  "block_of m D R q = pa_addr (m_start m) + of_nat (q * 2 ^ (D + 12 - R))"

definition searched ::
    "profile \<Rightarrow> usize \<Rightarrow> nat \<Rightarrow> nat \<Rightarrow> Memory \<Rightarrow> isize \<Rightarrow> usize \<Rightarrow> nat \<Rightarrow> nat \<Rightarrow> btree \<Rightarrow> bool" where
  "searched p n D R m sp i d k t \<longleftrightarrow>
     (\<exists>stk. same_on {..<nat sp} stk (buddy_stack m) \<and>
       (case talloc k t of
          None \<Rightarrow>
            loop (alloc_body p n (of_nat R)) (m, sp) =
              loop (alloc_body p n (of_nat R)) (m\<lparr>buddy_stack := stk\<rparr>, sp - 1)
        | Some (q, t') \<Rightarrow>
            \<exists>meta. repr meta (unat i) d t' \<and> same_on (- nodes (unat i) d) meta (buddy_meta m) \<and>
              loop (alloc_body p n (of_nat R)) (m, sp) =
                Ret (Ok (PhysAddr (block_of m D R (Suc (unat i) * 2 ^ k + q - 2 ^ R)) (Some n)),
                  m\<lparr>buddy_stack := stk, buddy_meta := meta\<rparr>)))"

lemma searched_skip:
  assumes "alloc_body p n (of_nat R) (m, sp) = Ret (Inl (m, sp - 1))" "talloc k t = None"
  shows "searched p n D R m sp i d k t"
  unfolding searched_def
  using assms by (intro exI [of _ "buddy_stack m"]) (simp add: loop_continue)

lemma searched_hit:
  assumes "talloc k t = Some (q, t')" "same_on {..<nat sp} stk (buddy_stack m)"
    "repr ms (unat i) d t'" "same_on (- nodes (unat i) d) ms (buddy_meta m)"
    "loop (alloc_body p n (of_nat R)) (m, sp) =
       Ret (Ok (PhysAddr (block_of m D R (x - 2 ^ R)) (Some n)),
         m\<lparr>buddy_stack := stk, buddy_meta := ms\<rparr>)"
    "x = Suc (unat i) * 2 ^ k + q"
  shows "searched p n D R m sp i d k t"
  unfolding searched_def using assms by (auto simp del: repr.simps intro!: exI [of _ stk])

text \<open>After pushing the children the left one is on top, the right one under it.\<close>

lemma descend_simps [simp]:
  "buddy_meta (descend m sp i) = (buddy_meta m)[unat i := Split]"
  "m_start (descend m sp i) = m_start m"
  "geom (descend m sp i) D = geom m D"
  "block_of (descend m sp i) D R q = block_of m D R q"
  "block_of (m\<lparr>buddy_stack := st\<rparr>) D R q = block_of m D R q"
  by (simp_all add: descend_def geom_def block_of_def)

lemma descend_stack:
  assumes "geom m D" "0 \<le> sp" "nat sp < D"
  shows "top (descend m sp i) (sp + 1) (2 * i + 1)"
    and "buddy_stack (descend m sp i) ! nat sp = 2 * i + 2"
    and "same_on {..<nat sp} (buddy_stack (descend m sp i)) (buddy_stack m)"
  using assms by (auto simp: descend_def top_def geom_def same_on_def nat_add_distrib)

lemma descend_repr:
  assumes "at_level i l" "l \<le> 19"
  shows "repr (buddy_meta (descend m sp i)) (unat (2 * i + 1)) d t =
         repr (buddy_meta m) (2 * unat i + 1) d t"
    and "repr (buddy_meta (descend m sp i)) (unat (2 * i + 2)) d t =
         repr (buddy_meta m) (2 * unat i + 2) d t"
  unfolding descend_simps child_unat [OF assms]
  by (rule repr_same, rule same_on_update, simp)+

lemma repr_children:
  assumes "repr meta i (Suc d) t" "t = BFree \<and> l = BFree \<and> r = BFree \<or> t = BSplit l r"
  shows "repr meta (2 * i + 1) d l" "repr meta (2 * i + 2) d r"
  using assms by auto

text \<open>Joining the results for a child into the result for its parent.\<close>

lemma join_left:
  assumes "repr ms (2 * i + 1) d l'" "same_on (- nodes (2 * i + 1) d) ms (meta[i := Split])"
    "repr meta (2 * i + 2) d r" "i < length meta"
  shows "repr ms i (Suc d) (BSplit l' r)" "same_on (- nodes i (Suc d)) ms meta"
proof -
  have right: "same_on (nodes (2 * i + 2) d) ms (meta[i := Split])"
    using assms(2) nodes_disjoint [of i d d] by (auto intro: same_on_subset)
  have "same_on (nodes (2 * i + 2) d) (meta[i := Split]) meta"
    by (rule same_on_update) simp
  with right have "repr ms (2 * i + 2) d r"
    using assms(3) repr_same same_on_trans by blast
  moreover have "ms ! i = Split" "length ms = length meta"
    using assms(2,4) by (auto simp: same_on_def)
  ultimately show "repr ms i (Suc d) (BSplit l' r)" using assms(1,4) by simp
  show "same_on (- nodes i (Suc d)) ms meta"
    using assms(2) same_on_update [of i "- nodes i (Suc d)" meta Split]
    by (auto intro: same_on_trans same_on_subset)
qed

lemma join_right:
  assumes "repr ms (2 * i + 2) d r'" "same_on (- nodes (2 * i + 2) d) ms (meta[i := Split])"
    "repr meta (2 * i + 1) d l" "i < length meta"
  shows "repr ms i (Suc d) (BSplit l r')" "same_on (- nodes i (Suc d)) ms meta"
proof -
  have left: "same_on (nodes (2 * i + 1) d) ms (meta[i := Split])"
    using assms(2) nodes_disjoint [of i d d] by (auto intro: same_on_subset)
  have "same_on (nodes (2 * i + 1) d) (meta[i := Split]) meta"
    by (rule same_on_update) simp
  with left have "repr ms (2 * i + 1) d l"
    using assms(3) repr_same same_on_trans by blast
  moreover have "ms ! i = Split" "length ms = length meta"
    using assms(2,4) by (auto simp: same_on_def)
  ultimately show "repr ms i (Suc d) (BSplit l r')" using assms(1,4) by simp
  show "same_on (- nodes i (Suc d)) ms meta"
    using assms(2) same_on_update [of i "- nodes i (Suc d)" meta Split]
    by (auto intro: same_on_trans same_on_subset)
qed


lemma same_stack_descend:
  assumes "geom m D" "0 \<le> sp" "nat sp < D" "same_on {..<nat sp + c} stk (buddy_stack (descend m sp i))"
  shows "same_on {..<nat sp} stk (buddy_stack m)"
  using same_on_subset [OF assms(4)] descend_stack(3) [OF assms(1-3)]
  by (meson lessThan_subset_iff le_add1 same_on_trans)

lemma loop_step:
  "alloc_body p n R (m, sp) = Ret (Inl s) \<Longrightarrow>
     loop (alloc_body p n R) (m, sp) = loop (alloc_body p n R) s"
  by (rule loop_continue)

lemma searched_left:
  assumes step: "alloc_body p n (of_nat R) (m, sp) = Ret (Inl (descend m sp i, sp + 1))"
    and g: "geom m D" "0 \<le> sp" "nat sp < D" "at_level i lv" "lv \<le> 19"
    and left: "searched p n D R (descend m sp i) (sp + 1) (2 * i + 1) d k l"
    and t: "talloc k l = Some (q, l')" "talloc (Suc k) t = Some (q, BSplit l' r)"
    and rep: "repr (buddy_meta m) (2 * unat i + 2) d r" "unat i < length (buddy_meta m)"
  shows "searched p n D R m sp i (Suc d) (Suc k) t"
proof -
  note ch = child_unat [OF g(4,5)]
  from left t(1) obtain stk ms where
    stk: "same_on {..<nat (sp + 1)} stk (buddy_stack (descend m sp i))"
    and ms: "repr ms (2 * unat i + 1) d l'"
      "same_on (- nodes (2 * unat i + 1) d) ms ((buddy_meta m)[unat i := Split])"
    and lp: "loop (alloc_body p n (of_nat R)) (descend m sp i, sp + 1) =
      Ret (Ok (PhysAddr (block_of m D R (Suc (unat (2 * i + 1)) * 2 ^ k + q - 2 ^ R)) (Some n)),
        (descend m sp i)\<lparr>buddy_stack := stk, buddy_meta := ms\<rparr>)"
    by (auto simp: searched_def ch)
  have m: "(descend m sp i)\<lparr>buddy_stack := stk, buddy_meta := ms\<rparr> =
      m\<lparr>buddy_stack := stk, buddy_meta := ms\<rparr>"
    by (simp add: descend_def)
  have "loop (alloc_body p n (of_nat R)) (m, sp) =
      Ret (Ok (PhysAddr (block_of m D R (Suc (unat (2 * i + 1)) * 2 ^ k + q - 2 ^ R)) (Some n)),
        m\<lparr>buddy_stack := stk, buddy_meta := ms\<rparr>)"
    unfolding loop_step [OF step] lp m ..
  moreover have "Suc (unat (2 * i + 1)) * 2 ^ k + q = Suc (unat i) * 2 ^ Suc k + q"
    by (simp add: ch)
  moreover have "same_on {..<nat sp} stk (buddy_stack m)"
    using g stk by (intro same_stack_descend [where c = 1]) (simp_all add: nat_add_distrib)
  ultimately show ?thesis
    using t(2) join_left [OF ms rep] by (intro searched_hit)
qed

lemma searched_right:
  assumes step: "alloc_body p n (of_nat R) (m, sp) = Ret (Inl (descend m sp i, sp + 1))"
    and g: "geom m D" "0 \<le> sp" "nat sp < D" "at_level i lv" "lv \<le> 19"
    and left: "searched p n D R (descend m sp i) (sp + 1) (2 * i + 1) d k l"
    and right: "\<And>m'. geom m' D \<Longrightarrow> top m' sp (2 * i + 2) \<Longrightarrow>
      buddy_meta m' = buddy_meta (descend m sp i) \<Longrightarrow> searched p n D R m' sp (2 * i + 2) d k r"
    and t: "talloc k l = None" "t = BSplit l r"
    and rep: "repr (buddy_meta m) (2 * unat i + 1) d l" "unat i < length (buddy_meta m)"
      "buddy_meta m ! unat i = Split"
  shows "searched p n D R m sp i (Suc d) (Suc k) t"
proof -
  note ch = child_unat [OF g(4,5)]
  have meta: "(buddy_meta m)[unat i := Split] = buddy_meta m"
    using rep(3) list_update_id [of "buddy_meta m" "unat i"] by simp
  from left t(1) obtain stk where
    stk: "same_on {..<nat (sp + 1)} stk (buddy_stack (descend m sp i))"
    and lp: "loop (alloc_body p n (of_nat R)) (descend m sp i, sp + 1) =
      loop (alloc_body p n (of_nat R)) ((descend m sp i)\<lparr>buddy_stack := stk\<rparr>, sp)"
    by (auto simp: searched_def)
  let ?m = "(descend m sp i)\<lparr>buddy_stack := stk\<rparr>"
  have m: "?m\<lparr>buddy_stack := st, buddy_meta := ms\<rparr> = m\<lparr>buddy_stack := st, buddy_meta := ms\<rparr>"
      "?m\<lparr>buddy_stack := st\<rparr> = m\<lparr>buddy_stack := st\<rparr>" for st ms
    by (simp_all add: descend_def meta)
  have len: "length stk = D + 1" using stk g(1) by (simp add: same_on_def descend_def geom_def)
  have "stk ! nat sp = 2 * i + 2"
    using stk descend_stack(2) [OF g(1-3)] g(2) by (auto simp: same_on_def nat_add_distrib)
  then have "top ?m sp (2 * i + 2)" using g len by (simp add: top_def)
  moreover have "geom ?m D" using g(1) len by (simp add: geom_def descend_def)
  ultimately have s: "searched p n D R ?m sp (2 * i + 2) d k r" by (intro right) simp_all
  have sst: "same_on {..<nat sp} st (buddy_stack m)" if "same_on {..<nat sp} st stk" for st
    using g stk by (intro same_on_trans [OF that] same_stack_descend [where c = 1])
      (simp_all add: nat_add_distrib)
  show ?thesis
  proof (cases "talloc k r")
    case None
    with s obtain st where "same_on {..<nat sp} st stk"
        "loop (alloc_body p n (of_nat R)) (?m, sp) =
           loop (alloc_body p n (of_nat R)) (?m\<lparr>buddy_stack := st\<rparr>, sp - 1)"
      by (auto simp: searched_def)
    with None sst [of st] m(2) [of st] lp t show ?thesis
      unfolding searched_def loop_step [OF step] by auto
  next
    case (Some x)
    then obtain q r' where x: "talloc k r = Some (q, r')" by (cases x) auto
    with s obtain st ms where st: "same_on {..<nat sp} st stk"
      and ms: "repr ms (2 * unat i + 2) d r'"
        "same_on (- nodes (2 * unat i + 2) d) ms ((buddy_meta m)[unat i := Split])"
      and l2: "loop (alloc_body p n (of_nat R)) (?m, sp) =
        Ret (Ok (PhysAddr (block_of m D R (Suc (unat (2 * i + 2)) * 2 ^ k + q - 2 ^ R)) (Some n)),
          ?m\<lparr>buddy_stack := st, buddy_meta := ms\<rparr>)"
      by (auto simp: searched_def ch)
    have pos: "Suc (unat (2 * i + 2)) * 2 ^ k + q = Suc (unat i) * 2 ^ Suc k + (2 ^ k + q)"
      unfolding ch by (simp add: algebra_simps)
    have "loop (alloc_body p n (of_nat R)) (m, sp) =
        Ret (Ok (PhysAddr (block_of m D R (Suc (unat (2 * i + 2)) * 2 ^ k + q - 2 ^ R)) (Some n)),
          m\<lparr>buddy_stack := st, buddy_meta := ms\<rparr>)"
      unfolding loop_step [OF step] lp l2 m(1) ..
    moreover have "talloc (Suc k) t = Some (2 ^ k + q, BSplit l r')" using x t by simp
    ultimately show ?thesis
      using sst [OF st] join_right [OF ms rep(1,2)] pos by (intro searched_hit)
  qed
qed

lemma search_here:
  assumes m: "geom m D" "top m sp i" "at_level i R" "R \<le> D" "R + d = D" and r: "repr (buddy_meta m) (unat i) d t"
  shows "searched p n D R m sp i d 0 t"
proof (cases "t = BFree")
  case True
  note root = repr_root [OF r]
  have "below_free (buddy_meta m) (unat i) d" using True r by (simp add: allfree_iff)
  then have "repr ((buddy_meta m)[unat i := Allocated]) (unat i) d BAlloc"
    using root(1) below_free_same [OF same_on_update, of "unat i"] by simp
  moreover have "same_on (- nodes (unat i) d) ((buddy_meta m)[unat i := Allocated]) (buddy_meta m)"
    by (rule same_on_update) simp
  moreover have "loop (alloc_body p n (of_nat R)) (m, sp) =
     Ret (Ok (PhysAddr (block_of m D R (Suc (unat i) - 2 ^ R)) (Some n)),
       m\<lparr>buddy_meta := (buddy_meta m)[unat i := Allocated]\<rparr>)"
    using m True root unfolding block_of_def by (intro loop_exit body_hit) auto
  ultimately show ?thesis
    using True by (intro searched_hit [where stk = "buddy_stack m" and q = 0
          and ms = "(buddy_meta m)[unat i := Allocated]" and t' = BAlloc]) simp_all
next
  case False
  then have "alloc_body p n (of_nat R) (m, sp) = Ret (Inl (m, sp - 1))"
    using m repr_root [OF r] by (intro body_skip [where l = R]) auto
  moreover have "talloc 0 t = None" using False by (cases t) auto
  ultimately show ?thesis by (rule searched_skip)
qed

lemma search_ok:
  assumes "geom m D" "top m sp i" "at_level i l" "l + k = R" "R \<le> D" "l + d = D"
    and "repr (buddy_meta m) (unat i) d t" "nat sp + k \<le> D"
  shows "searched p n D R m sp i d k t"
  using assms
proof (induction k arbitrary: m sp i l d t)
  case 0
  then show ?case by (intro search_here) simp_all
next
  case (Suc k)
  note root = repr_root [OF Suc.prems(7)]
  obtain e where d: "d = Suc e" using Suc.prems by (cases d) auto
  have D: "D \<le> 19" "l \<le> 19" "0 \<le> sp" "nat sp < D"
    using Suc.prems by (auto simp: geom_def top_def)
  show ?case
  proof (cases "t = BAlloc")
    case True
    then have "alloc_body p n (of_nat R) (m, sp) = Ret (Inl (m, sp - 1))"
      using Suc.prems root by (intro body_skip [where l = l]) auto
    then show ?thesis using True by (intro searched_skip) auto
  next
    case False
    then have st: "buddy_meta m ! unat i = Free \<or> buddy_meta m ! unat i = Split"
      using root(3) by (cases "buddy_meta m ! unat i") auto
    obtain a b where ab: "t = BFree \<and> a = BFree \<and> b = BFree \<or> t = BSplit a b"
      using False by (cases t) auto
    note reps = repr_children [OF Suc.prems(7) [unfolded d] ab]
    have step: "alloc_body p n (of_nat R) (m, sp) = Ret (Inl (descend m sp i, sp + 1))"
      using Suc.prems D st root(1) by (intro body_descend) auto
    have left: "searched p n D R (descend m sp i) (sp + 1) (2 * i + 1) e k a"
      using Suc.prems D d reps(1) descend_stack(1) [OF Suc.prems(1)]
        at_level_children(1) [OF Suc.prems(3)] descend_repr(1) [OF Suc.prems(3)]
      by (intro Suc.IH [where l = "Suc l"]) (auto simp: nat_add_distrib)
    show ?thesis
    proof (cases "talloc k a")
      case (Some x)
      then obtain q a' where x: "talloc k a = Some (q, a')" by (cases x) auto
      then have "talloc (Suc k) t = Some (q, BSplit a' b)" using ab by auto
      with x show ?thesis
        using step Suc.prems(1,3) D left reps(2) root(1) unfolding d by (intro searched_left)
    next
      case None
      then have t: "t = BSplit a b" using ab talloc_BFree [of k] by auto
      have right: "searched p n D R m' sp (2 * i + 2) e k b"
        if "geom m' D" "top m' sp (2 * i + 2)" "buddy_meta m' = buddy_meta (descend m sp i)" for m'
        using Suc.prems D d reps(2) that at_level_children(2) [OF Suc.prems(3)]
          descend_repr(2) [OF Suc.prems(3)]
        by (intro Suc.IH [where l = "Suc l"]) auto
      have "buddy_meta m ! unat i = Split" using st root(2) t by auto
      then show ?thesis
        unfolding d using step Suc.prems(1) D(3,4) Suc.prems(3) D(2) left right None t reps(1) root(1)
        by (intro searched_right)
    qed
  qed
qed


section \<open>\<open>buddy_alloc\<close> refines \<open>talloc\<close>\<close>

text \<open>
  The invariant of the allocator over \<open>2 ^ D\<close> pages: its geometry, and an array that represents
  a tree without two free buddies.
\<close>

definition mem_inv :: "Memory \<Rightarrow> nat \<Rightarrow> btree \<Rightarrow> bool" where
  "mem_inv m D t \<longleftrightarrow>
     geom m D \<and> 2 ^ (D + 12) \<le> unat (mem_size m) \<and> repr (buddy_meta m) 0 D t \<and> coalesced t"

text \<open>The logarithm of the size a request of \<open>n\<close> bytes is rounded up to.\<close>

definition order_of :: "usize \<Rightarrow> nat" where
  "order_of n = max 12 (ceil_log2 (unat n))"

lemma order_of_ge: "unat n \<le> 2 ^ order_of n"
proof -
  have "unat n \<le> 2 ^ ceil_log2 (unat n)" by (rule ceil_log2_ge)
  also have "\<dots> \<le> 2 ^ order_of n" by (intro power_increasing) (auto simp: order_of_def)
  finally show ?thesis .
qed

lemma order_of_bounds:
  assumes "unat n \<le> 2 ^ H" "12 \<le> H"
  shows "12 \<le> order_of n" "order_of n \<le> H" "unat n \<le> 2 ^ order_of n"
  using assms ceil_log2_least order_of_ge by (auto simp: order_of_def)

lemma order_of_tight:
  assumes "n \<noteq> 0"
  shows "order_of n = 12 \<or> 2 ^ order_of n < 2 * unat n"
proof (cases "ceil_log2 (unat n) \<le> 12")
  case True
  then show ?thesis by (simp add: order_of_def)
next
  case False
  then obtain k where k: "ceil_log2 (unat n) = Suc k" by (cases "ceil_log2 (unat n)") auto
  have "\<not> unat n \<le> 2 ^ k" using ceil_log2_least [of "unat n" k] k by auto
  then show ?thesis using False k by (simp add: order_of_def)
qed

lemma round_up:
  assumes "n \<noteq> 0" "unat n \<le> 2 ^ 31"
  shows "next_power_of_two p (if n < PAGE_SIZE then PAGE_SIZE else n) =
    Ret (Some (2 ^ order_of n))"
proof (cases "n < PAGE_SIZE")
  case True
  then have "unat n \<le> 2 ^ 12" by (simp add: PAGE_SIZE_def word_less_nat_alt)
  then have "order_of n = 12" using ceil_log2_least [of "unat n" 12] by (simp add: order_of_def)
  moreover have "next_power_of_two p PAGE_SIZE = Ret (Some (2 ^ ceil_log2 (unat PAGE_SIZE)))"
    by (intro next_power_of_two_eq) (simp_all add: PAGE_SIZE_def)
  moreover have "ceil_log2 (unat PAGE_SIZE) = 12"
    using ceil_log2_power [of 12] by (simp add: PAGE_SIZE_def)
  ultimately show ?thesis using True by simp
next
  case False
  then have "2 ^ 12 \<le> unat n" by (simp add: PAGE_SIZE_def word_less_nat_alt)
  then have "12 \<le> ceil_log2 (unat n)"
    using ceil_log2_mono [of "2 ^ 12" "unat n"] ceil_log2_power [of 12] by simp
  then show ?thesis using False assms by (simp add: next_power_of_two_eq order_of_def)
qed

text \<open>What a call returns, in terms of the tree.\<close>

definition alloc_post ::
    "Memory \<Rightarrow> nat \<Rightarrow> btree \<Rightarrow> usize \<Rightarrow> ((PhysAddr, Error) Result \<times> Memory) outcome \<Rightarrow> bool" where
  "alloc_post m D t n res \<longleftrightarrow>
     (let k = D + 12 - order_of n in
      \<exists>stk. length stk = length (buddy_stack m) \<and>
        (case talloc k t of
           None \<Rightarrow> res = Ret (Err OutOfMemory, m\<lparr>buddy_stack := stk\<rparr>)
         | Some (q, t') \<Rightarrow>
             \<exists>meta. mem_inv (m\<lparr>buddy_stack := stk, buddy_meta := meta\<rparr>) D t' \<and>
               res = Ret (Ok (PhysAddr (block_of m D k q) (Some (2 ^ order_of n))),
                 m\<lparr>buddy_stack := stk, buddy_meta := meta\<rparr>)))"

lemma alloc_start:
  assumes "geom m D" "2 ^ (D + 12) \<le> unat (mem_size m)" "n \<noteq> 0" "unat n \<le> 2 ^ (D + 12)"
  shows "Memory_buddy_alloc p m n =
    loop (alloc_body p (2 ^ order_of n) (of_nat (D + 12 - order_of n)))
      (m\<lparr>buddy_stack := (buddy_stack m)[0 := 0]\<rparr>, 0)"
proof -
  have D: "D \<le> 19" "unat (buddy_high_order m) = D + 12" "length (buddy_stack m) = D + 1"
    using assms(1) by (auto simp: geom_def)
  have "(2::nat) ^ (D + 12) \<le> 2 ^ 31" using D(1) by (intro power_increasing) auto
  then have n31: "unat n \<le> 2 ^ 31" using assms(4) by linarith
  note o = order_of_bounds [OF assms(4)]
  have "find_order p (2 ^ order_of n) = Ret (of_nat (order_of n))"
    using o D(1) by (intro find_order_power unat_pow2) auto
  moreover have "u_sub p (buddy_high_order m) (of_nat (order_of n)) =
      Ret (of_nat (D + 12 - order_of n))"
    using o D by (intro u_sub_level) auto
  moreover have "\<not> mem_size m < n" using assms(2,4) by (simp add: word_less_nat_alt)
  moreover have "upd (buddy_stack m) (i_as_usize 0) 0 = Ret ((buddy_stack m)[0 := 0])"
    using D(3) upd_ok [of 0 "buddy_stack m" 0] by (simp add: i_as_usize_def)
  ultimately show ?thesis
    using assms(3) round_up [OF assms(3) n31, of p]
    unfolding Memory_buddy_alloc_def Let_def by simp
qed

lemma alloc_refines:
  assumes inv: "mem_inv m D t" and n: "n \<noteq> 0" "unat n \<le> 2 ^ (D + 12)"
  shows "alloc_post m D t n (Memory_buddy_alloc p m n)"
proof -
  let ?k = "D + 12 - order_of n" and ?m = "m\<lparr>buddy_stack := (buddy_stack m)[0 := 0]\<rparr>"
  let ?body = "alloc_body p (2 ^ order_of n) (of_nat ?k)"
  have g: "geom m D" and rep: "repr (buddy_meta m) 0 D t" and c: "coalesced t"
    and sz: "2 ^ (D + 12) \<le> unat (mem_size m)"
    using inv by (auto simp: mem_inv_def)
  have start: "Memory_buddy_alloc p m n = loop ?body (?m, 0)"
    using g sz n by (rule alloc_start)
  have o: "12 \<le> order_of n" "order_of n \<le> D + 12" using order_of_bounds [OF n(2)] by auto
  have "searched p (2 ^ order_of n) D ?k ?m 0 0 D ?k t"
    using g rep o by (intro search_ok [where l = 0]) (auto simp: top_def geom_def)
  note s = this [unfolded searched_def same_on_def]
  show ?thesis
  proof (cases "talloc ?k t")
    case None
    with s obtain stk where stk: "length stk = length (buddy_stack m)"
        "loop ?body (?m, 0) = loop ?body (?m\<lparr>buddy_stack := stk\<rparr>, - 1)"
      by auto
    have "loop ?body (?m\<lparr>buddy_stack := stk\<rparr>, - 1) = Ret (Err OutOfMemory, m\<lparr>buddy_stack := stk\<rparr>)"
      by (rule loop_exit) simp
    with None start stk show ?thesis unfolding alloc_post_def Let_def by auto
  next
    case (Some x)
    then obtain q t' where x: "talloc ?k t = Some (q, t')" by (cases x) auto
    with s obtain stk meta where st: "length stk = length (buddy_stack m)"
        "repr meta 0 D t'" "length meta = length (buddy_meta m)"
        "loop ?body (?m, 0) = Ret (Ok (PhysAddr (block_of m D ?k q) (Some (2 ^ order_of n))),
           m\<lparr>buddy_stack := stk, buddy_meta := meta\<rparr>)"
      by auto
    moreover have "coalesced t'" using x c by (rule talloc_coalesced)
    ultimately have "mem_inv (m\<lparr>buddy_stack := stk, buddy_meta := meta\<rparr>) D t'"
      using g sz by (simp add: mem_inv_def geom_def)
    then show ?thesis
      unfolding alloc_post_def Let_def using x st start
      by (auto intro!: exI [of _ stk] exI [of _ meta])
  qed
qed

end
