(* ===== verification/Buddy_Free.thy ===== *)
theory Buddy_Free
  imports Buddy_Alloc
begin

text \<open>
  \<open>Memory_buddy_free\<close> refines \<open>tfree\<close>: the bottom-up merge loop over the array computes the
  recursive merge of the tree, for every block but the root, whose release panics.
\<close>

section \<open>The buddy of a node\<close>

definition next_buddy :: "profile \<Rightarrow> usize \<Rightarrow> usize \<Rightarrow> usize outcome" where
  "next_buddy p i level = obind (index_at_level p i level) (\<lambda>x. buddy_index p x level)"

definition merge_loop :: "profile \<Rightarrow> Memory \<Rightarrow> usize \<Rightarrow> usize \<Rightarrow> Memory outcome" where
  "merge_loop p m i level =
     obind (next_buddy p i level) (\<lambda>b. loop (free_body p) (m, i, level, b))"

text \<open>What the loop does once the node \<open>i\<close> has been marked free.\<close>

definition go_on :: "profile \<Rightarrow> Memory \<Rightarrow> usize \<Rightarrow> nat \<Rightarrow> Memory outcome" where
  "go_on p m i l = (if i = 0 then Ret m else merge_loop p m i (of_nat l))"

lemma index_at_level_eq:
  assumes "at_level i l" "l \<le> 19"
  shows "index_at_level p i (of_nat l) = Ret (1 + i - 2 ^ l)"
    and "unat (1 + i - 2 ^ l) = Suc (unat i) - 2 ^ l"
proof -
  have i: "unat (1 + i) = Suc (unat i)"
    using at_level_small [OF assms] by (simp add: unat_word_ariths)
  have first: "unat ((2::usize) ^ l) = 2 ^ l" using assms(2) by (intro unat_pow2) simp
  have le: "(2::usize) ^ l \<le> 1 + i"
    using assms(1) i first by (simp add: word_le_nat_alt at_level_def)
  show "unat (1 + i - 2 ^ l) = Suc (unat i) - 2 ^ l"
    using unat_sub_ok [OF le] i first by simp
  have "u_add p 1 i = Ret (1 + i)"
    using at_level_small [OF assms] by (intro u_add_ok) simp
  then show "index_at_level p i (of_nat l) = Ret (1 + i - 2 ^ l)"
    using le assms(2) by (simp add: index_at_level_def u_pow_two u_sub_ok)
qed

lemma buddy_index_eq:
  assumes "unat (x XOR 1) < 2 ^ l" "l \<le> 19"
  shows "buddy_index p x (of_nat l) = Ret ((x XOR 1) + 2 ^ l - 1)"
proof -
  have first: "unat ((2::usize) ^ l) = 2 ^ l" using assms(2) by (intro unat_pow2) simp
  have b: "(2::nat) ^ l \<le> 524288" using assms(2) by (rule pow2_bound)
  have add: "u_add p (x XOR 1) (2 ^ l) = Ret ((x XOR 1) + 2 ^ l)"
    using assms(1) first b by (intro u_add_ok) simp
  have "unat ((x XOR 1) + 2 ^ l) = unat (x XOR 1) + 2 ^ l"
    using assms(1) first b by (subst unat_add_ok) simp_all
  then have "1 \<le> unat ((x XOR 1) + 2 ^ l)"
    using one_le_power [of "2::nat" l] by linarith
  then have "(1::usize) \<le> (x XOR 1) + 2 ^ l" by (simp add: word_le_nat_alt)
  then show ?thesis using assms(2) add by (simp add: buddy_index_def u_pow_two u_sub_ok)
qed

lemma next_buddy_children:
  assumes "at_level j l" "l \<le> 18"
  shows "next_buddy p (2 * j + 1) (of_nat (Suc l)) = Ret (2 * j + 2)"
    and "next_buddy p (2 * j + 2) (of_nat (Suc l)) = Ret (2 * j + 1)"
proof -
  have l: "Suc l \<le> 19" "l \<le> 19" using assms(2) by auto
  note ch = at_level_children [OF assms(1) l(2)]
  note c = child_unat [OF assms(1) l(2)]
  define y :: usize where "y = 1 + j - 2 ^ l"
  have y: "unat y = Suc (unat j) - 2 ^ l"
    unfolding y_def by (rule index_at_level_eq(2) [OF assms(1) l(2)])
  then have yb: "unat y < 2 ^ l" using assms(1) by (auto simp: at_level_def)
  have b: "(2::nat) ^ l \<le> 524288" using l(2) by (rule pow2_bound)
  have y2: "unat (2 * y) = 2 * unat y" "unat (2 * y + 1) = 2 * unat y + 1"
    using yb b by (simp_all add: unat_word_ariths)
  have x: "1 + (2 * j + 1) - 2 ^ Suc l = 2 * y" "1 + (2 * j + 2) - 2 ^ Suc l = 2 * y + 1"
    by (simp_all add: y_def algebra_simps)
  have xor: "2 * y XOR 1 = 2 * y + 1" "(2 * y + 1) XOR 1 = 2 * y"
    by (simp_all add: xor_one_eq)
  have r: "2 * y + 1 + 2 ^ Suc l - 1 = 2 * j + 2" "2 * y + 2 ^ Suc l - 1 = 2 * j + 1"
    by (simp_all add: y_def algebra_simps)
  have "unat (2 * y + 1) < 2 ^ Suc l" "unat (2 * y) < 2 ^ Suc l" using y2 yb by auto
  then show "next_buddy p (2 * j + 1) (of_nat (Suc l)) = Ret (2 * j + 2)"
      "next_buddy p (2 * j + 2) (of_nat (Suc l)) = Ret (2 * j + 1)"
    unfolding next_buddy_def index_at_level_eq(1) [OF ch(1) l(1)] index_at_level_eq(1) [OF ch(2) l(1)]
      x obind.simps
    using buddy_index_eq [of "2 * y" "Suc l" p] buddy_index_eq [of "2 * y + 1" "Suc l" p] l xor r
    by simp_all
qed


section \<open>One iteration of the merge\<close>

definition parent_of :: "usize \<Rightarrow> usize \<Rightarrow> usize \<Rightarrow> bool" where
  "parent_of j c b \<longleftrightarrow> c = 2 * j + 1 \<and> b = 2 * j + 2 \<or> c = 2 * j + 2 \<and> b = 2 * j + 1"

lemma parent_of_facts:
  assumes "parent_of j c b" "at_level j l" "l \<le> 18"
  shows "next_buddy p c (of_nat (Suc l)) = Ret b" "u_sub p c 1 = Ret (c - 1)"
    "u_div (c - 1) 2 = Ret j" "at_level c (Suc l)" "c \<noteq> 0"
proof -
  have l: "l \<le> 19" using assms(3) by simp
  note u = child_unat [OF assms(2) l]
  have c: "unat c = 2 * unat j + 1 \<or> unat c = 2 * unat j + 2"
    using assms(1) u by (auto simp: parent_of_def)
  show "next_buddy p c (of_nat (Suc l)) = Ret b"
    using assms(1) next_buddy_children [OF assms(2,3)] by (auto simp: parent_of_def)
  show "at_level c (Suc l)"
    using assms(1) at_level_children [OF assms(2) l] by (auto simp: parent_of_def)
  have one: "(1::usize) \<le> c" using c by (auto simp: word_le_nat_alt)
  then show "u_sub p c 1 = Ret (c - 1)" by (rule u_sub_ok)
  have "unat (c - 1) = unat c - 1" using unat_sub_ok [OF one] by simp
  then have "unat ((c - 1) div 2) = unat j" using c by (auto simp: unat_div)
  then have "(c - 1) div 2 = j" by (simp add: word_unat_eq_iff)
  then show "u_div (c - 1) 2 = Ret j" by (simp add: u_div_ok)
  show "c \<noteq> 0" using c by auto
qed

lemma merge_stop:
  assumes "parent_of j c b" "at_level j l" "l \<le> 18"
    and "unat b < length (buddy_meta m)" "buddy_meta m ! unat b \<noteq> Free"
  shows "merge_loop p m c (of_nat (Suc l)) = Ret m"
proof -
  have "loop (free_body p) (m, c, of_nat (Suc l), b) = Ret m"
    using assms(4,5) by (intro loop_exit) (simp add: idx_ok)
  then show ?thesis
    using parent_of_facts(1) [OF assms(1-3), of p] by (simp add: merge_loop_def)
qed

lemma merge_step:
  assumes "parent_of j c b" "at_level j l" "l \<le> 18"
    and "unat b < length (buddy_meta m)" "buddy_meta m ! unat b = Free"
    and "unat j < length (buddy_meta m)" "buddy_meta m ! unat j = Split"
  shows "merge_loop p m c (of_nat (Suc l)) =
    go_on p (m\<lparr>buddy_meta := (buddy_meta m)[unat j := Free]\<rparr>) j l"
proof -
  note f = parent_of_facts [OF assms(1-3)]
  let ?m = "m\<lparr>buddy_meta := (buddy_meta m)[unat j := Free]\<rparr>"
  have lev: "u_sub p (of_nat (Suc l)) 1 = Ret (of_nat l)"
    using assms(3) u_sub_level [of "of_nat (Suc l)" "Suc l" 1 p] unat_of_nat_ok [of "Suc l"] by simp
  have start: "merge_loop p m c (of_nat (Suc l)) = loop (free_body p) (m, c, of_nat (Suc l), b)"
    using f(1) [of p] by (simp add: merge_loop_def)
  show ?thesis
  proof (cases "j = 0")
    case True
    have "free_body p (m, c, of_nat (Suc l), b) = Ret (Inr ?m)"
      using f assms True by (simp add: idx_ok upd_ok del: of_nat_Suc)
    then show ?thesis using start True by (simp add: go_on_def loop_exit)
  next
    case False
    obtain y where y: "index_at_level p j (of_nat l) = Ret y"
      using index_at_level_eq(1) [OF assms(2)] assms(3) by simp
    have "free_body p (m, c, of_nat (Suc l), b) =
        obind (buddy_index p y (of_nat l)) (\<lambda>b'. Ret (Inl (?m, j, of_nat l, b')))"
      using f assms False y lev by (simp add: idx_ok upd_ok del: of_nat_Suc)
    moreover have "next_buddy p j (of_nat l) = buddy_index p y (of_nat l)"
      using y by (simp add: next_buddy_def)
    ultimately have "loop (free_body p) (m, c, of_nat (Suc l), b) = merge_loop p ?m j (of_nat l)"
      unfolding merge_loop_def
      by (subst loop_unfold) (simp split: outcome.splits, cases "buddy_index p y (of_nat l)"; simp)
    then show ?thesis using start False by (simp add: go_on_def)
  qed
qed


section \<open>The whole merge\<close>

text \<open>The node of the block at position \<open>q\<close>, \<open>k\<close> levels under node \<open>j\<close>.\<close>

definition node_at :: "nat \<Rightarrow> nat \<Rightarrow> nat \<Rightarrow> nat" where
  "node_at j k q = Suc j * 2 ^ k + q - 1"

lemma node_at_0 [simp]: "node_at j 0 0 = j"
  by (simp add: node_at_def)

lemma node_at_left: "node_at (Suc (2 * j)) k q = node_at j (Suc k) q"
  by (simp add: node_at_def algebra_simps)

lemma node_at_right: "node_at (Suc (Suc (2 * j))) k q = node_at j (Suc k) (2 ^ k + q)"
  by (simp add: node_at_def algebra_simps)

lemma node_at_below: "j < node_at j (Suc k) q"
proof -
  have "Suc j * 2 \<le> Suc j * 2 ^ Suc k" by (intro mult_le_mono2) simp
  moreover have "j < z + q - 1" if "Suc j * 2 \<le> z" for z using that by simp
  ultimately show ?thesis unfolding node_at_def by blast
qed

lemma node_at_in_nodes: "q < 2 ^ k \<Longrightarrow> k \<le> d \<Longrightarrow> node_at j k q \<in> nodes j d"
proof (induction k arbitrary: j q d)
  case (Suc k)
  then obtain e where d: "d = Suc e" "k \<le> e" by (cases d) auto
  show ?case
  proof (cases "q < 2 ^ k")
    case True
    with Suc.IH [of q e "2 * j + 1"] d show ?thesis by (simp add: node_at_left)
  next
    case False
    then obtain q' where q: "q = 2 ^ k + q'" by (metis le_iff_add not_less)
    then have "q' < 2 ^ k" using Suc.prems by simp
    with Suc.IH [of q' e "2 * j + 2"] d q show ?thesis by (simp add: node_at_right)
  qed
qed simp

lemma allfree_nodes: "allfree meta j d \<Longrightarrow> x \<in> nodes j d \<Longrightarrow> x < length meta \<and> meta ! x = Free"
  by (induction d arbitrary: j) auto

text \<open>A block can be released exactly when its node is marked allocated.\<close>

lemma tfree_node:
  "repr meta j d t \<Longrightarrow> k \<le> d \<Longrightarrow> q < 2 ^ k \<Longrightarrow>
     node_at j k q < length meta \<and> (meta ! node_at j k q = Allocated \<longleftrightarrow> (\<exists>t'. tfree k q t = Some t'))"
proof (induction k arbitrary: j q d t)
  case 0
  then show ?case using repr_root [OF "0.prems"(1)] by (cases t) auto
next
  case (Suc k)
  then obtain e where d: "d = Suc e" "k \<le> e" by (cases d) auto
  have x: "node_at j (Suc k) q \<in> nodes j d" using Suc.prems by (intro node_at_in_nodes) auto
  show ?case
  proof (cases t)
    case BFree
    then show ?thesis using allfree_nodes [OF _ x, of meta] Suc.prems by auto
  next
    case BAlloc
    have "node_at j (Suc k) q \<in> nodes (2 * j + 1) e \<union> nodes (2 * j + 2) e"
      using x d node_at_below [of j k q] by auto
    then show ?thesis using BAlloc Suc.prems d by (auto dest: allfree_nodes)
  next
    case (BSplit a b)
    show ?thesis
    proof (cases "q < 2 ^ k")
      case True
      with Suc.IH [of "2 * j + 1" e a q] Suc.prems d BSplit show ?thesis
        by (auto simp: node_at_left)
    next
      case False
      then obtain q' where q: "q = 2 ^ k + q'" by (metis le_iff_add not_less)
      then have "q' < 2 ^ k" using Suc.prems by simp
      with Suc.IH [of "2 * j + 2" e b q'] Suc.prems d BSplit q show ?thesis
        by (auto simp: node_at_right)
    qed
  qed
qed

text \<open>
  \<open>merged\<close>: with the block marked free, the merge rebuilds the released tree under \<open>j\<close>, and goes
  on above \<open>j\<close> exactly when that tree is one free block.
\<close>

definition merged ::
    "profile \<Rightarrow> Memory \<Rightarrow> usize \<Rightarrow> nat \<Rightarrow> nat \<Rightarrow> nat \<Rightarrow> usize \<Rightarrow> btree \<Rightarrow> bool" where
  "merged p m j l d k x t' \<longleftrightarrow>
     (\<exists>ms. same_on (- nodes (unat j) d) ms (buddy_meta m) \<and> repr ms (unat j) d t' \<and>
       merge_loop p (m\<lparr>buddy_meta := (buddy_meta m)[unat x := Free]\<rparr>) x (of_nat (l + k)) =
         (if t' = BFree then go_on p (m\<lparr>buddy_meta := ms\<rparr>) j l
          else Ret (m\<lparr>buddy_meta := ms\<rparr>)))"

lemma merged_parent:
  assumes child: "merged p m c (Suc l) e k x a'"
    and g: "parent_of j c b" "at_level j l" "l \<le> 18" "unat j < length (buddy_meta m)"
      "buddy_meta m ! unat j = Split"
    and sib: "\<And>ms. same_on (- nodes (unat c) e) ms (buddy_meta m) \<Longrightarrow> repr ms (unat b) e s"
    and join: "\<And>ms. same_on (- nodes (unat c) e) ms (buddy_meta m) \<Longrightarrow> repr ms (unat c) e a' \<Longrightarrow>
       same_on (- nodes (unat j) (Suc e)) ms (buddy_meta m) \<and>
       repr ms (unat j) (Suc e) (if c = 2 * j + 1 then BSplit a' s else BSplit s a')"
  shows "merged p m j l (Suc e) (Suc k) x (if c = 2 * j + 1 then merge a' s else merge s a')"
proof -
  have c0: "c \<noteq> 0" using g(1-3) by (rule parent_of_facts(5))
  from child obtain ms where ms: "same_on (- nodes (unat c) e) ms (buddy_meta m)"
      "repr ms (unat c) e a'"
    and lp: "merge_loop p (m\<lparr>buddy_meta := (buddy_meta m)[unat x := Free]\<rparr>) x (of_nat (l + Suc k)) =
      (if a' = BFree then merge_loop p (m\<lparr>buddy_meta := ms\<rparr>) c (of_nat (Suc l))
       else Ret (m\<lparr>buddy_meta := ms\<rparr>))"
    using c0 unfolding merged_def go_on_def by auto
  note j = join [OF ms] and sb = repr_root [OF sib [OF ms(1)]]
  have len: "length ms = length (buddy_meta m)" using ms(1) by (simp add: same_on_def)
  consider "a' \<noteq> BFree" | "a' = BFree" "s \<noteq> BFree" | "a' = BFree" "s = BFree" by blast
  then show ?thesis
  proof cases
    case 1
    with j lp show ?thesis unfolding merged_def by (auto simp: merge_cases)
  next
    case 2
    then have "merge_loop p (m\<lparr>buddy_meta := ms\<rparr>) c (of_nat (Suc l)) = Ret (m\<lparr>buddy_meta := ms\<rparr>)"
      using g sb by (intro merge_stop) auto
    with 2 j lp show ?thesis unfolding merged_def by (auto simp: merge_cases)
  next
    case 3
    have jms: "ms ! unat j = Split" "below_free ms (unat j) (Suc e)"
      using j 3 by (auto split: if_splits)
    have "merge_loop p (m\<lparr>buddy_meta := ms\<rparr>) c (of_nat (Suc l)) =
        go_on p (m\<lparr>buddy_meta := ms[unat j := Free]\<rparr>) j l"
      using g 3 sb jms(1) len merge_step [OF g(1-3), of "m\<lparr>buddy_meta := ms\<rparr>" p] by simp
    moreover have "same_on (- nodes (unat j) (Suc e)) (ms[unat j := Free]) (buddy_meta m)"
      using j same_on_update [of "unat j" "- nodes (unat j) (Suc e)" ms Free]
      by (auto intro: same_on_trans)
    moreover have "repr (ms[unat j := Free]) (unat j) (Suc e) BFree"
      using jms(2) g(4) len below_free_same [OF same_on_update, of "unat j" "unat j" "Suc e" ms Free]
      by (simp add: allfree_iff del: below_free.simps)
    ultimately show ?thesis using 3 lp unfolding merged_def
      by (intro exI [of _ "ms[unat j := Free]"]) auto
  qed
qed


lemma merged_left:
  assumes IH: "merged p m (2 * j + 1) (Suc l) e k x a'"
    and g: "at_level j l" "l \<le> 18" "repr (buddy_meta m) (unat j) (Suc e) (BSplit a b)"
  shows "merged p m j l (Suc e) (Suc k) x (merge a' b)"
proof -
  note ch = child_unat [OF g(1)]
  have "parent_of j (2 * j + 1) (2 * j + 2)" by (simp add: parent_of_def)
  moreover have l: "l \<le> 19" using g(2) by simp
  moreover have meta: "(buddy_meta m)[unat j := Split] = buddy_meta m"
    using g(3) list_update_id [of "buddy_meta m" "unat j"] by simp
  moreover have "repr ms (2 * unat j + 2) e b"
    if "same_on (- nodes (2 * unat j + 1) e) ms (buddy_meta m)" for ms
  proof -
    have "same_on (nodes (2 * unat j + 2) e) ms (buddy_meta m)"
      using that nodes_disjoint [of "unat j" e e] by (auto intro: same_on_subset)
    with g(3) show ?thesis by (simp add: repr_same)
  qed
  moreover note join_left [of _ "unat j" e a' "buddy_meta m" b]
  ultimately have "merged p m j l (Suc e) (Suc k) x
      (if 2 * j + 1 = 2 * j + 1 then merge a' b else merge b a')"
    using IH g ch [OF l] by (intro merged_parent [where c = "2 * j + 1"]) auto
  then show ?thesis by simp
qed

lemma merged_right:
  assumes IH: "merged p m (2 * j + 2) (Suc l) e k x b'"
    and g: "at_level j l" "l \<le> 18" "repr (buddy_meta m) (unat j) (Suc e) (BSplit a b)"
  shows "merged p m j l (Suc e) (Suc k) x (merge a b')"
proof -
  note ch = child_unat [OF g(1)]
  have "parent_of j (2 * j + 2) (2 * j + 1)" by (simp add: parent_of_def)
  moreover have l: "l \<le> 19" using g(2) by simp
  moreover have meta: "(buddy_meta m)[unat j := Split] = buddy_meta m"
    using g(3) list_update_id [of "buddy_meta m" "unat j"] by simp
  moreover have "repr ms (2 * unat j + 1) e a"
    if "same_on (- nodes (2 * unat j + 2) e) ms (buddy_meta m)" for ms
  proof -
    have "same_on (nodes (2 * unat j + 1) e) ms (buddy_meta m)"
      using that nodes_disjoint [of "unat j" e e] by (auto intro: same_on_subset)
    with g(3) show ?thesis by (simp add: repr_same)
  qed
  moreover note join_right [of _ "unat j" e b' "buddy_meta m" a]
  ultimately have "merged p m j l (Suc e) (Suc k) x
      (if 2 * j + 2 = 2 * j + 1 then merge b' a else merge a b')"
    using IH g ch [OF l] by (intro merged_parent [where c = "2 * j + 2"]) auto
  then show ?thesis by simp
qed

lemma merge_ok:
  assumes "geom m D" "at_level j l" "l + d = D" "k \<le> d" "q < 2 ^ k"
    and "repr (buddy_meta m) (unat j) d t" "tfree k q t = Some t'"
    and "unat x = node_at (unat j) k q" "k = 0 \<Longrightarrow> j \<noteq> 0"
  shows "merged p m j l d k x t'"
  using assms
proof (induction k arbitrary: j l d t q t')
  case 0
  then have t: "t = BAlloc" "t' = BFree" "x = j"
    by (cases t; simp add: word_unat_eq_iff)+
  have "repr ((buddy_meta m)[unat j := Free]) (unat j) d BFree"
    using 0 t below_free_same [OF same_on_update, of "unat j" "unat j" d "buddy_meta m" Free]
    by (simp add: allfree_iff)
  moreover have "same_on (- nodes (unat j) d) ((buddy_meta m)[unat j := Free]) (buddy_meta m)"
    by (rule same_on_update) simp
  ultimately show ?case
    using t 0 unfolding merged_def go_on_def by auto
next
  case (Suc k)
  obtain e where d: "d = Suc e" "k \<le> e" using Suc.prems(4) by (cases d) auto
  have l: "l \<le> 18" "l \<le> 19" using Suc.prems(1,3) d by (auto simp: geom_def)
  note ch = child_unat [OF Suc.prems(2) l(2)] at_level_children [OF Suc.prems(2) l(2)]
  obtain a b where t: "t = BSplit a b" using Suc.prems(7) by (cases t) auto
  show ?case
  proof (cases "q < 2 ^ k")
    case True
    then obtain a' where a': "tfree k q a = Some a'" "t' = merge a' b" using Suc.prems(7) t by auto
    have "merged p m (2 * j + 1) (Suc l) e k x a'"
      using Suc.prems d True a' t ch
      by (intro Suc.IH [where q = q and t = a]) (auto simp: node_at_left)
    then show ?thesis using Suc.prems(2,6) l t d a' by (auto intro: merged_left)
  next
    case False
    then obtain q' where q: "q = 2 ^ k + q'" by (metis le_iff_add not_less)
    then have q': "q' < 2 ^ k" using Suc.prems by simp
    obtain b' where b': "tfree k q' b = Some b'" "t' = merge a b'"
      using Suc.prems(7) t False q by auto
    have "merged p m (2 * j + 2) (Suc l) e k x b'"
      using Suc.prems d q q' b' t ch
      by (intro Suc.IH [where q = q' and t = b]) (auto simp: node_at_right)
    then show ?thesis using Suc.prems(2,6) l t d b' by (auto intro: merged_right)
  qed
qed


section \<open>\<open>buddy_free\<close> refines \<open>tfree\<close>\<close>

text \<open>The address and size that an allocation at level \<open>k\<close>, position \<open>q\<close> was given.\<close>

definition block_addr :: "Memory \<Rightarrow> nat \<Rightarrow> nat \<Rightarrow> nat \<Rightarrow> PhysAddr" where
  "block_addr m D k q = PhysAddr (block_of m D k q) (Some (2 ^ (D + 12 - k)))"

lemma block_offset:
  assumes "geom m D" "k \<le> D" "q < 2 ^ k"
  shows "unat (block_of m D k q) = unat (pa_addr (m_start m)) + q * 2 ^ (D + 12 - k)"
    and "unat (pa_addr (m_start m)) + q * 2 ^ (D + 12 - k) + 2 ^ (D + 12 - k) \<le> 2 ^ 32"
    and "unat (of_nat (q * 2 ^ (D + 12 - k)) :: usize) = q * 2 ^ (D + 12 - k)"
proof -
  let ?o = "D + 12 - k"
  have "q * 2 ^ ?o + 2 ^ ?o \<le> 2 ^ (D + 12)"
    using left_pos [of k "D + 12" q] assms(2,3) by simp
  moreover have st: "unat (pa_addr (m_start m)) + 2 ^ (D + 12) \<le> 2 ^ 32"
    using assms(1) by (simp add: geom_def)
  ultimately show top: "unat (pa_addr (m_start m)) + q * 2 ^ ?o + 2 ^ ?o \<le> 2 ^ 32" by linarith
  have pos: "0 < (2::nat) ^ ?o" by simp
  show off: "unat (of_nat (q * 2 ^ ?o) :: usize) = q * 2 ^ ?o"
    using top pos by (intro unat_of_nat_ok) linarith
  show "unat (block_of m D k q) = unat (pa_addr (m_start m)) + q * 2 ^ ?o"
    unfolding block_of_def using top pos by (subst unat_add_ok; unfold off; linarith)
qed

lemma free_position:
  assumes "geom m D" "k \<le> D" "q < 2 ^ k"
  shows "u_sub p (block_of m D k q) (pa_addr (m_start m)) = Ret (of_nat (q * 2 ^ (D + 12 - k)))"
    and "u_sub p (buddy_high_order m) (u_trailing_zeros (2 ^ (D + 12 - k))) = Ret (of_nat k)"
    and "u_div (of_nat (q * 2 ^ (D + 12 - k))) (2 ^ (D + 12 - k)) = Ret (of_nat q)"
proof -
  let ?o = "D + 12 - k"
  note b = block_offset [OF assms]
  have D: "D \<le> 19" "unat (buddy_high_order m) = D + 12" using assms(1) by (auto simp: geom_def)
  have "pa_addr (m_start m) \<le> block_of m D k q" using b(1) by (simp add: word_le_nat_alt)
  then show "u_sub p (block_of m D k q) (pa_addr (m_start m)) = Ret (of_nat (q * 2 ^ ?o))"
    by (simp add: u_sub_ok block_of_def)
  have "u_sub p (buddy_high_order m) (of_nat ?o) = Ret (of_nat (D + 12 - ?o))"
    using D by (intro u_sub_level) auto
  then show "u_sub p (buddy_high_order m) (u_trailing_zeros (2 ^ ?o)) = Ret (of_nat k)"
    using D assms(2) by (simp add: u_trailing_zeros_power)
  have sz: "unat ((2::usize) ^ ?o) = 2 ^ ?o" using D by (intro unat_pow2) simp
  have "(2::usize) ^ ?o \<noteq> 0"
    using sz zero_less_power [of "2::nat" ?o] by (metis less_numeral_extra(3) unat_0 zero_less_numeral)
  moreover have "of_nat (q * 2 ^ ?o) div (2::usize) ^ ?o = of_nat q"
  proof (rule word_unat_eq_iff [THEN iffD2])
    have "q \<le> q * 2 ^ ?o" by simp
    then have "q < 2 ^ 32" using b(2) zero_less_power [of "2::nat" ?o] by linarith
    then show "unat (of_nat (q * 2 ^ ?o) div (2::usize) ^ ?o) = unat (of_nat q :: usize)"
      unfolding unat_div sz b(3) by (simp add: unat_of_nat_ok)
  qed
  ultimately show "u_div (of_nat (q * 2 ^ ?o)) (2 ^ ?o) = Ret (of_nat q)" by (simp add: u_div_ok)
qed

lemma free_node:
  assumes "k \<le> 19" "q < 2 ^ k"
  obtains x :: usize where
    "unat x = node_at 0 k q" "at_level x k" "u_shl p 1 (of_nat k) = Ret (2 ^ k)"
    "u_sub p (2 ^ k) 1 = Ret (2 ^ k - 1)" "u_add p (2 ^ k - 1) (of_nat q) = Ret x"
proof
  let ?x = "2 ^ k - 1 + of_nat q :: usize"
  have b: "(2::nat) ^ k \<le> 524288" using assms(1) by (rule pow2_bound)
  have k: "unat ((2::usize) ^ k) = 2 ^ k" using assms(1) by (intro unat_pow2) simp
  have q: "unat (of_nat q :: usize) = q" using assms(2) b by (intro unat_of_nat_ok) simp
  have one: "(1::usize) \<le> 2 ^ k" using k by (simp add: word_le_nat_alt)
  have m1: "unat ((2::usize) ^ k - 1) = 2 ^ k - 1" using unat_sub_ok [OF one] k by simp
  have x: "unat ?x = 2 ^ k - 1 + q"
    using m1 q b assms(2) by (subst unat_add_ok) simp_all
  then show nx: "unat ?x = node_at 0 k q" by (simp add: node_at_def)
  show "at_level ?x k" unfolding at_level_def x using assms(2) by auto
  have "unat (of_nat k :: usize) = k" using assms(1) by (intro unat_of_nat_ok) simp
  then show "u_shl p 1 (of_nat k) = Ret (2 ^ k)"
    using assms(1) u_shl_ok [of "of_nat k" p 1] by (simp add: push_bit_eq_mult)
  show "u_sub p (2 ^ k) 1 = Ret (2 ^ k - 1)" using one by (rule u_sub_ok)
  show "u_add p (2 ^ k - 1) (of_nat q) = Ret ?x"
    using m1 q b assms(2) by (intro u_add_ok) simp
qed

lemma free_start:
  assumes "geom m D" "k \<le> D" "q < 2 ^ k" "node_at 0 k q < length (buddy_meta m)"
  obtains x where "unat x = node_at 0 k q" "at_level x k"
    "Memory_buddy_free p m (block_addr m D k q) =
       (if buddy_meta m ! unat x = Allocated
        then merge_loop p (m\<lparr>buddy_meta := (buddy_meta m)[unat x := Free]\<rparr>) x (of_nat k)
        else Panic (Formatted ''buddy_free(): Memory at index {i} was not allocated, something is wrong.'' [x]))"
proof -
  have k: "k \<le> 19" using assms(1,2) by (simp add: geom_def)
  obtain x where x: "unat x = node_at 0 k q" "at_level x k" "u_shl p 1 (of_nat k) = Ret (2 ^ k)"
      "u_sub p (2 ^ k) 1 = Ret (2 ^ k - 1)" "u_add p (2 ^ k - 1) (of_nat q) = Ret x"
    using k assms(3) by (rule free_node)
  have "Memory_buddy_free p m (block_addr m D k q) =
       (if buddy_meta m ! unat x = Allocated
        then merge_loop p (m\<lparr>buddy_meta := (buddy_meta m)[unat x := Free]\<rparr>) x (of_nat k)
        else Panic (Formatted ''buddy_free(): Memory at index {i} was not allocated, something is wrong.'' [x]))"
    unfolding Memory_buddy_free_def block_addr_def PhysAddr_as_usize_def
    using free_position [OF assms(1-3)] x(3-5) index_at_level_eq(1) [OF x(2) k, of p]
      assms(4) x(1)
    by (simp add: idx_ok upd_ok merge_loop_def next_buddy_def)
  with x that show ?thesis by blast
qed

text \<open>Releasing an allocated block below the root.\<close>

lemma free_refines:
  assumes inv: "mem_inv m D t" and k: "k \<le> D" "0 < k" "q < 2 ^ k"
    and t': "tfree k q t = Some t'"
  shows "\<exists>ms. Memory_buddy_free p m (block_addr m D k q) = Ret (m\<lparr>buddy_meta := ms\<rparr>) \<and>
    mem_inv (m\<lparr>buddy_meta := ms\<rparr>) D t'"
proof -
  have g: "geom m D" and rep: "repr (buddy_meta m) 0 D t" and c: "coalesced t"
    and sz: "2 ^ (D + 12) \<le> unat (mem_size m)"
    using inv by (auto simp: mem_inv_def)
  note nd = tfree_node [OF rep k(1,3)]
  obtain x where x: "unat x = node_at 0 k q" "at_level x k"
    and eq: "Memory_buddy_free p m (block_addr m D k q) =
       (if buddy_meta m ! unat x = Allocated
        then merge_loop p (m\<lparr>buddy_meta := (buddy_meta m)[unat x := Free]\<rparr>) x (of_nat k)
        else Panic (Formatted ''buddy_free(): Memory at index {i} was not allocated, something is wrong.'' [x]))"
    using g k(1,3) nd by (rule free_start [OF _ _ _ conjunct1])
  have "merged p m 0 0 D k x t'"
    using g k rep t' x(1) by (intro merge_ok [where t = t and q = q]) auto
  then obtain ms where ms: "same_on (- nodes 0 D) ms (buddy_meta m)" "repr ms 0 D t'"
    and lp: "merge_loop p (m\<lparr>buddy_meta := (buddy_meta m)[unat x := Free]\<rparr>) x (of_nat k) =
      Ret (m\<lparr>buddy_meta := ms\<rparr>)"
    unfolding merged_def go_on_def by (auto split: if_splits)
  have "mem_inv (m\<lparr>buddy_meta := ms\<rparr>) D t'"
    using g sz ms tfree_coalesced [OF t' c] by (simp add: mem_inv_def geom_def same_on_def)
  moreover have "buddy_meta m ! unat x = Allocated" using nd t' x(1) by auto
  ultimately show ?thesis using eq lp by auto
qed

text \<open>Releasing anything but an allocated block panics.\<close>

lemma free_panics:
  assumes inv: "mem_inv m D t" and k: "k \<le> D" "q < 2 ^ k" and t': "tfree k q t = None"
  shows "\<exists>i. unat i = node_at 0 k q \<and> Memory_buddy_free p m (block_addr m D k q) =
    Panic (Formatted ''buddy_free(): Memory at index {i} was not allocated, something is wrong.'' [i])"
proof -
  have g: "geom m D" and rep: "repr (buddy_meta m) 0 D t" using inv by (auto simp: mem_inv_def)
  note nd = tfree_node [OF rep k]
  obtain x where x: "unat x = node_at 0 k q" and "Memory_buddy_free p m (block_addr m D k q) =
       (if buddy_meta m ! unat x = Allocated
        then merge_loop p (m\<lparr>buddy_meta := (buddy_meta m)[unat x := Free]\<rparr>) x (of_nat k)
        else Panic (Formatted ''buddy_free(): Memory at index {i} was not allocated, something is wrong.'' [x]))"
    using g k nd by (rule free_start [OF _ _ _ conjunct1])
  with nd t' have "Memory_buddy_free p m (block_addr m D k q) =
      Panic (Formatted ''buddy_free(): Memory at index {i} was not allocated, something is wrong.'' [x])" by simp
  with x show ?thesis by blast
qed


section \<open>Releasing the root\<close>

text \<open>
  A block that spans the whole memory has no buddy, but the code looks for one: it takes node 1
  for the buddy of the root and, finding it free, computes the parent of node 0.
\<close>

lemma free_root:
  assumes inv: "mem_inv m D BAlloc" and D: "0 < D"
  shows "Memory_buddy_free p m (block_addr m D 0 0) =
    Panic (if p = Dev then Overflow else OutOfBounds)"
proof -
  have g: "geom m D" and rep: "repr (buddy_meta m) 0 D BAlloc" using inv by (auto simp: mem_inv_def)
  have nd: "node_at 0 0 0 < length (buddy_meta m)" "buddy_meta m ! 0 = Allocated" using rep by auto
  have one: "1 < length (buddy_meta m)" "buddy_meta m ! 1 = Free"
    using rep D by (cases D; simp add: allfree_iff)+
  obtain x where x: "unat x = node_at 0 0 0" and eq: "Memory_buddy_free p m (block_addr m D 0 0) =
       (if buddy_meta m ! unat x = Allocated
        then merge_loop p (m\<lparr>buddy_meta := (buddy_meta m)[unat x := Free]\<rparr>) x (of_nat 0)
        else Panic (Formatted ''buddy_free(): Memory at index {i} was not allocated, something is wrong.'' [x]))"
    using free_start [OF g _ _ nd(1)] by auto
  have x0: "x = 0" using x by (simp add: word_unat_eq_iff)
  let ?m = "m\<lparr>buddy_meta := (buddy_meta m)[0 := Free]\<rparr>"
  have "next_buddy p 0 (of_nat 0) = Ret 1"
    using index_at_level_eq(1) [of 0 0 p]
    by (simp add: next_buddy_def buddy_index_def u_pow_def u_add_def u_sub_def)
  then have start: "Memory_buddy_free p m (block_addr m D 0 0) = loop (free_body p) (?m, 0, 0, 1)"
    using eq x0 nd by (simp add: merge_loop_def)
  have max: "(- 1 :: usize) div 2 = 2147483647" by simp
  have long: "length (buddy_meta m) \<le> 2147483647" using g by (simp add: geom_def)
  have "free_body p (?m, 0, 0, 1) = Panic (if p = Dev then Overflow else OutOfBounds)"
    using one long by (auto simp: idx_def u_sub_def u_div_def max)
  then show ?thesis using start by (simp add: loop_panic)
qed

end
