(* ===== verification/Alloc_Interface.thy ===== *)
theory Alloc_Interface
  imports Buddy Buddy_Tree
begin

text \<open>
  What a client of the page allocator relies on: a locale over \<open>alloc\<close> and \<open>free\<close>, with the set
  of live blocks (an address and the logarithm of a size) as the abstract state. Proved inside it,
  once for every provider: a release undoes an allocation, live blocks never overlap, and no
  sequence of requests and of releases of live blocks ever panics.
\<close>

locale block_allocator =
  fixes alloc :: "'m \<Rightarrow> usize \<Rightarrow> ((PhysAddr, Error) Result \<times> 'm) outcome"
    and free :: "'m \<Rightarrow> PhysAddr \<Rightarrow> 'm outcome"
    and invar :: "'m \<Rightarrow> bool"
    and live :: "'m \<Rightarrow> (nat \<times> nat) set"
    and cap :: "'m \<Rightarrow> nat"
  assumes live_apart:
      "invar m \<Longrightarrow> b \<in> live m \<Longrightarrow> c \<in> live m \<Longrightarrow> b \<noteq> c \<Longrightarrow> extent b \<inter> extent c = {}"
    and live_aligned: "invar m \<Longrightarrow> (x, k) \<in> live m \<Longrightarrow> 12 \<le> k \<and> 4096 dvd x"
    and live_bound: "invar m \<Longrightarrow> (x, k) \<in> live m \<Longrightarrow> x + 2 ^ k \<le> 2 ^ 32"
    and alloc_outcome:
      "invar m \<Longrightarrow> n \<noteq> 0 \<Longrightarrow> unat n \<le> cap m \<Longrightarrow>
         (\<exists>m'. alloc m n = Ret (Err OutOfMemory, m') \<and> invar m' \<and> live m' = live m \<and> cap m' = cap m)
         \<or> (\<exists>a k m'. alloc m n = Ret (Ok (PhysAddr a (Some (2 ^ k))), m') \<and> invar m' \<and>
             cap m' = cap m \<and> k < 32 \<and> unat n \<le> 2 ^ k \<and> (unat a, k) \<notin> live m \<and>
             live m' = insert (unat a, k) (live m))"
    and alloc_zero: "invar m \<Longrightarrow> alloc m 0 = Ret (Err ZeroSize, m)"
    and free_outcome:
      "invar m \<Longrightarrow> (unat a, k) \<in> live m \<Longrightarrow> 2 ^ k < cap m \<Longrightarrow>
         \<exists>m'. free m (PhysAddr a (Some (2 ^ k))) = Ret m' \<and> invar m' \<and>
           live m' = live m - {(unat a, k)} \<and> cap m' = cap m"
    and free_unsized: "invar m \<Longrightarrow> free m (PhysAddr a None) = Ret m"
begin

text \<open>What a successful allocation gives.\<close>

lemma alloc_Ok:
  assumes "invar m" "n \<noteq> 0" "unat n \<le> cap m" "alloc m n = Ret (Ok a, m')"
  obtains k where "pa_size a = Some (2 ^ k)" "k < 32" "unat n \<le> 2 ^ k" "invar m'"
    "(unat (pa_addr a), k) \<notin> live m" "live m' = insert (unat (pa_addr a), k) (live m)"
    "cap m' = cap m"
  using alloc_outcome [OF assms(1-3)] assms(4) by (auto intro: that)

text \<open>The new block overlaps no live one.\<close>

lemma alloc_fresh:
  assumes "invar m" "n \<noteq> 0" "unat n \<le> cap m" "alloc m n = Ret (Ok a, m')" "b \<in> live m"
    "pa_size a = Some (2 ^ k)" "k < 32"
  shows "extent b \<inter> extent (unat (pa_addr a), k) = {}"
proof -
  obtain j where j: "pa_size a = Some (2 ^ j)" "j < 32" "invar m'"
      "(unat (pa_addr a), j) \<notin> live m" "live m' = insert (unat (pa_addr a), j) (live m)"
    using assms(1-4) by (rule alloc_Ok)
  have "j = k" using j(1,2) assms(6,7) by (intro pow2_usize_inj) simp_all
  with j assms(5) show ?thesis by (intro live_apart [of m']) auto
qed

text \<open>Releasing what was just allocated restores the set of live blocks.\<close>

lemma free_alloc:
  assumes "invar m" "n \<noteq> 0" "unat n \<le> cap m" "alloc m n = Ret (Ok a, m')"
    "pa_size a = Some (2 ^ k)" "k < 32" "2 ^ k < cap m"
  shows "\<exists>m''. free m' a = Ret m'' \<and> invar m'' \<and> live m'' = live m"
proof -
  obtain j where j: "pa_size a = Some (2 ^ j)" "j < 32" "invar m'"
      "(unat (pa_addr a), j) \<notin> live m" "live m' = insert (unat (pa_addr a), j) (live m)"
      "cap m' = cap m"
    using assms(1-4) by (rule alloc_Ok)
  have "j = k" using j(1,2) assms(5,6) by (intro pow2_usize_inj) simp_all
  then show ?thesis
    using free_outcome [of m' "pa_addr a" k] j assms(5,7) by (cases a) auto
qed

end

text \<open>
  A client's requests: an allocation of \<open>n\<close> bytes, or the release of a block. The release of a
  block that is not live, or that spans the whole memory, is outside the contract (\<open>None\<close>).
\<close>

datatype request = ReqAlloc usize | ReqFree usize nat

fun serve ::
    "('m \<Rightarrow> usize \<Rightarrow> ((PhysAddr, Error) Result \<times> 'm) outcome) \<Rightarrow> ('m \<Rightarrow> PhysAddr \<Rightarrow> 'm outcome) \<Rightarrow>
     'm \<Rightarrow> request \<Rightarrow> 'm outcome" where
  "serve alloc free m (ReqAlloc n) = obind (alloc m n) (\<lambda>(r, m'). Ret m')"
| "serve alloc free m (ReqFree a k) = free m (PhysAddr a (Some (2 ^ k)))"

fun serve_all ::
    "('m \<Rightarrow> usize \<Rightarrow> ((PhysAddr, Error) Result \<times> 'm) outcome) \<Rightarrow> ('m \<Rightarrow> PhysAddr \<Rightarrow> 'm outcome) \<Rightarrow>
     'm \<Rightarrow> request list \<Rightarrow> 'm outcome" where
  "serve_all alloc free m [] = Ret m"
| "serve_all alloc free m (r # rs) = obind (serve alloc free m r) (\<lambda>m'. serve_all alloc free m' rs)"

text \<open>
  The requests respect the contract along the run: every request fits the memory, and only live
  blocks smaller than the memory are released.
\<close>

fun admissible ::
    "('m \<Rightarrow> usize \<Rightarrow> ((PhysAddr, Error) Result \<times> 'm) outcome) \<Rightarrow> ('m \<Rightarrow> PhysAddr \<Rightarrow> 'm outcome) \<Rightarrow>
     ('m \<Rightarrow> (nat \<times> nat) set) \<Rightarrow> ('m \<Rightarrow> nat) \<Rightarrow> 'm \<Rightarrow> request list \<Rightarrow> bool" where
  "admissible alloc free live cap m [] = True"
| "admissible alloc free live cap m (r # rs) =
     ((case r of
         ReqAlloc n \<Rightarrow> unat n \<le> cap m
       | ReqFree a k \<Rightarrow> (unat a, k) \<in> live m \<and> 2 ^ k < cap m) \<and>
      (case serve alloc free m r of
         Ret m' \<Rightarrow> admissible alloc free live cap m' rs
       | _ \<Rightarrow> True))"

context block_allocator
begin

lemma serve_invar:
  assumes "invar m"
    and "case r of ReqAlloc n \<Rightarrow> unat n \<le> cap m
         | ReqFree a k \<Rightarrow> (unat a, k) \<in> live m \<and> 2 ^ k < cap m"
  shows "\<exists>m'. serve alloc free m r = Ret m' \<and> invar m'"
proof (cases r)
  case (ReqAlloc n)
  show ?thesis
  proof (cases "n = 0")
    case True
    then show ?thesis using ReqAlloc assms(1) alloc_zero by simp
  next
    case False
    then show ?thesis using ReqAlloc alloc_outcome [OF assms(1) False] assms(2) by auto
  qed
next
  case (ReqFree a k)
  then show ?thesis using free_outcome [OF assms(1), of a k] assms(2) by auto
qed

lemma serve_all_safe:
  "invar m \<Longrightarrow> admissible alloc free live cap m rs \<Longrightarrow>
     \<exists>m'. serve_all alloc free m rs = Ret m' \<and> invar m'"
proof (induction rs arbitrary: m)
  case (Cons r rs)
  obtain m' where m': "serve alloc free m r = Ret m'" "invar m'"
    using serve_invar [of m r] Cons.prems by (auto split: request.splits)
  with Cons show ?case by auto
qed simp

end

end
