(* ===== verification/Buddy_Spec.thy ===== *)
theory Buddy_Spec
  imports Buddy_Free Alloc_Interface
begin

text \<open>
  The contract of the buddy allocator. The tree that the block states represent is computed from
  the array (\<open>mem_tree\<close>); \<open>mem_ok\<close> is the executable invariant and \<open>live\<close> the set of allocated
  blocks. The allocator is an instance of \<open>block_allocator\<close>.
\<close>

section \<open>Abstraction\<close>

fun tree_of :: "BlockState list \<Rightarrow> nat \<Rightarrow> nat \<Rightarrow> btree" where
  "tree_of meta i 0 = (if meta ! i = Allocated then BAlloc else BFree)"
| "tree_of meta i (Suc d) =
     (case meta ! i of
        Free \<Rightarrow> BFree
      | Allocated \<Rightarrow> BAlloc
      | Split \<Rightarrow> BSplit (tree_of meta (2 * i + 1) d) (tree_of meta (2 * i + 2) d))"

definition levels :: "Memory \<Rightarrow> nat" where
  "levels m = unat (buddy_high_order m) - 12"

definition mem_tree :: "Memory \<Rightarrow> btree" where
  "mem_tree m = tree_of (buddy_meta m) 0 (levels m)"

definition mem_ok :: "Memory \<Rightarrow> bool" where
  "mem_ok m \<longleftrightarrow> mem_inv m (levels m) (mem_tree m) \<and> 4096 dvd unat (pa_addr (m_start m))"

definition live :: "Memory \<Rightarrow> (nat \<times> nat) set" where
  "live m = blocks (unat (pa_addr (m_start m))) (levels m + 12) (mem_tree m)"

definition capacity :: "Memory \<Rightarrow> nat" where
  "capacity m = 2 ^ (levels m + 12)"

lemma tree_of_repr: "repr meta i d t \<Longrightarrow> tree_of meta i d = t"
proof (induction meta i d t rule: repr.induct)
  case (1 meta i d)
  then show ?case by (cases d) (auto simp: allfree_iff)
next
  case (2 meta i d)
  then show ?case by (cases d) auto
qed auto

lemma mem_inv_abs:
  assumes "mem_inv m D t"
  shows "levels m = D" "mem_tree m = t"
proof -
  show l: "levels m = D" using assms by (simp add: mem_inv_def geom_def levels_def)
  show "mem_tree m = t"
    using assms tree_of_repr by (simp add: mem_tree_def l mem_inv_def)
qed

lemma mem_okI:
  "mem_inv m D t \<Longrightarrow> 4096 dvd unat (pa_addr (m_start m)) \<Longrightarrow> mem_ok m"
  using mem_inv_abs [of m D t] by (simp add: mem_ok_def)

lemma mem_inv_depth: "mem_inv m D t \<Longrightarrow> depth_ok D t"
  by (auto simp: mem_inv_def intro: repr_depth_ok)

lemma mem_ok_levels: "mem_ok m \<Longrightarrow> levels m \<le> 19"
  by (simp add: mem_ok_def mem_inv_def geom_def)


section \<open>Allocation\<close>

text \<open>A call on a request that fits the memory, in terms of the abstraction.\<close>

lemma buddy_alloc_cases:
  assumes ok: "mem_ok m" and n: "n \<noteq> 0" "unat n \<le> capacity m"
  defines "j \<equiv> order_of n"
  shows "(\<exists>m'. Memory_buddy_alloc p m n = Ret (Err OutOfMemory, m') \<and>
            (\<exists>stk. length stk = length (buddy_stack m) \<and> m' = m\<lparr>buddy_stack := stk\<rparr>) \<and>
            \<not> has_free (levels m + 12 - j) (mem_tree m))
       \<or> (\<exists>q t' m'. talloc (levels m + 12 - j) (mem_tree m) = Some (q, t') \<and>
            Memory_buddy_alloc p m n =
              Ret (Ok (block_addr m (levels m) (levels m + 12 - j) q), m') \<and>
            mem_inv m' (levels m) t' \<and> m_start m' = m_start m)"
proof -
  let ?D = "levels m" and ?t = "mem_tree m"
  have inv: "mem_inv m ?D ?t" using ok by (simp add: mem_ok_def)
  have n': "unat n \<le> 2 ^ (?D + 12)" using n(2) by (simp add: capacity_def)
  have j: "12 \<le> j" "j \<le> ?D + 12" using order_of_bounds [OF n'] by (auto simp: j_def)
  then have jj: "?D + 12 - (?D + 12 - j) = j" by simp
  from alloc_refines [OF inv n(1) n', of p]
  obtain stk where stk: "length stk = length (buddy_stack m)"
    and res: "case talloc (?D + 12 - j) ?t of
           None \<Rightarrow> Memory_buddy_alloc p m n = Ret (Err OutOfMemory, m\<lparr>buddy_stack := stk\<rparr>)
         | Some (q, t') \<Rightarrow>
             \<exists>meta. mem_inv (m\<lparr>buddy_stack := stk, buddy_meta := meta\<rparr>) ?D t' \<and>
               Memory_buddy_alloc p m n =
                 Ret (Ok (PhysAddr (block_of m ?D (?D + 12 - j) q) (Some (2 ^ j))),
                   m\<lparr>buddy_stack := stk, buddy_meta := meta\<rparr>)"
    unfolding alloc_post_def Let_def j_def by blast
  show ?thesis
  proof (cases "talloc (?D + 12 - j) ?t")
    case None
    then have "\<not> has_free (?D + 12 - j) ?t" by (simp add: talloc_None_iff)
    with None res stk show ?thesis by auto
  next
    case (Some x)
    then obtain q t' where x: "talloc (?D + 12 - j) ?t = Some (q, t')" by (cases x) auto
    with res obtain meta where
      "mem_inv (m\<lparr>buddy_stack := stk, buddy_meta := meta\<rparr>) ?D t'"
      "Memory_buddy_alloc p m n = Ret (Ok (block_addr m ?D (?D + 12 - j) q),
         m\<lparr>buddy_stack := stk, buddy_meta := meta\<rparr>)"
      by (auto simp: block_addr_def jj)
    with x show ?thesis
      by (intro disjI2 exI [of _ q] exI [of _ t']
          exI [of _ "m\<lparr>buddy_stack := stk, buddy_meta := meta\<rparr>"]) simp
  qed
qed

text \<open>The abstraction does not read the stack.\<close>

lemma stack_irrelevant:
  assumes "mem_ok m" "length stk = length (buddy_stack m)"
  shows "mem_ok (m\<lparr>buddy_stack := stk\<rparr>)" "live (m\<lparr>buddy_stack := stk\<rparr>) = live m"
    "capacity (m\<lparr>buddy_stack := stk\<rparr>) = capacity m"
  using assms by (simp_all add: mem_ok_def mem_inv_def live_def capacity_def levels_def mem_tree_def)

lemma live_alloc:
  assumes ok: "mem_ok m" and k: "k \<le> levels m"
    and t': "talloc k (mem_tree m) = Some (q, t')" "mem_inv m' (levels m) t'" "m_start m' = m_start m"
  defines "b \<equiv> (unat (block_of m (levels m) k q), levels m + 12 - k)"
  shows "mem_ok m'" "capacity m' = capacity m" "live m' = insert b (live m)" "b \<notin> live m"
proof -
  note abs = mem_inv_abs [OF t'(2)]
  have g: "geom m (levels m)" using ok by (simp add: mem_ok_def mem_inv_def)
  have q: "q < 2 ^ k" using t'(1) by (rule talloc_pos)
  have b: "b = (unat (pa_addr (m_start m)) + q * 2 ^ (levels m + 12 - k), levels m + 12 - k)"
    using block_offset(1) [OF g k q] by (simp add: b_def)
  show "mem_ok m'" using ok t' by (intro mem_okI [OF t'(2)]) (simp add: mem_ok_def)
  show "capacity m' = capacity m" by (simp add: capacity_def abs)
  show "live m' = insert b (live m)"
    unfolding live_def abs b t'(3) using t'(1) k by (intro talloc_blocks) simp_all
  show "b \<notin> live m"
  proof
    assume "b \<in> live m"
    then have "extent b \<inter> extent b = {}"
      unfolding live_def b using t'(1) k by (intro talloc_fresh) auto
    moreover have "fst b \<in> extent b" by (cases b) simp
    ultimately show False by blast
  qed
qed


section \<open>Release\<close>

text \<open>A request fails only when every aligned block of its size overlaps a live one.\<close>

lemma alloc_fails_full:
  assumes "mem_ok m" "n \<noteq> 0" "unat n \<le> capacity m"
    and "Memory_buddy_alloc p m n = Ret (Err e, m')"
    and "(q + 1) * 2 ^ order_of n \<le> capacity m"
  shows "\<exists>b\<in>live m. extent b \<inter> extent (unat (pa_addr (m_start m)) + q * 2 ^ order_of n, order_of n) \<noteq> {}"
proof -
  let ?D = "levels m" and ?j = "order_of n" and ?k = "levels m + 12 - order_of n"
  have n: "unat n \<le> 2 ^ (?D + 12)" using assms(3) by (simp add: capacity_def)
  then have jj: "?D + 12 - ?k = ?j" "?k + ?j = ?D + 12" using order_of_bounds [OF n] by auto
  have nf: "\<not> has_free ?k (mem_tree m)"
    using buddy_alloc_cases [OF assms(1-3), of p] assms(4) by auto
  have "(q + 1) * 2 ^ ?j \<le> 2 ^ ?k * 2 ^ ?j"
    using assms(5) unfolding capacity_def power_add [symmetric] jj(2) .
  then have q: "q < 2 ^ ?k" using mult_le_cancel2 [of "q + 1" "2 ^ ?j" "2 ^ ?k"] by simp
  have inv: "mem_inv m ?D (mem_tree m)" using assms(1) by (simp add: mem_ok_def)
  then have "depth_ok (?D + 12) (mem_tree m)"
    by (intro depth_ok_mono [OF mem_inv_depth]) auto
  then show ?thesis
    using no_free_overlap [OF nf, of "?D + 12" q "unat (pa_addr (m_start m))"] q inv jj
    by (simp add: live_def mem_inv_def)
qed

lemma live_position:
  assumes "mem_ok m" "(unat a, j) \<in> live m"
  obtains k q where "k \<le> levels m" "q < 2 ^ k" "j = levels m + 12 - k"
    "block_addr m (levels m) k q = PhysAddr a (Some (2 ^ j))"
    "unat a = unat (pa_addr (m_start m)) + q * 2 ^ (levels m + 12 - k)"
    "\<exists>t'. tfree k q (mem_tree m) = Some t'"
proof -
  let ?D = "levels m" and ?a = "unat (pa_addr (m_start m))"
  have g: "geom m ?D" and dep: "depth_ok ?D (mem_tree m)"
    using assms(1) mem_inv_depth by (auto simp: mem_ok_def mem_inv_def)
  from blocks_position [OF assms(2) [unfolded live_def] dep]
  obtain k q where kq: "k \<le> ?D" "q < 2 ^ k" "j = ?D + 12 - k" "unat a = ?a + q * 2 ^ (?D + 12 - k)"
    by auto
  have "unat (block_of m ?D k q) = unat a"
    using block_offset(1) [OF g kq(1,2)] kq(4) by simp
  then have ba: "block_addr m ?D k q = PhysAddr a (Some (2 ^ j))"
    using kq(3) by (simp add: block_addr_def word_unat_eq_iff)
  have "depth_ok (?D + 12) (mem_tree m)" using dep by (rule depth_ok_mono) simp
  then have "\<exists>t'. tfree k q (mem_tree m) = Some t'"
    using tfree_Some_iff [of q k "?D + 12" "mem_tree m" ?a] kq assms(2) by (simp add: live_def)
  with kq ba show ?thesis by (intro that) auto
qed

lemma buddy_free_live:
  assumes ok: "mem_ok m" and b: "(unat a, j) \<in> live m" "2 ^ j < capacity m"
  shows "\<exists>m'. Memory_buddy_free p m (PhysAddr a (Some (2 ^ j))) = Ret m' \<and> mem_ok m' \<and>
    live m' = live m - {(unat a, j)} \<and> capacity m' = capacity m \<and>
    buddy_stack m' = buddy_stack m \<and> m_start m' = m_start m"
proof -
  let ?D = "levels m"
  obtain k q where kq: "k \<le> ?D" "q < 2 ^ k" "j = ?D + 12 - k"
      "block_addr m ?D k q = PhysAddr a (Some (2 ^ j))"
      "unat a = unat (pa_addr (m_start m)) + q * 2 ^ (?D + 12 - k)"
      "\<exists>t'. tfree k q (mem_tree m) = Some t'"
    using ok b(1) by (rule live_position)
  from kq(6) obtain t' where t': "tfree k q (mem_tree m) = Some t'" ..
  have "j < ?D + 12" using b(2) unfolding capacity_def by (rule pow2_less_D)
  then have k0: "0 < k" using kq(3) by auto
  have inv: "mem_inv m ?D (mem_tree m)" using ok by (simp add: mem_ok_def)
  from free_refines [OF inv kq(1) k0 kq(2) t', of p] obtain ms where
    ms: "Memory_buddy_free p m (PhysAddr a (Some (2 ^ j))) = Ret (m\<lparr>buddy_meta := ms\<rparr>)"
      "mem_inv (m\<lparr>buddy_meta := ms\<rparr>) ?D t'"
    by (auto simp: kq(4))
  note abs = mem_inv_abs [OF ms(2)]
  have "live (m\<lparr>buddy_meta := ms\<rparr>) = live m - {(unat a, j)}"
    unfolding live_def abs using tfree_blocks [OF t' kq(2)] kq by simp
  moreover have "mem_ok (m\<lparr>buddy_meta := ms\<rparr>)"
    using ok by (intro mem_okI [OF ms(2)]) (simp add: mem_ok_def)
  ultimately show ?thesis using ms(1) abs by (auto simp: capacity_def)
qed

lemma free_not_live:
  assumes "mem_ok m" "12 \<le> k" "(q + 1) * 2 ^ k \<le> capacity m"
    and "unat a = unat (pa_addr (m_start m)) + q * 2 ^ k" "(unat a, k) \<notin> live m"
  shows "\<exists>i. unat i = 2 ^ (levels m + 12 - k) + q - 1 \<and>
    Memory_buddy_free p m (PhysAddr a (Some (2 ^ k))) =
      Panic (Formatted ''buddy_free(): Memory at index {i} was not allocated, something is wrong.'' [i])"
proof -
  let ?D = "levels m" and ?k = "levels m + 12 - k"
  have inv: "mem_inv m ?D (mem_tree m)" using assms(1) by (simp add: mem_ok_def)
  then have g: "geom m ?D" and dep: "depth_ok (?D + 12) (mem_tree m)"
    using depth_ok_mono [OF mem_inv_depth] by (auto simp: mem_inv_def)
  have "(2::nat) ^ k \<le> 2 ^ (?D + 12)"
    using assms(3) unfolding capacity_def add_mult_distrib by linarith
  then have "k \<le> ?D + 12" by (rule pow2_le_D)
  then have k: "?D + 12 - ?k = k" "?k + k = ?D + 12" "?k \<le> ?D" using assms(2) by auto
  have "(q + 1) * 2 ^ k \<le> 2 ^ ?k * 2 ^ k"
    using assms(3) unfolding capacity_def power_add [symmetric] k(2) .
  then have q: "q < 2 ^ ?k" using mult_le_cancel2 [of "q + 1" "2 ^ k" "2 ^ ?k"] by simp
  have "block_of m ?D ?k q = a"
    using block_offset(1) [OF g k(3) q] assms(4) by (simp add: k(1) word_unat_eq_iff)
  then have b: "block_addr m ?D ?k q = PhysAddr a (Some (2 ^ k))" by (simp add: block_addr_def k(1))
  have "tfree ?k q (mem_tree m) = None"
    using tfree_Some_iff [OF q _ dep, of "unat (pa_addr (m_start m))"] assms(4,5) k
    by (cases "tfree ?k q (mem_tree m)") (auto simp: live_def)
  from free_panics [OF inv k(3) q this, of p] show ?thesis by (simp add: b node_at_def)
qed

lemma free_whole:
  assumes "mem_ok m" "(unat a, k) \<in> live m" "2 ^ k = capacity m" "12 < k"
  shows "Memory_buddy_free p m (PhysAddr a (Some (2 ^ k))) =
    Panic (if p = Dev then Overflow else OutOfBounds)"
proof -
  let ?D = "levels m"
  have k: "k = ?D + 12" using assms(3) by (simp add: capacity_def)
  obtain l q where l: "l \<le> ?D" "q < 2 ^ l" "k = ?D + 12 - l"
      "block_addr m ?D l q = PhysAddr a (Some (2 ^ k))" "\<exists>t'. tfree l q (mem_tree m) = Some t'"
    using assms(1,2) by (rule live_position)
  then have l0: "l = 0" using k by simp
  with l have q0: "q = 0" by simp
  have "mem_tree m = BAlloc" using l(5) unfolding l0 q0 by (cases "mem_tree m") auto
  then have "mem_inv m ?D BAlloc" using assms(1) by (simp add: mem_ok_def)
  from free_root [OF this, of p] show ?thesis using l(4) l0 q0 assms(4) k by simp
qed

text \<open>Whatever aligned block a caller releases, a call that returns has released a live block.\<close>

lemma free_returns:
  assumes "mem_ok m" "12 \<le> k" "(q + 1) * 2 ^ k \<le> capacity m" "4096 < capacity m"
    and "unat a = unat (pa_addr (m_start m)) + q * 2 ^ k"
    and "Memory_buddy_free p m (PhysAddr a (Some (2 ^ k))) = Ret m'"
  shows "mem_ok m' \<and> live m' = live m - {(unat a, k)} \<and> capacity m' = capacity m \<and>
    m_start m' = m_start m \<and> (unat a, k) \<in> live m"
proof -
  have l: "(unat a, k) \<in> live m" using free_not_live [OF assms(1-3,5), of p] assms(6) by auto
  have "2 ^ k \<noteq> capacity m"
  proof
    assume e: "2 ^ k = capacity m"
    then have "(2::nat) ^ 12 < 2 ^ k" using assms(4) by simp
    then have "12 < k" by (rule pow2_less_D)
    from free_whole [OF assms(1) l e this, of p] show False using assms(6) by simp
  qed
  moreover have "2 ^ k \<le> capacity m" using assms(3) unfolding add_mult_distrib by linarith
  ultimately show ?thesis using buddy_free_live [OF assms(1) l, of p] assms(6) l by auto
qed


section \<open>The allocator provides the interface\<close>

lemma live_facts:
  assumes "mem_ok m" "(a, j) \<in> live m"
  shows "12 \<le> j" "4096 dvd a" "a + 2 ^ j \<le> 2 ^ 32"
proof -
  let ?s = "unat (pa_addr (m_start m))"
  have dep: "depth_ok (levels m) (mem_tree m)" and g: "geom m (levels m)"
    using assms(1) mem_inv_depth by (auto simp: mem_ok_def mem_inv_def)
  from blocks_position [OF assms(2) [unfolded live_def] dep]
  obtain k q where kq: "k \<le> levels m" "j = levels m + 12 - k" "a = ?s + q * 2 ^ (levels m + 12 - k)"
    by auto
  then show "12 \<le> j" by simp
  have "(2::nat) ^ 12 dvd 2 ^ (levels m + 12 - k)" using kq(1) by (intro le_imp_power_dvd) simp
  then have "4096 dvd q * 2 ^ (levels m + 12 - k)" by simp
  then show "4096 dvd a" using kq(3) assms(1) by (simp add: mem_ok_def)
  have "a + 2 ^ j \<le> ?s + 2 ^ (levels m + 12)"
    using blocks_inside [OF assms(2) [unfolded live_def]] by simp
  also have "\<dots> \<le> 2 ^ 32" using g by (simp add: geom_def)
  finally show "a + 2 ^ j \<le> 2 ^ 32" .
qed

interpretation buddy: block_allocator
  "Memory_buddy_alloc p" "Memory_buddy_free p" mem_ok live capacity for p
proof
  fix m and b c :: "nat \<times> nat"
  assume "mem_ok m" "b \<in> live m" "c \<in> live m" "b \<noteq> c"
  then show "extent b \<inter> extent c = {}" unfolding live_def by (intro blocks_disjoint)
next
  fix m a k
  assume "mem_ok m" "(a, k) \<in> live m"
  then show "12 \<le> k \<and> 4096 dvd a" "a + 2 ^ k \<le> 2 ^ 32" using live_facts by auto
next
  fix m and n :: usize
  assume ok: "mem_ok m" and n: "n \<noteq> 0" "unat n \<le> capacity m"
  let ?j = "order_of n" and ?D = "levels m"
  have j: "12 \<le> ?j" "?j \<le> ?D + 12" "unat n \<le> 2 ^ ?j" "?D \<le> 19"
    using order_of_bounds [of n "?D + 12"] n mem_ok_levels [OF ok] by (auto simp: capacity_def)
  then have jj: "?D + 12 - (?D + 12 - ?j) = ?j" "?D + 12 - ?j \<le> ?D" "?j < 32" by auto
  from buddy_alloc_cases [OF ok n, of p]
  show "(\<exists>m'. Memory_buddy_alloc p m n = Ret (Err OutOfMemory, m') \<and> mem_ok m' \<and>
          live m' = live m \<and> capacity m' = capacity m)
       \<or> (\<exists>a k m'. Memory_buddy_alloc p m n = Ret (Ok (PhysAddr a (Some (2 ^ k))), m') \<and>
          mem_ok m' \<and> capacity m' = capacity m \<and> k < 32 \<and> unat n \<le> 2 ^ k \<and>
          (unat a, k) \<notin> live m \<and> live m' = insert (unat a, k) (live m))"
  proof (elim disjE exE conjE)
    fix m' stk
    assume "Memory_buddy_alloc p m n = Ret (Err OutOfMemory, m')"
      "length stk = length (buddy_stack m)" "m' = m\<lparr>buddy_stack := stk\<rparr>"
    then show ?thesis using stack_irrelevant [OF ok] by auto
  next
    fix q t' m'
    assume t': "talloc (?D + 12 - ?j) (mem_tree m) = Some (q, t')"
      and r: "Memory_buddy_alloc p m n = Ret (Ok (block_addr m ?D (?D + 12 - ?j) q), m')"
      and m': "mem_inv m' ?D t'" "m_start m' = m_start m"
    from live_alloc [OF ok jj(2) t' m'] show ?thesis
      using r j jj by (intro disjI2 exI conjI) (auto simp: block_addr_def)
  qed
next
  fix m assume "mem_ok m"
  then show "Memory_buddy_alloc p m 0 = Ret (Err ZeroSize, m)"
    by (simp add: Memory_buddy_alloc_def)
next
  fix m k and a :: usize
  assume "mem_ok m" "(unat a, k) \<in> live m" "2 ^ k < capacity m"
  then show "\<exists>m'. Memory_buddy_free p m (PhysAddr a (Some (2 ^ k))) = Ret m' \<and> mem_ok m' \<and>
      live m' = live m - {(unat a, k)} \<and> capacity m' = capacity m"
    using buddy_free_live by blast
next
  fix m a
  show "Memory_buddy_free p m (PhysAddr a None) = Ret m" by (simp add: Memory_buddy_free_def)
qed

end
