(* ===== verification/Buddy_Init.thy ===== *)
theory Buddy_Init
  imports Buddy_Spec
begin

text \<open>
  Setting the allocator up: the bump allocator \<open>InitialAlloc\<close>, and \<open>Memory_new\<close>, which carves the
  block states and the search stack out of the reserved region and leaves one free block.
\<close>

section \<open>The bump allocator\<close>

lemma div_ceil_nat:
  "(a + 4095) div 4096 = a div 4096 + (if a mod 4096 = 0 then 0 else 1)" for a :: nat
proof -
  obtain q r where a: "a = 4096 * q + r" "r < 4096"
    by (metis mult_div_mod_eq mod_less_divisor zero_less_numeral)
  have "(4096 * q + r + 4095) div 4096 = q + (if r = 0 then 0 else 1)"
    using a(2) by (intro div_nat_eqI) auto
  then show ?thesis using a by simp
qed

lemma u_div_ceil_page:
  assumes "unat a < 2 ^ 31"
  shows "\<exists>r. u_div_ceil p a PAGE_SIZE = Ret r \<and> unat r = (unat a + 4095) div 4096"
proof -
  let ?q = "a div PAGE_SIZE" and ?r = "a mod PAGE_SIZE"
  have q: "unat ?q = unat a div 4096" and r: "unat ?r = unat a mod 4096"
    by (simp_all add: PAGE_SIZE_def unat_div unat_mod)
  have z: "PAGE_SIZE \<noteq> 0" by (simp add: PAGE_SIZE_def)
  show ?thesis
  proof (cases "0 < ?r")
    case True
    then have "0 < unat a mod 4096" using r by (simp add: word_less_nat_alt)
    then have e: "(unat a + 4095) div 4096 = unat a div 4096 + 1"
      by (simp add: div_ceil_nat)
    have "unat ?q + 1 < 2 ^ 32" using q assms by simp
    then have "u_add p ?q 1 = Ret (?q + 1)" "unat (?q + 1) = unat ?q + 1"
      by (simp_all add: u_add_ok unat_add_ok)
    then show ?thesis using True z q e by (simp add: u_div_ceil_def u_div_ok u_rem_ok)
  next
    case False
    then have "unat a mod 4096 = 0" using r by (simp add: word_less_nat_alt)
    then have "(unat a + 4095) div 4096 = unat a div 4096"
      by (simp add: div_ceil_nat)
    then show ?thesis using False z q by (simp add: u_div_ceil_def u_div_ok u_rem_ok)
  qed
qed

lemma page_alloc_ok:
  assumes "unat (ia_next s) + unat n * 4096 \<le> unat (ia_end s)"
  shows "page_alloc p s n =
      Ret (PhysAddr (ia_next s) (Some (n * 4096)), s\<lparr>ia_next := ia_next s + n * 4096\<rparr>)"
    and "unat (ia_next s + n * 4096) = unat (ia_next s) + unat n * 4096"
proof -
  have b: "unat (ia_next s) + unat n * 4096 < 2 ^ 32"
    using assms unat_less_32 [of "ia_end s"] by linarith
  have m: "u_mul p n PAGE_SIZE = Ret (n * 4096)" "unat (n * 4096) = unat n * 4096"
    using b by (simp_all add: u_mul_ok unat_mul_ok PAGE_SIZE_def)
  show u: "unat (ia_next s + n * 4096) = unat (ia_next s) + unat n * 4096"
    using b m(2) by (subst unat_add_ok) simp_all
  have "u_add p (ia_next s) (n * 4096) = Ret (ia_next s + n * 4096)"
    using b m(2) by (intro u_add_ok) simp
  moreover have "ia_next s + n * 4096 \<le> ia_end s" using u assms by (simp add: word_le_nat_alt)
  ultimately show "page_alloc p s n =
      Ret (PhysAddr (ia_next s) (Some (n * 4096)), s\<lparr>ia_next := ia_next s + n * 4096\<rparr>)"
    by (simp add: page_alloc_def m(1) PhysAddr_new_def Let_def)
qed

lemma page_alloc_exhausted:
  assumes "unat (ia_end s) < unat (ia_next s) + unat n * 4096"
    "unat (ia_next s) + unat n * 4096 < 2 ^ 32"
  shows "page_alloc p s n = Panic (Explicit ''OutOfMemory'')"
proof -
  have m: "u_mul p n PAGE_SIZE = Ret (n * 4096)" "unat (n * 4096) = unat n * 4096"
    using assms(2) by (simp_all add: u_mul_ok unat_mul_ok PAGE_SIZE_def)
  have u: "unat (ia_next s + n * 4096) = unat (ia_next s) + unat n * 4096"
    using assms(2) m(2) by (subst unat_add_ok) simp_all
  have "u_add p (ia_next s) (n * 4096) = Ret (ia_next s + n * 4096)"
    using assms(2) m(2) by (intro u_add_ok) simp
  moreover have "\<not> ia_next s + n * 4096 \<le> ia_end s" using u assms(1) by (simp add: word_le_nat_alt)
  ultimately show ?thesis by (simp add: page_alloc_def m(1) Let_def)
qed


section \<open>The metadata of a memory of \<open>P\<close> pages\<close>

text \<open>
  \<open>layout_ok\<close>: the memory at \<open>s\<close> spans \<open>P\<close> pages up to \<open>e\<close>, and the reserved region \<open>a .. b\<close> has
  the pages for the \<open>2 P - 1\<close> block states and for the stack.
\<close>

definition layout_ok :: "nat \<Rightarrow> usize \<Rightarrow> usize \<Rightarrow> usize \<Rightarrow> usize \<Rightarrow> bool" where
  "layout_ok P s e a b \<longleftrightarrow>
     0 < P \<and> P < 2 ^ 20 \<and> unat e = unat s + P * 4096 \<and> 4096 dvd unat s \<and>
     unat a + ((2 * P - 1 + 4095) div 4096) * 4096 + ((4 * (2 * P - 1) + 4095) div 4096) * 4096
       \<le> unat b"

lemma layout_sizes:
  assumes "layout_ok P s e a b"
  shows "u_sub p e s = Ret (e - s)" "unat (e - s) = P * 4096"
    "u_div (e - s) PAGE_SIZE = Ret ((e - s) div 4096)"
    "u_mul p 2 ((e - s) div 4096) = Ret (2 * ((e - s) div 4096))"
    "u_sub p (2 * ((e - s) div 4096)) 1 = Ret (2 * ((e - s) div 4096) - 1)"
    "unat (2 * ((e - s) div 4096) - 1) = 2 * P - 1"
proof -
  have P: "0 < P" "P < 1048576" and e: "unat e = unat s + P * 4096"
    using assms by (auto simp: layout_ok_def)
  have le: "s \<le> e" using e by (simp add: word_le_nat_alt)
  then show "u_sub p e s = Ret (e - s)" by (rule u_sub_ok)
  show sz: "unat (e - s) = P * 4096" using unat_sub_ok [OF le] e by simp
  show "u_div (e - s) PAGE_SIZE = Ret ((e - s) div 4096)" by (simp add: u_div_ok PAGE_SIZE_def)
  have pg: "unat ((e - s) div 4096) = P" using sz by (simp add: unat_div)
  then show "u_mul p 2 ((e - s) div 4096) = Ret (2 * ((e - s) div 4096))"
    using P by (intro u_mul_ok) simp
  have tw: "unat (2 * ((e - s) div 4096)) = 2 * P"
    using pg P by (subst unat_mul_ok) simp_all
  then have one: "1 \<le> 2 * ((e - s) div 4096)" using P by (simp add: word_le_nat_alt)
  then show "u_sub p (2 * ((e - s) div 4096)) 1 = Ret (2 * ((e - s) div 4096) - 1)"
    by (rule u_sub_ok)
  show "unat (2 * ((e - s) div 4096) - 1) = 2 * P - 1" using unat_sub_ok [OF one] tw by simp
qed

lemma layout_orders:
  assumes "layout_ok P s e a b"
  shows "find_order p (e - s) = Ret (of_nat (ilog2_nat P + 12))"
    and "find_order p PAGE_SIZE = Ret 12"
    and "ilog2_nat P \<le> 19"
proof -
  have P: "0 < P" "P < 2 ^ 20" using assms by (auto simp: layout_ok_def)
  note lg = ilog2_nat_bounds [OF P(1)]
  have "(2::nat) ^ ilog2_nat P < 2 ^ 20" using lg P(2) by linarith
  then have "ilog2_nat P < 20" by (rule pow2_less_D)
  then show "ilog2_nat P \<le> 19" by simp
  note sz = layout_sizes(2) [OF assms]
  have lo: "2 ^ (ilog2_nat P + 12) \<le> P * 4096" using lg by (simp add: power_add)
  have "Suc P \<le> 2 ^ Suc (ilog2_nat P)" using lg by linarith
  then have "Suc P * 4096 \<le> 2 ^ Suc (ilog2_nat P) * 4096" by (rule mult_le_mono1)
  then have hi: "Suc (P * 4096) < 2 ^ Suc (ilog2_nat P + 12)" by (simp add: power_add)
  have "ilog2_nat (Suc (P * 4096)) = ilog2_nat P + 12"
    using lo hi by (intro ilog2_nat_unique) simp_all
  then show "find_order p (e - s) = Ret (of_nat (ilog2_nat P + 12))"
    using P(2) sz find_order_eq [of "e - s" p] by simp
  show "find_order p PAGE_SIZE = Ret 12"
    using find_order_power [of PAGE_SIZE 12 p] by (simp add: PAGE_SIZE_def)
qed


section \<open>\<open>Memory_new\<close>\<close>

text \<open>The allocator that is set up, and the memory afterwards.\<close>

definition fresh_memory :: "nat \<Rightarrow> usize \<Rightarrow> usize \<Rightarrow> Memory \<Rightarrow> bool" where
  "fresh_memory P s e m \<longleftrightarrow>
     m_start m = PhysAddr s None \<and> m_end m = PhysAddr e None \<and> mem_size m = e - s \<and>
     unat (buddy_node_count m) = 2 * P - 1 \<and>
     unat (buddy_high_order m) = ilog2_nat P + 12 \<and> buddy_low_order m = 12 \<and>
     unat (buddy_stack_size m) = 4 * (2 * P - 1) \<and>
     buddy_stack m = replicate (ilog2_nat P + 1) 0 \<and>
     buddy_meta m = replicate (2 * P - 1) Free"

definition metadata_written :: "nat \<Rightarrow> usize \<Rightarrow> usize \<Rightarrow> ram \<Rightarrow> ram" where
  "metadata_written P a b ram =
     (\<lambda>x. if unat (x - a) < 2 * P - 1 then 1 else if x - a < b - a then 0 else ram x)"

lemma stack_words:
  assumes "ilog2_nat P \<le> 19"
  shows "u_sub p (of_nat (ilog2_nat P + 12)) 12 = Ret (of_nat (ilog2_nat P))"
    and "u_add p (of_nat (ilog2_nat P)) 1 = Ret (of_nat (ilog2_nat P) + 1)"
    and "unat (of_nat (ilog2_nat P) + 1 :: usize) = ilog2_nat P + 1"
    and "unat (of_nat (ilog2_nat P + 12) :: usize) = ilog2_nat P + 12"
proof -
  have l: "unat (of_nat (ilog2_nat P) :: usize) = ilog2_nat P"
    using assms by (intro unat_of_nat_ok) simp
  show h: "unat (of_nat (ilog2_nat P + 12) :: usize) = ilog2_nat P + 12"
    using assms by (intro unat_of_nat_ok) simp
  then show "u_sub p (of_nat (ilog2_nat P + 12)) 12 = Ret (of_nat (ilog2_nat P))"
    using u_sub_level [of "of_nat (ilog2_nat P + 12)" "ilog2_nat P + 12" 12 p] assms by simp
  show "u_add p (of_nat (ilog2_nat P)) 1 = Ret (of_nat (ilog2_nat P) + 1)"
    using l assms by (intro u_add_ok) simp
  show "unat (of_nat (ilog2_nat P) + 1 :: usize) = ilog2_nat P + 1"
    using l assms by (subst unat_add_ok) simp_all
qed

text \<open>The two slices lie one after the other in the reserved region.\<close>

lemma metadata_bytes:
  assumes "unat nc = 2 * P - 1" "unat nc + 4095 < 2 ^ 31" "unat mp = (unat nc + 4095) div 4096"
    and "unat sp = (4 * unat nc + 4095) div 4096" "unat (nc * 4) = 4 * unat nc"
    and "unat a + unat mp * 4096 + unat sp * 4096 \<le> unat b"
  shows "write_bytes (write_bytes (write_bytes ram a 0 (b - a)) a 1 nc) (a + mp * 4096) 0 (nc * 4) =
    metadata_written P a b ram"
proof
  fix x
  have ab: "a \<le> b" using assms(6) by (simp add: word_le_nat_alt)
  have size: "unat (b - a) = unat b - unat a" using unat_sub_ok [OF ab] by simp
  have mp: "unat (mp * 4096) = unat mp * 4096"
    using assms(6) unat_less_32 [of b] by (subst unat_mul_ok) simp_all
  have c: "unat nc \<le> unat mp * 4096" "4 * unat nc \<le> unat sp * 4096"
    using assms(3,4) by (auto simp: div_ceil_nat)
  let ?y = "x - a"
  have y: "x - (a + mp * 4096) = ?y - mp * 4096" by simp
  have later: "\<not> unat ?y < unat nc \<and> ?y < b - a" if "?y - mp * 4096 < nc * 4"
  proof -
    have "mp * 4096 \<le> ?y"
    proof (rule ccontr)
      assume "\<not> mp * 4096 \<le> ?y"
      then have "unat (?y - mp * 4096) = unat ?y + 2 ^ 32 - unat mp * 4096"
        using mp by (simp add: unat_sub_if' word_le_nat_alt)
      moreover have "unat mp * 4096 + 4 * unat nc \<le> 2 ^ 32"
        using c(2) assms(6) unat_less_32 [of b] by linarith
      ultimately show False using that assms(5) by (simp add: word_less_nat_alt)
    qed
    then have "unat (?y - mp * 4096) = unat ?y - unat mp * 4096" "unat mp * 4096 \<le> unat ?y"
      using mp unat_sub_ok by (auto simp: word_le_nat_alt)
    then show ?thesis
      using that c assms(5,6) size by (auto simp: word_less_nat_alt)
  qed
  have "?y < nc \<longleftrightarrow> unat ?y < 2 * P - 1" using assms(1) by (simp add: word_less_nat_alt)
  then show "write_bytes (write_bytes (write_bytes ram a 0 (b - a)) a 1 nc) (a + mp * 4096) 0
      (nc * 4) x = metadata_written P a b ram x"
    using later assms(1) by (auto simp: write_bytes_def metadata_written_def y)
qed

lemma Memory_new_ok:
  assumes lay: "layout_ok P s e a b"
  shows "\<exists>m. Memory_new p ram (Some s) (Some e) (Some a) (Some b) =
      Ret (m, metadata_written P a b ram) \<and> fresh_memory P s e m"
proof -
  note sz = layout_sizes [OF lay] and ord = layout_orders [OF lay]
  note st = stack_words [OF ord(3)]
  define nc where "nc = 2 * ((e - s) div 4096) - 1"
  have P: "P < 1048576" using lay by (simp add: layout_ok_def)
  have nc: "unat nc = 2 * P - 1" using sz(6) by (simp add: nc_def)
  then have small: "unat nc + 4095 < 2 ^ 31" "4 * unat nc < 2 ^ 31" using P by auto
  obtain mp where mp: "u_div_ceil p nc PAGE_SIZE = Ret mp" "unat mp = (unat nc + 4095) div 4096"
    using u_div_ceil_page [of nc p] small(1) by auto
  have m4: "u_mul p nc 4 = Ret (nc * 4)" "unat (nc * 4) = 4 * unat nc"
    using nc P by (simp_all add: u_mul_ok unat_mul_ok)
  obtain sp where sp: "u_div_ceil p (nc * 4) PAGE_SIZE = Ret sp"
      "unat sp = (4 * unat nc + 4095) div 4096"
    using u_div_ceil_page [of "nc * 4" p] small(2) m4 by auto
  have room: "unat a + unat mp * 4096 + unat sp * 4096 \<le> unat b"
    using lay unfolding layout_ok_def mp(2) sp(2) nc by blast
  let ?s0 = "\<lparr>ia_start = a, ia_end = b, ia_next = a\<rparr>"
  have a1: "page_alloc p ?s0 mp = Ret (PhysAddr a (Some (mp * 4096)), ?s0\<lparr>ia_next := a + mp * 4096\<rparr>)"
    and u1: "unat (a + mp * 4096) = unat a + unat mp * 4096"
    using page_alloc_ok(1) [of ?s0 mp p] page_alloc_ok(2) [of ?s0 mp] room by auto
  have a2: "page_alloc p (?s0\<lparr>ia_next := a + mp * 4096\<rparr>) sp =
      Ret (PhysAddr (a + mp * 4096) (Some (sp * 4096)),
        ?s0\<lparr>ia_next := a + mp * 4096 + sp * 4096\<rparr>)"
    using page_alloc_ok(1) [of "?s0\<lparr>ia_next := a + mp * 4096\<rparr>" sp p] room u1 by simp
  have bytes: "write_bytes (write_bytes (write_bytes ram a 0 (b - a)) a 1 nc) (a + mp * 4096) 0
      (nc * 4) = metadata_written P a b ram"
    using nc small(1) mp(2) sp(2) m4(2) room by (rule metadata_bytes)
  have one: "u_mul p nc 1 = Ret nc" using nc P by (simp add: u_mul_ok)
  show ?thesis
    unfolding Memory_new_def InitialAlloc_new_def fresh_memory_def
    using sz [folded nc_def] ord(1,2) st mp sp m4 a1 a2 bytes one nc
    by (simp add: PhysAddr_as_mut_slice_leak_def PhysAddr_new_def Let_def)
qed

lemma fresh_memory_ok:
  assumes lay: "layout_ok P s e a b" and m: "fresh_memory P s e m"
  shows "mem_ok m" "levels m = ilog2_nat P" "mem_tree m = BFree" "live m = {}"
proof -
  let ?D = "ilog2_nat P"
  have P: "0 < P" and e: "unat e = unat s + P * 4096" and al: "4096 dvd unat s"
    using lay by (auto simp: layout_ok_def)
  note lg = ilog2_nat_bounds [OF P] and D = layout_orders(3) [OF lay] and sz = layout_sizes(2) [OF lay]
  have cap: "2 ^ (?D + 12) \<le> P * 4096" using lg by (simp add: power_add)
  have len: "2 ^ (?D + 1) - 1 \<le> 2 * P - 1" using lg by (intro diff_le_mono) simp
  have "\<forall>j\<in>nodes 0 ?D. j < 2 * P - 1"
    using nodes_bound [of _ 0 ?D] len by fastforce
  then have "allfree (buddy_meta m) 0 ?D"
    using m unfolding fresh_memory_def by (auto intro: allfree_replicate)
  then have inv: "mem_inv m ?D BFree"
    using m D len cap e sz unat_less_32 [of e] lay
    by (simp add: mem_inv_def geom_def fresh_memory_def layout_ok_def)
  note abs = mem_inv_abs [OF inv]
  show "levels m = ?D" "mem_tree m = BFree" by (fact abs)+
  show "mem_ok m" using al m by (intro mem_okI [OF inv]) (simp add: fresh_memory_def)
  show "live m = {}" by (simp add: live_def abs)
qed

end
