(* ===== verification/Buddy_Properties.thy ===== *)
theory Buddy_Properties
  imports Buddy_Init
begin

text \<open>
  The properties of the memory management subsystem, each with a witness on a small memory of
  four pages (\<open>memory4\<close>), as \<open>Memory_new\<close> sets it up at a page-aligned address.
\<close>

section \<open>A memory of four pages\<close>

definition memory4 :: Memory where
  "memory4 =
     \<lparr>m_start = PhysAddr 0x80400000 None, m_end = PhysAddr 0x80404000 None, mem_size = 0x4000,
      buddy_node_count = 7, buddy_high_order = 14, buddy_low_order = 12, buddy_stack_size = 28,
      buddy_stack = [0, 0, 0], buddy_meta = [Free, Free, Free, Free, Free, Free, Free]\<rparr>"

text \<open>The same memory with its second page allocated, after the allocation of two pages.\<close>

definition memory4_one :: Memory where
  "memory4_one = memory4\<lparr>buddy_stack := [2, 4, 3],
     buddy_meta := [Split, Split, Free, Allocated, Free, Free, Free]\<rparr>"

definition memory4_full :: Memory where
  "memory4_full = memory4\<lparr>buddy_meta := [Allocated, Free, Free, Free, Free, Free, Free]\<rparr>"

lemma memory4_start [simp]: "m_start memory4 = PhysAddr 0x80400000 None"
    "m_start memory4_one = PhysAddr 0x80400000 None" "m_start memory4_full = PhysAddr 0x80400000 None"
  by (simp_all add: memory4_def memory4_one_def memory4_full_def)

lemma layout4: "layout_ok 4 0x80400000 0x80404000 0x80300000 0x80380000"
  by (simp add: layout_ok_def)

lemma ilog2_nat_4: "ilog2_nat 4 = 2"
  using ilog2_nat_power [of 2] by simp

lemma fresh_memory4: "fresh_memory 4 0x80400000 0x80404000 memory4"
proof -
  have "replicate 3 (0::usize) = [0, 0, 0]" "replicate 7 Free = [Free, Free, Free, Free, Free, Free, Free]"
    by code_simp+
  then show ?thesis by (simp add: fresh_memory_def memory4_def ilog2_nat_4)
qed

lemma memory4_ok [simp]: "mem_ok memory4" "levels memory4 = 2" "mem_tree memory4 = BFree"
    "live memory4 = {}"
  using fresh_memory_ok [OF layout4 fresh_memory4] by (simp_all add: ilog2_nat_4)

lemma memory4_capacity [simp]: "capacity memory4 = 16384"
  by (simp add: capacity_def)

lemma alloc4_page: "Memory_buddy_alloc Release memory4 5 =
    Ret (Ok (PhysAddr 0x80400000 (Some 4096)), memory4_one)"
  by code_simp

lemma alloc4_all: "Memory_buddy_alloc Release memory4 16384 =
    Ret (Ok (PhysAddr 0x80400000 (Some 16384)), memory4_full)"
  by code_simp


lemma memory4_one_ok [simp]: "mem_ok memory4_one" "live memory4_one = {(0x80400000, 12)}"
    "capacity memory4_one = 16384"
proof -
  from buddy.alloc_Ok [OF memory4_ok(1) _ _ alloc4_page]
  obtain k where k: "Some 4096 = Some ((2::usize) ^ k)" "k < 32" "mem_ok memory4_one"
      "live memory4_one = {(0x80400000, k)}" "capacity memory4_one = 16384"
    by auto
  have "k = 12" using k(1,2) pow2_usize_inj [of k 12] by simp
  with k show "mem_ok memory4_one" "live memory4_one = {(0x80400000, 12)}"
    "capacity memory4_one = 16384" by auto
qed


lemma memory4_full_ok [simp]: "mem_ok memory4_full" "live memory4_full = {(0x80400000, 14)}"
    "capacity memory4_full = 16384"
proof -
  from buddy.alloc_Ok [OF memory4_ok(1) _ _ alloc4_all]
  obtain k where k: "Some 16384 = Some ((2::usize) ^ k)" "k < 32" "mem_ok memory4_full"
      "live memory4_full = {(0x80400000, k)}" "capacity memory4_full = 16384"
    by auto
  have "k = 14" using k(1,2) pow2_usize_inj [of k 14] by simp
  with k show "mem_ok memory4_full" "live memory4_full = {(0x80400000, 14)}"
    "capacity memory4_full = 16384" by auto
qed


section \<open>Allocation\<close>

text \<open>
  C1. On an allocator in a consistent state, a request of between 1 byte and the managed capacity
  always returns, in both build profiles: no arithmetic overflow, no out-of-bounds access to the
  metadata or to the search stack, no endless search. On success the block is at least as large as
  the request (and less than twice as large unless it is one page), page-aligned, inside the
  managed memory, disjoint from every live block, and it is the only change to the set of live
  blocks. On failure the error is \<open>OutOfMemory\<close> and the block states are unchanged.
\<close>

theorem buddy_alloc_correct:
  assumes "mem_ok m" "n \<noteq> 0" "unat n \<le> capacity m"
  shows "case Memory_buddy_alloc p m n of
      Ret (Ok a, m') \<Rightarrow>
        mem_ok m' \<and> capacity m' = capacity m \<and>
        (\<exists>k. pa_size a = Some (2 ^ k) \<and> unat n \<le> 2 ^ k \<and> (k = 12 \<or> 2 ^ k < 2 * unat n) \<and>
          4096 dvd unat (pa_addr a) \<and>
          extent (unat (pa_addr a), k) \<subseteq> extent (unat (pa_addr (m_start m)), levels m + 12) \<and>
          (\<forall>b\<in>live m. extent b \<inter> extent (unat (pa_addr a), k) = {}) \<and>
          live m' = insert (unat (pa_addr a), k) (live m))
    | Ret (Err e, m') \<Rightarrow>
        e = OutOfMemory \<and> mem_ok m' \<and> buddy_meta m' = buddy_meta m \<and> live m' = live m
    | _ \<Rightarrow> False"
proof -
  let ?D = "levels m" and ?j = "order_of n" and ?k = "levels m + 12 - order_of n"
  have n: "unat n \<le> 2 ^ (?D + 12)" using assms(3) by (simp add: capacity_def)
  note j = order_of_bounds [OF n]
  have jj: "?D + 12 - ?k = ?j" "?k \<le> ?D" using j by auto
  from buddy_alloc_cases [OF assms, of p] show ?thesis
  proof (elim disjE exE conjE)
    fix m' stk
    assume "Memory_buddy_alloc p m n = Ret (Err OutOfMemory, m')"
      "length stk = length (buddy_stack m)" "m' = m\<lparr>buddy_stack := stk\<rparr>"
    then show ?thesis using stack_irrelevant [OF assms(1)] by auto
  next
    fix q t' m'
    assume t': "talloc ?k (mem_tree m) = Some (q, t')"
      and r: "Memory_buddy_alloc p m n = Ret (Ok (block_addr m ?D ?k q), m')"
      and m': "mem_inv m' ?D t'" "m_start m' = m_start m"
    let ?a = "unat (block_of m ?D ?k q)"
    note l = live_alloc [OF assms(1) jj(2) t' m', unfolded jj(1)]
    have new: "(?a, ?j) \<in> live m'" using l(3) by simp
    have "extent (?a, ?j) \<subseteq> extent (unat (pa_addr (m_start m)), ?D + 12)"
      using blocks_extent [OF new [unfolded live_def]] mem_inv_abs(1) [OF m'(1)] m'(2) by simp
    moreover have "\<forall>b\<in>live m. extent b \<inter> extent (?a, ?j) = {}"
      using buddy.live_apart [OF l(1)] l(3,4) by blast
    moreover have "4096 dvd ?a" using live_facts(2) [OF l(1) new] .
    moreover have "?j = 12 \<or> 2 ^ ?j < 2 * unat n" by (rule order_of_tight [OF assms(2)])
    ultimately show ?thesis using r l j(3) by (auto simp: block_addr_def jj(1))
  qed
qed

theorem buddy_alloc_correct_witness:
  "mem_ok memory4 \<and> Memory_buddy_alloc Release memory4 5 =
     Ret (Ok (PhysAddr 0x80400000 (Some 4096)), memory4_one) \<and>
   live memory4_one = insert (0x80400000, 12) (live memory4)"
  using buddy_alloc_correct [of memory4 5 Release] alloc4_page by simp

text \<open>
  C2. The array-based search refines the abstract allocation on trees of blocks: the result, the
  address and the new state are those of \<open>talloc\<close> at the level of the rounded-up size, on the tree
  that the block states represent.
\<close>

theorem buddy_alloc_refines:
  assumes "mem_ok m" "n \<noteq> 0" "unat n \<le> capacity m"
  shows "case talloc (levels m + 12 - order_of n) (mem_tree m) of
      None \<Rightarrow> \<exists>m'. Memory_buddy_alloc p m n = Ret (Err OutOfMemory, m') \<and> mem_tree m' = mem_tree m
    | Some (q, t') \<Rightarrow>
        \<exists>m'. Memory_buddy_alloc p m n =
            Ret (Ok (PhysAddr (pa_addr (m_start m) + of_nat (q * 2 ^ order_of n))
              (Some (2 ^ order_of n))), m') \<and> mem_tree m' = t'"
proof -
  let ?D = "levels m" and ?j = "order_of n"
  have n: "unat n \<le> 2 ^ (?D + 12)" using assms(3) by (simp add: capacity_def)
  then have jj: "?D + 12 - (?D + 12 - ?j) = ?j" using order_of_bounds [OF n] by simp
  from buddy_alloc_cases [OF assms, of p] show ?thesis
  proof (elim disjE exE conjE)
    fix m' stk
    assume "Memory_buddy_alloc p m n = Ret (Err OutOfMemory, m')" "m' = m\<lparr>buddy_stack := stk\<rparr>"
      "\<not> has_free (?D + 12 - ?j) (mem_tree m)"
    then show ?thesis by (auto simp: mem_tree_def levels_def simp flip: talloc_None_iff)
  next
    fix q t' m'
    assume "talloc (?D + 12 - ?j) (mem_tree m) = Some (q, t')"
      "Memory_buddy_alloc p m n = Ret (Ok (block_addr m ?D (?D + 12 - ?j) q), m')"
      "mem_inv m' ?D t'"
    then show ?thesis using mem_inv_abs(2) by (auto simp: block_addr_def block_of_def jj)
  qed
qed

theorem buddy_alloc_refines_witness:
  "\<exists>m'. Memory_buddy_alloc Dev memory4 8192 =
     Ret (Ok (PhysAddr 0x80400000 (Some 8192)), m') \<and> mem_tree m' = BSplit BAlloc BFree"
proof -
  have "order_of 8192 = 13" using ceil_log2_power [of 13] by (simp add: order_of_def)
  then show ?thesis using buddy_alloc_refines [of memory4 8192 Dev] by simp
qed

text \<open>
  C3. Allocation is complete: when a request fails, every aligned block of the size it was rounded
  up to overlaps a live block. No free block is lost to fragmentation of the metadata.
\<close>

theorem buddy_alloc_complete:
  assumes "mem_ok m" "n \<noteq> 0" "unat n \<le> capacity m"
    and "Memory_buddy_alloc p m n = Ret (Err e, m')"
    and "(q + 1) * 2 ^ order_of n \<le> capacity m"
  shows "\<exists>b\<in>live m. extent b \<inter> extent (unat (pa_addr (m_start m)) + q * 2 ^ order_of n, order_of n) \<noteq> {}"
  using assms by (rule alloc_fails_full)

lemma alloc4_full_fails: "Memory_buddy_alloc Release memory4_full 1 = Ret (Err OutOfMemory, memory4_full)"
  by code_simp

lemma order_of_1: "order_of 1 = 12"
  by (simp add: order_of_def ceil_log2_def)

theorem buddy_alloc_complete_witness:
  "Memory_buddy_alloc Release memory4_full 1 = Ret (Err OutOfMemory, memory4_full) \<and>
   (\<exists>b\<in>live memory4_full. extent b \<inter> extent (0x80403000, 12) \<noteq> {})"
  using buddy_alloc_complete [of memory4_full 1 Release OutOfMemory memory4_full 3]
    alloc4_full_fails order_of_1
  by simp


section \<open>Release\<close>

text \<open>
  C4. Releasing a live block that is smaller than the whole memory always returns, in both
  profiles, and removes exactly that block from the live ones; the state stays consistent (the
  buddies that became free are merged) and the search stack is not touched.
\<close>

theorem buddy_free_correct:
  assumes "mem_ok m" "(unat a, k) \<in> live m" "2 ^ k < capacity m"
  shows "\<exists>m'. Memory_buddy_free p m (PhysAddr a (Some (2 ^ k))) = Ret m' \<and> mem_ok m' \<and>
    live m' = live m - {(unat a, k)} \<and> capacity m' = capacity m \<and> buddy_stack m' = buddy_stack m"
  using buddy_free_live [OF assms] by blast

theorem buddy_free_correct_witness:
  "\<exists>m'. Memory_buddy_free Release memory4_one (PhysAddr 0x80400000 (Some 4096)) = Ret m' \<and>
     mem_ok m' \<and> live m' = {}"
  using buddy_free_correct [of memory4_one "0x80400000" 12 Release] by auto



text \<open>
  C6. No sequence of allocations that fit the memory, interleaved with releases of blocks that are
  live at that point, ever panics or hangs, and the state is consistent at the end.
\<close>

theorem buddy_requests_safe:
  assumes "mem_ok m"
    and "admissible (Memory_buddy_alloc p) (Memory_buddy_free p) live capacity m rs"
  shows "\<exists>m'. serve_all (Memory_buddy_alloc p) (Memory_buddy_free p) m rs = Ret m' \<and> mem_ok m'"
  using assms by (rule buddy.serve_all_safe)

theorem buddy_requests_safe_witness:
  "\<exists>m'. serve_all (Memory_buddy_alloc Release) (Memory_buddy_free Release) memory4
       [ReqAlloc 5, ReqFree 0x80400000 12] = Ret m' \<and> mem_ok m'"
proof -
  obtain m' where "Memory_buddy_free Release memory4_one (PhysAddr 0x80400000 (Some (2 ^ 12))) = Ret m'"
    using buddy_free_live [of memory4_one "0x80400000" 12 Release] by auto
  then have "admissible (Memory_buddy_alloc Release) (Memory_buddy_free Release) live capacity memory4
      [ReqAlloc 5, ReqFree 0x80400000 12]"
    by (simp add: alloc4_page)
  then show ?thesis by (rule buddy_requests_safe [OF memory4_ok(1)])
qed




text \<open>
  C8. Releasing a block that spans the whole memory (of at least two pages) panics in both
  profiles, although the block is live: the root of the tree has no buddy, and the code computes
  one for it before it tests for the root.
\<close>

theorem buddy_free_root_panics:
  assumes "mem_ok m" "(unat a, k) \<in> live m" "2 ^ k = capacity m" "12 < k"
  shows "Memory_buddy_free p m (PhysAddr a (Some (2 ^ k))) =
    Panic (if p = Dev then Overflow else OutOfBounds)"
  using assms by (rule free_whole)

theorem buddy_free_root_panics_witness:
  "(0x80400000, 14) \<in> live memory4_full \<and>
   Memory_buddy_free Release memory4_full (PhysAddr 0x80400000 (Some 16384)) = Panic OutOfBounds"
  using buddy_free_root_panics [of memory4_full "0x80400000" 14 Release] by simp


section \<open>Set-up\<close>

text \<open>
  C9. On a layout whose reserved region has room for the metadata, \<open>Memory_new\<close> returns in both
  profiles: it writes one \<open>Free\<close> state per node and zeroes the rest of the region, touches no other
  byte, and sets up an allocator in a consistent state with nothing live, whose capacity is the
  largest power of two that fits the memory.
\<close>

theorem Memory_new_correct:
  assumes "layout_ok P s e a b"
  shows "\<exists>m. Memory_new p ram (Some s) (Some e) (Some a) (Some b) =
      Ret (m, \<lambda>x. if unat (x - a) < 2 * P - 1 then BlockState_as_u8 Free
                  else if x - a < b - a then 0 else ram x) \<and>
    mem_ok m \<and> live m = {} \<and> capacity m \<le> P * 4096 \<and> P * 4096 < 2 * capacity m \<and>
    unat (buddy_node_count m) = 2 * P - 1 \<and> mem_size m = e - s"
proof -
  obtain m where m: "Memory_new p ram (Some s) (Some e) (Some a) (Some b) =
      Ret (m, metadata_written P a b ram)" "fresh_memory P s e m"
    using Memory_new_ok [OF assms] by blast
  note ok = fresh_memory_ok [OF assms m(2)]
  have "0 < P" using assms by (simp add: layout_ok_def)
  then have "capacity m \<le> P * 4096 \<and> P * 4096 < 2 * capacity m"
    using ilog2_nat_bounds [of P] by (simp add: capacity_def ok(2) power_add)
  then show ?thesis
    using m ok by (auto simp: metadata_written_def fresh_memory_def intro!: exI [of _ m] ext)
qed

text \<open>The layout that \<open>kernel.ld\<close> asks for: 512 KB for the allocator and 64 MB of memory.\<close>

lemma layout64: "layout_ok 16384 0x80290000 0x84290000 0x80210000 0x80290000"
  by (simp add: layout_ok_def)

theorem Memory_new_correct_witness:
  "\<exists>m ram. Memory_new Release (\<lambda>_. 0) (Some 0x80290000) (Some 0x84290000) (Some 0x80210000)
      (Some 0x80290000) = Ret (m, ram) \<and> mem_ok m \<and> live m = {} \<and> mem_size m = 0x4000000"
  using Memory_new_correct [OF layout64, of Release "\<lambda>_. 0"] by auto




section \<open>Sizes\<close>

text \<open>
  C11. \<open>next_power_of_two\<close> returns the least power of two that is not below its argument (the
  argument itself when it is one), for every argument up to \<open>2 ^ 31\<close>, and \<open>None\<close> for arguments
  with no such power in 32 bits. It never overflows.
\<close>

theorem next_power_of_two_correct:
  "case next_power_of_two p n of
     Ret (Some r) \<Rightarrow> unat n \<le> unat r \<and> (\<exists>k. unat r = 2 ^ k) \<and>
       (\<forall>k. unat n \<le> 2 ^ k \<longrightarrow> unat r \<le> 2 ^ k)
   | Ret None \<Rightarrow> 2 ^ 31 < unat n
   | _ \<Rightarrow> False"
proof -
  consider "n = 0" | "2 ^ 31 < unat n" | "n \<noteq> 0" "unat n \<le> 2 ^ 31" by linarith
  then show ?thesis
  proof cases
    case 1
    then show ?thesis by (auto simp: next_power_of_two_def intro: exI [of _ 0])
  next
    case 2
    then show ?thesis using next_power_of_two_None [of n p] by simp
  next
    case n: 3
    have "ceil_log2 (unat n) \<le> 31" using n(2) by (rule ceil_log2_least)
    then have u: "unat (2 ^ ceil_log2 (unat n) :: usize) = 2 ^ ceil_log2 (unat n)"
      by (intro unat_pow2) simp
    have "\<forall>k. unat n \<le> 2 ^ k \<longrightarrow> (2::nat) ^ ceil_log2 (unat n) \<le> 2 ^ k"
      by (auto intro!: power_increasing ceil_log2_least)
    then show ?thesis using next_power_of_two_eq [OF n, of p] u ceil_log2_ge by auto
  qed
qed

theorem next_power_of_two_correct_witness:
  "\<exists>r. next_power_of_two Release 5 = Ret (Some r) \<and> 5 \<le> unat r \<and> unat r \<le> 2 ^ 3"
proof -
  have "next_power_of_two Release 5 = Ret (Some 8)" by code_simp
  then show ?thesis using next_power_of_two_correct [of 5 Release] by auto
qed






end
