(* ===== verification/Sync.thy ===== *)
theory Sync
  imports Prelude
begin

text \<open>
  The synchronisation primitives of \<open>src/rust/src/sync.rs\<close>: \<open>Once\<close>, \<open>OnceCell\<close> and the spinning
  \<open>Mutex\<close> with its guard. This theory has the operations as one execution context runs them when
  no other context interferes: a spin loop on a value that only another context could change
  never ends. The interleaving of several contexts is in \<open>Sync_Steps\<close>.
\<close>

type_synonym u8 = "8 word"

section \<open>Atomic bytes\<close>

text \<open>\<open>AtomicU8::compare_exchange\<close>: the result and the new contents.\<close>

definition compare_exchange :: "u8 \<Rightarrow> u8 \<Rightarrow> u8 \<Rightarrow> (u8, u8) Result \<times> u8" where
  "compare_exchange v current new = (if v = current then (Ok v, new) else (Err v, v))"

fun is_ok :: "('a, 'e) Result \<Rightarrow> bool" where
  "is_ok (Ok a) = True"
| "is_ok (Err e) = False"

lemma compare_exchange_simps [simp]:
  "compare_exchange v v new = (Ok v, new)"
  "v \<noteq> current \<Longrightarrow> compare_exchange v current new = (Err v, v)"
  by (simp_all add: compare_exchange_def)


section \<open>\<open>Once\<close>\<close>

datatype OnceState = Incomplete | InProgress | Completed

fun OnceState_as_u8 :: "OnceState \<Rightarrow> u8" where
  "OnceState_as_u8 Incomplete = 0"
| "OnceState_as_u8 InProgress = 1"
| "OnceState_as_u8 Completed = 2"

record Once =
  state :: u8

definition Once_new :: Once where
  "Once_new = \<lparr>state = OnceState_as_u8 Incomplete\<rparr>"

definition is_complete :: "Once \<Rightarrow> bool" where
  "is_complete self \<longleftrightarrow> state self = OnceState_as_u8 Completed"

text \<open>
  \<open>call_once\<close> runs the closure \<open>f\<close> on the state \<open>w\<close> of the rest of the kernel. While it runs, the
  state is \<open>InProgress\<close>; a panic of the closure leaves it so.
\<close>

definition call_once :: "Once \<Rightarrow> ('w \<Rightarrow> 'w outcome) \<Rightarrow> 'w \<Rightarrow> (Once \<times> 'w) outcome" where
  "call_once self f w =
     (if is_complete self then Ret (self, w)
      else
        case compare_exchange (state self) (OnceState_as_u8 Incomplete) (OnceState_as_u8 InProgress) of
          (r, s) \<Rightarrow>
            let self = self\<lparr>state := s\<rparr> in
            if is_ok r then
              obind (f w) (\<lambda>w. Ret (self\<lparr>state := OnceState_as_u8 Completed\<rparr>, w))
            else
              loop (\<lambda>self. if \<not> is_complete self then Ret (Inl self) else Ret (Inr (self, w))) self)"


section \<open>\<open>OnceCell\<close>\<close>

record 'a OnceCell =
  once :: Once
  oc_value :: "'a option"

definition OnceCell_new :: "'a OnceCell" where
  "OnceCell_new = \<lparr>once = Once_new, oc_value = None\<rparr>"

fun unwrap_some :: "'a option \<Rightarrow> 'a outcome" where
  "unwrap_some (Some a) = Ret a"
| "unwrap_some None = Panic UnwrapNone"

text \<open>
  \<open>get_or_init\<close> returns a reference into the cell; the model returns the value it refers to, and a
  caller that changes it through interior mutability writes it back with \<open>OnceCell_store\<close>.
\<close>

definition get_or_init ::
    "'a OnceCell \<Rightarrow> ('w \<Rightarrow> ('a \<times> 'w) outcome) \<Rightarrow> 'w \<Rightarrow> ('a \<times> 'a OnceCell \<times> 'w) outcome" where
  "get_or_init self f w =
     obind (call_once (once self)
       (\<lambda>(v, w). obind (f w) (\<lambda>(a, w). Ret (Some a, w))) (oc_value self, w)) (\<lambda>(o1, v, w).
     obind (unwrap_some v) (\<lambda>a.
     Ret (a, self\<lparr>once := o1, oc_value := v\<rparr>, w)))"

definition OnceCell_store :: "'a OnceCell \<Rightarrow> 'a \<Rightarrow> 'a OnceCell" where
  "OnceCell_store self a = self\<lparr>oc_value := Some a\<rparr>"


section \<open>\<open>Mutex\<close>\<close>

datatype MutexState = Unlocked | Locked

fun MutexState_as_u8 :: "MutexState \<Rightarrow> u8" where
  "MutexState_as_u8 Unlocked = 0"
| "MutexState_as_u8 Locked = 1"

record 'a Mutex =
  lock :: u8
  data :: 'a

definition Mutex_new :: "'a \<Rightarrow> 'a Mutex" where
  "Mutex_new d = \<lparr>lock = MutexState_as_u8 Unlocked, data = d\<rparr>"

text \<open>One attempt of the spin loop of \<open>lock\<close>, and the loop.\<close>

definition try_lock :: "'a Mutex \<Rightarrow> (u8, u8) Result \<times> 'a Mutex" where
  "try_lock self =
     (case compare_exchange (lock self) (MutexState_as_u8 Unlocked) (MutexState_as_u8 Locked) of
        (r, l) \<Rightarrow> (r, self\<lparr>lock := l\<rparr>))"

definition Mutex_lock :: "'a Mutex \<Rightarrow> 'a Mutex outcome" where
  "Mutex_lock self =
     loop (\<lambda>self. case try_lock self of
        (r, self) \<Rightarrow> if \<not> is_ok r then Ret (Inl self) else Ret (Inr self)) self"

text \<open>A guard is a reference to the mutex; dropping it stores \<open>Free\<close> into the lock.\<close>

definition guard_deref :: "'a Mutex \<Rightarrow> 'a" where
  "guard_deref g = data g"

definition guard_deref_mut :: "'a Mutex \<Rightarrow> 'a \<Rightarrow> 'a Mutex" where
  "guard_deref_mut g d = g\<lparr>data := d\<rparr>"

definition guard_drop :: "'a Mutex \<Rightarrow> 'a Mutex" where
  "guard_drop g = g\<lparr>lock := MutexState_as_u8 Unlocked\<rparr>"


section \<open>Facts about uncontended use\<close>

lemma loop_spin:
  assumes "body s = Ret (Inl s)"
  shows "loop body s = Hang"
proof -
  have "loop_opt body s = Some r \<Longrightarrow> body s \<noteq> Ret (Inl s)" for r
    by (rule loop_opt.raw_induct [where P = "\<lambda>body s r. body s \<noteq> Ret (Inl s)"])
      (auto split: outcome.splits sum.splits)
  with assms show ?thesis by (cases "loop_opt body s") (auto simp: loop_def)
qed

definition completed :: "'a OnceCell \<Rightarrow> 'a \<Rightarrow> bool" where
  "completed c a \<longleftrightarrow> is_complete (once c) \<and> oc_value c = Some a"

lemma get_or_init_completed:
  "completed c a \<Longrightarrow> get_or_init c f w = Ret (a, c, w)"
  by (simp add: completed_def get_or_init_def call_once_def)

lemma get_or_init_new:
  "get_or_init OnceCell_new f w = obind (f w) (\<lambda>(a, w). Ret (a, \<lparr>once = \<lparr>state = 2\<rparr>, oc_value = Some a\<rparr>, w))"
  by (cases "f w")
    (auto simp: get_or_init_def call_once_def OnceCell_new_def Once_new_def is_complete_def)

lemma completed_new: "completed \<lparr>once = \<lparr>state = 2\<rparr>, oc_value = Some a\<rparr> a"
  by (simp add: completed_def is_complete_def)

lemma completed_store: "completed c a \<Longrightarrow> completed (OnceCell_store c b) b"
  by (simp add: completed_def OnceCell_store_def)

text \<open>An initialisation that is in progress elsewhere, or that panicked, blocks every later call.\<close>

lemma get_or_init_in_progress:
  assumes "state (once c) = OnceState_as_u8 InProgress"
  shows "get_or_init c f w = Hang"
proof -
  have "loop (\<lambda>self. if \<not> is_complete self then Ret (Inl self) else Ret (Inr (self, oc_value c, w)))
      (once c\<lparr>state := 1\<rparr>) = Hang"
    by (intro loop_spin) (simp add: is_complete_def)
  with assms show ?thesis by (simp add: get_or_init_def call_once_def is_complete_def)
qed

lemma Mutex_lock_free:
  "lock m = 0 \<Longrightarrow> Mutex_lock m = Ret (m\<lparr>lock := 1\<rparr>)"
  unfolding Mutex_lock_def by (rule loop_exit) (simp add: try_lock_def)

text \<open>Locking a mutex that this context holds already never returns.\<close>

lemma Mutex_lock_held:
  "lock m \<noteq> 0 \<Longrightarrow> Mutex_lock m = Hang"
  unfolding Mutex_lock_def by (rule loop_spin) (simp add: try_lock_def)

end
