(* ===== verification/Sync_Steps.thy ===== *)
theory Sync_Steps
  imports Sync
begin

text \<open>
  Several execution contexts that share a static \<open>OnceCell<Mutex<T>>\<close>, the way the kernel's globals
  are used: each context runs \<open>CELL.get_or_init(f).lock().op()\<close> and drops the guard. A step is one
  access of a context to the shared memory (an atomic operation, or a read or write of the cell's
  value or of the protected data), so the steps of the contexts interleave in every order. The
  memory is sequentially consistent; the ordering arguments of the atomics are not modelled.
\<close>

section \<open>The system\<close>

text \<open>Where a context stands: before the access the constructor names.\<close>

datatype 'd pc =
    Check            \<comment> \<open>\<open>is_complete\<close> at the start of \<open>call_once\<close>\<close>
  | TryInit          \<comment> \<open>the \<open>compare_exchange\<close> of \<open>call_once\<close>\<close>
  | RunInit          \<comment> \<open>the exchange succeeded: run the closure\<close>
  | WriteInit 'd     \<comment> \<open>write \<open>Some(f())\<close> into the cell\<close>
  | Publish          \<comment> \<open>store \<open>Completed\<close>\<close>
  | SpinInit         \<comment> \<open>wait for the other context's initialisation\<close>
  | Deref            \<comment> \<open>\<open>as_ref().unwrap()\<close>\<close>
  | TryLock          \<comment> \<open>the \<open>compare_exchange\<close> of \<open>lock\<close>\<close>
  | ReadData         \<comment> \<open>holding the guard: read the data and compute\<close>
  | WriteData 'd     \<comment> \<open>write the result back\<close>
  | Unlock           \<comment> \<open>drop the guard\<close>
  | Finished
  | Halted           \<comment> \<open>the closure or the operation panicked or hung\<close>

text \<open>\<open>runs\<close> and \<open>log\<close> record who ran the closure and who wrote the data, in order.\<close>

record 'd system =
  cell :: "'d Mutex OnceCell"
  pc :: "nat \<Rightarrow> 'd pc"
  runs :: "nat list"
  log :: "nat list"

definition goto :: "nat \<Rightarrow> 'd pc \<Rightarrow> 'd system \<Rightarrow> 'd system" where
  "goto t q s = s\<lparr>pc := (pc s)(t := q)\<rparr>"

definition set_state :: "u8 \<Rightarrow> 'd system \<Rightarrow> 'd system" where
  "set_state v s = s\<lparr>cell := (cell s)\<lparr>once := (once (cell s))\<lparr>state := v\<rparr>\<rparr>\<rparr>"

definition set_mutex :: "'d Mutex \<Rightarrow> 'd system \<Rightarrow> 'd system" where
  "set_mutex m s = s\<lparr>cell := OnceCell_store (cell s) m\<rparr>"

definition once_step :: "(nat \<Rightarrow> 'd outcome) \<Rightarrow> nat \<Rightarrow> 'd system \<Rightarrow> 'd system option" where
  "once_step f t s =
     (case pc s t of
        Check \<Rightarrow> Some (goto t (if is_complete (once (cell s)) then Deref else TryInit) s)
      | TryInit \<Rightarrow>
          (case compare_exchange (state (once (cell s))) (OnceState_as_u8 Incomplete)
              (OnceState_as_u8 InProgress) of
             (r, v) \<Rightarrow>
               Some (if is_ok r then goto t RunInit (set_state v (s\<lparr>runs := runs s @ [t]\<rparr>))
                     else goto t SpinInit (set_state v s)))
      | RunInit \<Rightarrow> Some (case f t of Ret d \<Rightarrow> goto t (WriteInit d) s | _ \<Rightarrow> goto t Halted s)
      | WriteInit d \<Rightarrow> Some (goto t Publish (set_mutex (Mutex_new d) s))
      | Publish \<Rightarrow> Some (goto t Deref (set_state (OnceState_as_u8 Completed) s))
      | SpinInit \<Rightarrow> Some (if is_complete (once (cell s)) then goto t Deref s else s)
      | Deref \<Rightarrow>
          Some (case unwrap_some (oc_value (cell s)) of Ret _ \<Rightarrow> goto t TryLock s | _ \<Rightarrow> goto t Halted s)
      | _ \<Rightarrow> None)"

definition mutex_step :: "(nat \<Rightarrow> 'd \<Rightarrow> 'd outcome) \<Rightarrow> nat \<Rightarrow> 'd system \<Rightarrow> 'd system option" where
  "mutex_step op t s =
     (case oc_value (cell s) of
        None \<Rightarrow> None
      | Some m \<Rightarrow>
        (case pc s t of
           TryLock \<Rightarrow>
             (case try_lock m of
                (r, m') \<Rightarrow> Some (if is_ok r then goto t ReadData (set_mutex m' s) else set_mutex m' s))
         | ReadData \<Rightarrow>
             Some (case op t (guard_deref m) of Ret d \<Rightarrow> goto t (WriteData d) s | _ \<Rightarrow> goto t Halted s)
         | WriteData d \<Rightarrow>
             Some (goto t Unlock (set_mutex (guard_deref_mut m d) (s\<lparr>log := log s @ [t]\<rparr>)))
         | Unlock \<Rightarrow> Some (goto t Finished (set_mutex (guard_drop m) s))
         | _ \<Rightarrow> None))"

definition moves ::
    "(nat \<Rightarrow> 'd outcome) \<Rightarrow> (nat \<Rightarrow> 'd \<Rightarrow> 'd outcome) \<Rightarrow> nat \<Rightarrow> 'd system \<Rightarrow> 'd system \<Rightarrow> bool" where
  "moves f op t s s' \<longleftrightarrow> once_step f t s = Some s' \<or> mutex_step op t s = Some s'"

inductive step ::
    "(nat \<Rightarrow> 'd outcome) \<Rightarrow> (nat \<Rightarrow> 'd \<Rightarrow> 'd outcome) \<Rightarrow> nat \<Rightarrow> 'd system \<Rightarrow> 'd system \<Rightarrow> bool"
  for f op n where
  context_moves: "t < n \<Longrightarrow> moves f op t s s' \<Longrightarrow> step f op n s s'"

definition start :: "'d system" where
  "start = \<lparr>cell = OnceCell_new, pc = (\<lambda>_. Check), runs = [], log = []\<rparr>"

inductive reachable ::
    "(nat \<Rightarrow> 'd outcome) \<Rightarrow> (nat \<Rightarrow> 'd \<Rightarrow> 'd outcome) \<Rightarrow> nat \<Rightarrow> 'd system \<Rightarrow> bool"
  for f op n where
  init: "reachable f op n start"
| next_state: "reachable f op n s \<Longrightarrow> step f op n s s' \<Longrightarrow> reachable f op n s'"


section \<open>Who is where\<close>

fun initialising :: "'d pc \<Rightarrow> bool" where
  "initialising RunInit = True"
| "initialising (WriteInit d) = True"
| "initialising Publish = True"
| "initialising _ = False"

fun holding :: "'d pc \<Rightarrow> bool" where
  "holding ReadData = True"
| "holding (WriteData d) = True"
| "holding Unlock = True"
| "holding _ = False"

fun past_init :: "'d pc \<Rightarrow> bool" where
  "past_init Deref = True"
| "past_init TryLock = True"
| "past_init ReadData = True"
| "past_init (WriteData d) = True"
| "past_init Unlock = True"
| "past_init Finished = True"
| "past_init _ = False"

lemma holding_past_init: "holding q \<Longrightarrow> past_init q"
  by (cases q) auto

lemmas system_defs = goto_def set_state_def set_mutex_def OnceCell_store_def

text \<open>A step of context \<open>t\<close>, by cases.\<close>

lemma moves_cases [consumes 1]:
  assumes "moves f op t s s'"
  obtains
    (check) "pc s t = Check"
      "s' = goto t (if state (once (cell s)) = 2 then Deref else TryInit) s"
  | (win) "pc s t = TryInit" "state (once (cell s)) = 0"
      "s' = goto t RunInit (set_state 1 (s\<lparr>runs := runs s @ [t]\<rparr>))"
  | (lose) "pc s t = TryInit" "state (once (cell s)) \<noteq> 0" "s' = goto t SpinInit s"
  | (run) d where "pc s t = RunInit" "f t = Ret d" "s' = goto t (WriteInit d) s"
  | (fail) "pc s t = RunInit" "\<nexists>d. f t = Ret d" "s' = goto t Halted s"
  | (init) d where "pc s t = WriteInit d"
      "s' = goto t Publish (set_mutex (Mutex_new d) s)"
  | (publish) "pc s t = Publish" "s' = goto t Deref (set_state 2 s)"
  | (wait) "pc s t = SpinInit" "state (once (cell s)) \<noteq> 2" "s' = s"
  | (wake) "pc s t = SpinInit" "state (once (cell s)) = 2" "s' = goto t Deref s"
  | (deref) m where "pc s t = Deref" "oc_value (cell s) = Some m" "s' = goto t TryLock s"
  | (deref_none) "pc s t = Deref" "oc_value (cell s) = None" "s' = goto t Halted s"
  | (lock) m where "pc s t = TryLock" "oc_value (cell s) = Some m" "lock m = 0"
      "s' = goto t ReadData (set_mutex (m\<lparr>lock := 1\<rparr>) s)"
  | (spin) m where "pc s t = TryLock" "oc_value (cell s) = Some m" "lock m \<noteq> 0" "s' = s"
  | (read) m d where "pc s t = ReadData" "oc_value (cell s) = Some m" "op t (data m) = Ret d"
      "s' = goto t (WriteData d) s"
  | (crash) m where "pc s t = ReadData" "oc_value (cell s) = Some m"
      "\<nexists>d. op t (data m) = Ret d" "s' = goto t Halted s"
  | (store) m d where "pc s t = WriteData d" "oc_value (cell s) = Some m"
      "s' = goto t Unlock (set_mutex (m\<lparr>data := d\<rparr>) (s\<lparr>log := log s @ [t]\<rparr>))"
  | (unlock) m where "pc s t = Unlock" "oc_value (cell s) = Some m"
      "s' = goto t Finished (set_mutex (m\<lparr>lock := 0\<rparr>) s)"
  using assms unfolding moves_def
proof (elim disjE)
  assume once: "once_step f t s = Some s'"
  note simps = once_step_def is_complete_def compare_exchange_def
  show ?thesis
  proof (cases "pc s t")
    case Check
    with once show ?thesis by (intro check) (auto simp: simps)
  next
    case TryInit
    have "set_state (state (once (cell s))) s = s" by (simp add: set_state_def)
    with TryInit once show ?thesis
      by (cases "state (once (cell s)) = 0") (auto simp: simps intro: win lose)
  next
    case RunInit
    with once show ?thesis by (cases "f t") (auto simp: simps intro: run fail)
  next
    case SpinInit
    with once show ?thesis
      by (cases "state (once (cell s)) = 2") (auto simp: simps intro: wait wake)
  next
    case Deref
    with once show ?thesis
      by (cases "oc_value (cell s)") (auto simp: simps intro: deref deref_none)
  qed (use once in \<open>auto simp: simps intro: init publish\<close>)
next
  assume mutex: "mutex_step op t s = Some s'"
  then obtain m where m: "oc_value (cell s) = Some m"
    by (auto simp: mutex_step_def split: option.splits)
  note simps = mutex_step_def try_lock_def compare_exchange_def guard_deref_def
    guard_deref_mut_def guard_drop_def
  show ?thesis
  proof (cases "pc s t")
    case TryLock
    have "set_mutex (m\<lparr>lock := lock m\<rparr>) s = s" using m by (simp add: set_mutex_def OnceCell_store_def)
    with TryLock mutex m show ?thesis
      by (cases "lock m = 0") (auto simp: simps intro: lock spin)
  next
    case ReadData
    with mutex m show ?thesis by (cases "op t (data m)") (auto simp: simps intro: read crash)
  qed (use mutex m in \<open>auto simp: simps intro: store unlock\<close>)
qed


section \<open>Invariants\<close>

text \<open>The closure is run by at most one context, and a context past \<open>get_or_init\<close> sees the value.\<close>

definition once_inv :: "'d system \<Rightarrow> bool" where
  "once_inv s \<longleftrightarrow>
     (state (once (cell s)) = 0 \<longrightarrow> runs s = [] \<and> oc_value (cell s) = None) \<and>
     (state (once (cell s)) \<noteq> 0 \<longrightarrow> length (runs s) = 1) \<and>
     (state (once (cell s)) = 2 \<longrightarrow> oc_value (cell s) \<noteq> None) \<and>
     (\<forall>t. initialising (pc s t) \<longrightarrow> state (once (cell s)) = 1 \<and> runs s = [t] \<and>
        (oc_value (cell s) = None \<longleftrightarrow> pc s t \<noteq> Publish)) \<and>
     (\<forall>t. past_init (pc s t) \<longrightarrow> state (once (cell s)) = 2)"

definition lock_inv :: "'d system \<Rightarrow> bool" where
  "lock_inv s \<longleftrightarrow>
     (\<forall>t. holding (pc s t) \<longrightarrow> (\<exists>m. oc_value (cell s) = Some m \<and> lock m = 1)) \<and>
     (\<forall>t u. holding (pc s t) \<longrightarrow> holding (pc s u) \<longrightarrow> t = u)"

text \<open>The data is what the logged operations make of the initial value, one after the other.\<close>

fun run_log :: "(nat \<Rightarrow> 'd \<Rightarrow> 'd outcome) \<Rightarrow> nat list \<Rightarrow> 'd \<Rightarrow> 'd outcome" where
  "run_log op [] d = Ret d"
| "run_log op (t # ts) d = obind (op t d) (run_log op ts)"

lemma run_log_append: "run_log op (ts @ [t]) d = obind (run_log op ts d) (op t)"
proof (induction ts arbitrary: d)
  case Nil
  have "run_log op [] = Ret" by (simp add: fun_eq_iff)
  then show ?case by simp
next
  case (Cons u ts)
  have "run_log op (ts @ [t]) = (\<lambda>d. obind (run_log op ts d) (op t))" using Cons by (simp add: fun_eq_iff)
  then show ?case by (simp add: obind_assoc)
qed

definition data_inv :: "(nat \<Rightarrow> 'd outcome) \<Rightarrow> (nat \<Rightarrow> 'd \<Rightarrow> 'd outcome) \<Rightarrow> 'd system \<Rightarrow> bool" where
  "data_inv f op s \<longleftrightarrow>
     (\<forall>m. oc_value (cell s) = Some m \<longrightarrow>
        (\<exists>i d. runs s = [i] \<and> f i = Ret d \<and> run_log op (log s) d = Ret (data m))) \<and>
     (oc_value (cell s) = None \<longrightarrow> log s = []) \<and>
     (\<forall>t d. pc s t = WriteInit d \<longrightarrow> f t = Ret d) \<and>
     (\<forall>t d m. pc s t = WriteData d \<longrightarrow> oc_value (cell s) = Some m \<longrightarrow> op t (data m) = Ret d) \<and>
     distinct (log s) \<and> (\<forall>t. t \<in> set (log s) \<longleftrightarrow> pc s t = Unlock \<or> pc s t = Finished)"

lemma once_inv_moves:
  assumes mv: "moves f op t s s'" and "once_inv s"
  shows "once_inv s'"
proof -
  have st0: "state (once (cell s)) = 0 \<Longrightarrow> runs s = [] \<and> oc_value (cell s) = None"
    and st1: "state (once (cell s)) \<noteq> 0 \<Longrightarrow> length (runs s) = 1"
    and st2: "state (once (cell s)) = 2 \<Longrightarrow> oc_value (cell s) \<noteq> None"
    and ini: "\<And>t. initialising (pc s t) \<Longrightarrow> state (once (cell s)) = 1 \<and> runs s = [t] \<and>
        (oc_value (cell s) = None \<longleftrightarrow> pc s t \<noteq> Publish)"
    and past: "\<And>t. past_init (pc s t) \<Longrightarrow> state (once (cell s)) = 2"
    using assms(2) unfolding once_inv_def by blast+
  from mv show ?thesis
    using st0 st1 st2 ini [of t] past [of t] assms(2)
    by (cases rule: moves_cases)
      (auto simp: once_inv_def system_defs dest: ini past split: if_splits)
qed

lemma no_holder:
  assumes "once_inv s" "initialising (pc s t)"
  shows "\<not> holding (pc s u)"
proof
  assume "holding (pc s u)"
  then have "state (once (cell s)) = 2"
    using assms(1) holding_past_init unfolding once_inv_def by blast
  moreover have "state (once (cell s)) = 1" using assms unfolding once_inv_def by blast
  ultimately show False by simp
qed

lemma lock_inv_moves:
  assumes mv: "moves f op t s s'" and once: "once_inv s" and inv: "lock_inv s"
  shows "lock_inv s'"
proof -
  have held: "holding (pc s u) \<Longrightarrow> oc_value (cell s) = Some m \<Longrightarrow> lock m = 1" for u m
    using inv unfolding lock_inv_def by fastforce
  have only: "holding (pc s t) \<Longrightarrow> u \<noteq> t \<Longrightarrow> \<not> holding (pc s u)" for u
    using inv unfolding lock_inv_def by blast
  from mv show ?thesis
  proof (cases rule: moves_cases)
    case (init d)
    then have "\<not> holding (pc s u)" for u using no_holder [OF once, of t u] by simp
    then show ?thesis using init by (simp add: lock_inv_def system_defs)
  next
    case (lock m)
    then have "\<not> holding (pc s u)" for u using held by fastforce
    then show ?thesis using lock by (simp add: lock_inv_def system_defs)
  next
    case (unlock m)
    then have "\<not> holding (pc s u)" if "u \<noteq> t" for u using only that by simp
    then show ?thesis using unlock by (simp add: lock_inv_def system_defs)
  next
    case (read m d)
    then show ?thesis using held [of t m] only by (auto simp: lock_inv_def system_defs)
  next
    case (store m d)
    then show ?thesis using held [of t m] only by (auto simp: lock_inv_def system_defs)
  qed (use inv held only in \<open>auto simp: lock_inv_def system_defs split: if_splits\<close>)
qed

lemma data_inv_moves:
  assumes mv: "moves f op t s s'" and once: "once_inv s" and lk: "lock_inv s" and inv: "data_inv f op s"
  shows "data_inv f op s'"
proof -
  have uniq: "holding (pc s u) \<Longrightarrow> holding (pc s t) \<Longrightarrow> u = t" for u
    using lk unfolding lock_inv_def by blast
  from mv show ?thesis
  proof (cases rule: moves_cases)
    case win
    then show ?thesis using inv once by (auto simp: data_inv_def once_inv_def system_defs)
  next
    case (init d)
    then have "initialising (pc s t)" "pc s t \<noteq> Publish" by simp_all
    then have "runs s = [t]" "oc_value (cell s) = None"
      using once unfolding once_inv_def by blast+
    moreover have "f t = Ret d" "log s = []"
      using inv init calculation unfolding data_inv_def by blast+
    moreover have "pc s u \<noteq> WriteData e" for u e
      using no_holder [OF once, of t u] init by auto
    ultimately show ?thesis using init inv
      by (simp add: data_inv_def system_defs Mutex_new_def)
  next
    case (store m d)
    then have d: "op t (data m) = Ret d" using inv unfolding data_inv_def by blast
    have "pc s u \<noteq> WriteData e" if "u \<noteq> t" for u e
      using uniq [of u] that store by auto
    then show ?thesis using store inv d
      by (auto simp: data_inv_def system_defs run_log_append)
  next
    case (lock m)
    then show ?thesis using inv by (auto simp: data_inv_def system_defs)
  next
    case (unlock m)
    then show ?thesis using inv by (auto simp: data_inv_def system_defs)
  qed (use inv in \<open>auto simp: data_inv_def system_defs split: if_splits\<close>)
qed

lemma reachable_inv:
  assumes "reachable f op n s"
  shows "once_inv s \<and> lock_inv s \<and> data_inv f op s"
  using assms
proof induction
  case init
  show ?case
    by (simp add: start_def once_inv_def lock_inv_def data_inv_def OnceCell_new_def Once_new_def)
next
  case (next_state s s')
  then show ?case using once_inv_moves lock_inv_moves data_inv_moves by (auto elim!: step.cases)
qed


section \<open>Clients\<close>

text \<open>
  What a global relies on: every initial value satisfies \<open>I\<close>, and every operation keeps it when it
  returns. Then the data satisfies \<open>I\<close> in every reachable state, whatever the interleaving.
\<close>

locale guarded_data =
  fixes f :: "nat \<Rightarrow> 'd outcome" and op :: "nat \<Rightarrow> 'd \<Rightarrow> 'd outcome" and I :: "'d \<Rightarrow> bool"
  assumes init_I: "f t = Ret d \<Longrightarrow> I d"
    and op_I: "I d \<Longrightarrow> op t d = Ret d' \<Longrightarrow> I d'"
begin

lemma run_log_I: "I d \<Longrightarrow> run_log op ts d = Ret d' \<Longrightarrow> I d'"
  by (induction ts arbitrary: d) (auto simp: obind_eq_Ret intro: op_I)

lemma data_I:
  assumes "reachable f op n s" "oc_value (cell s) = Some m"
  shows "I (data m)"
proof -
  have "data_inv f op s" using reachable_inv [OF assms(1)] by simp
  then obtain i d where "f i = Ret d" "run_log op (log s) d = Ret (data m)"
    using assms(2) by (auto simp: data_inv_def)
  then show ?thesis using init_I run_log_I by blast
qed

end

text \<open>
  When moreover the closure and the operations return, no context ever halts, and there is always
  one that is not waiting for another: the number of steps left (\<open>work\<close>) decreases with every
  step that is not a wait.
\<close>

fun rank :: "'d pc \<Rightarrow> nat" where
  "rank Check = 11"
| "rank TryInit = 10"
| "rank RunInit = 9"
| "rank (WriteInit d) = 8"
| "rank Publish = 7"
| "rank SpinInit = 7"
| "rank Deref = 6"
| "rank TryLock = 5"
| "rank ReadData = 4"
| "rank (WriteData d) = 3"
| "rank Unlock = 2"
| "rank Finished = 0"
| "rank Halted = 0"

definition work :: "nat \<Rightarrow> 'd system \<Rightarrow> nat" where
  "work n s = (\<Sum>t<n. rank (pc s t))"

lemma work_goto:
  assumes "t < n" "pc s' = (pc s)(t := q)" "rank q < rank (pc s t)"
  shows "work n s' < work n s"
proof -
  have "(\<Sum>u<n. rank (pc s' u)) < (\<Sum>u<n. rank (pc s u))"
    using assms by (intro sum_strict_mono_ex1) auto
  then show ?thesis by (simp add: work_def)
qed

lemma work_moves:
  assumes "moves f op t s s'" "t < n"
  shows "s' = s \<or> work n s' < work n s"
  using assms(1)
  by (cases rule: moves_cases)
    (auto simp: system_defs intro!: work_goto [OF assms(2)] split: if_splits)

definition busy :: "nat \<Rightarrow> 'd system \<Rightarrow> bool" where
  "busy n s \<longleftrightarrow>
     (state (once (cell s)) = 1 \<longrightarrow> (\<exists>t<n. initialising (pc s t))) \<and>
     (\<forall>m. oc_value (cell s) = Some m \<longrightarrow> lock m \<noteq> 0 \<longrightarrow> (\<exists>t<n. holding (pc s t))) \<and>
     state (once (cell s)) \<in> {0, 1, 2} \<and>
     (\<forall>t. pc s t \<noteq> Halted \<and> (pc s t = SpinInit \<longrightarrow> state (once (cell s)) \<noteq> 0))"

lemma busy_goto:
  assumes b: "busy n s" and t: "initialising q = initialising (pc s t)" "holding q = holding (pc s t)"
    and q: "q \<noteq> Halted" "q = SpinInit \<Longrightarrow> state (once (cell s)) \<noteq> 0"
  shows "busy n (goto t q s)"
proof -
  have same: "initialising (((pc s)(t := q)) u) = initialising (pc s u)"
      "holding (((pc s)(t := q)) u) = holding (pc s u)" for u
    using t by auto
  then show ?thesis using b q unfolding busy_def goto_def by auto
qed

lemma busy_data:
  "busy n s \<Longrightarrow> oc_value (cell s) = Some m \<Longrightarrow> lock m' = lock m \<Longrightarrow>
     busy n (set_mutex m' (s\<lparr>log := l\<rparr>))"
  by (simp add: busy_def set_mutex_def OnceCell_store_def)

text \<open>A context that does not wait, and has not ended, makes progress.\<close>

definition waits :: "'d system \<Rightarrow> nat \<Rightarrow> bool" where
  "waits s t \<longleftrightarrow>
     (pc s t = SpinInit \<and> state (once (cell s)) \<noteq> 2) \<or>
     (pc s t = TryLock \<and> (\<exists>m. oc_value (cell s) = Some m \<and> lock m \<noteq> 0))"

lemma enabled:
  assumes "once_inv s" "\<not> waits s t" "pc s t \<noteq> Finished" "pc s t \<noteq> Halted"
  shows "\<exists>s' q. moves f op t s s' \<and> pc s' = (pc s)(t := q) \<and> rank q < rank (pc s t)"
proof (cases "past_init (pc s t) \<and> pc s t \<noteq> Deref")
  case True
  then have "state (once (cell s)) = 2" using assms(1) unfolding once_inv_def by blast
  then have "oc_value (cell s) \<noteq> None" using assms(1) unfolding once_inv_def by blast
  then obtain m where m: "oc_value (cell s) = Some m" by blast
  have "\<exists>s' q. mutex_step op t s = Some s' \<and> pc s' = (pc s)(t := q) \<and> rank q < rank (pc s t)"
  proof (cases "pc s t")
    case ReadData
    with m show ?thesis
      by (cases "op t (guard_deref m)") (auto simp: mutex_step_def system_defs)
  next
    case TryLock
    with m assms(2) show ?thesis
      by (auto simp: mutex_step_def system_defs waits_def try_lock_def)
  qed (use True assms m in \<open>auto simp: mutex_step_def system_defs\<close>)
  then show ?thesis by (auto simp: moves_def)
next
  case False
  have "\<exists>s' q. once_step f t s = Some s' \<and> pc s' = (pc s)(t := q) \<and> rank q < rank (pc s t)"
  proof (cases "pc s t")
    case RunInit
    then show ?thesis by (cases "f t") (auto simp: once_step_def system_defs)
  next
    case TryInit
    then show ?thesis by (auto simp: once_step_def system_defs compare_exchange_def)
  next
    case Deref
    then show ?thesis by (cases "oc_value (cell s)") (auto simp: once_step_def system_defs)
  next
    case SpinInit
    then show ?thesis
      using assms(2) by (auto simp: once_step_def system_defs waits_def is_complete_def)
  qed (use False assms in \<open>auto simp: once_step_def system_defs\<close>)
  then show ?thesis by (auto simp: moves_def)
qed

locale total_data = guarded_data +
  assumes init_total: "\<exists>d. f t = Ret d"
    and op_total: "I d \<Longrightarrow> \<exists>d'. op t d = Ret d'"
begin

lemma busy_moves:
  assumes mv: "moves f op t s s'" and t: "t < n" and inv: "once_inv s" "lock_inv s"
    and ok: "\<And>m. oc_value (cell s) = Some m \<Longrightarrow> I (data m)" and b: "busy n s"
  shows "busy n s'"
proof -
  have other: "holding (pc s u) \<Longrightarrow> pc s t = Unlock \<Longrightarrow> u = t" for u
    using inv(2) unfolding lock_inv_def by (metis holding.simps(3))
  from mv show ?thesis
  proof (cases rule: moves_cases)
    case fail
    then show ?thesis using init_total by blast
  next
    case (crash m)
    then show ?thesis using op_total ok by blast
  next
    case deref_none
    then show ?thesis using inv(1) unfolding once_inv_def by (metis past_init.simps(1))
  next
    case win
    then show ?thesis using b t inv(1) by (auto simp: busy_def once_inv_def system_defs)
  next
    case (init d)
    then show ?thesis using b t by (auto simp: busy_def system_defs Mutex_new_def)
  next
    case publish
    have "\<not> holding (pc s u)" for u using no_holder [OF inv(1), of t u] publish by simp
    then show ?thesis using b t publish by (auto simp: busy_def system_defs)
  next
    case (lock m)
    then have "state (once (cell s)) = 2"
      using inv(1) unfolding once_inv_def by (metis past_init.simps(2))
    then show ?thesis using b t lock by (auto simp: busy_def system_defs)
  next
    case (unlock m)
    then have "state (once (cell s)) = 2"
      using inv(1) unfolding once_inv_def by (metis past_init.simps(5))
    then show ?thesis using b t other unlock by (auto simp: busy_def system_defs)
  next
    case (store m d)
    then have "busy n (set_mutex (m\<lparr>data := d\<rparr>) (s\<lparr>log := log s @ [t]\<rparr>))"
      using b by (intro busy_data) simp_all
    then show ?thesis using store by (auto intro!: busy_goto simp: set_mutex_def)
  qed (use b in \<open>auto intro!: busy_goto\<close>)
qed

lemma reachable_busy: "reachable f op n s \<Longrightarrow> busy n s"
proof (induction rule: reachable.induct)
  case init
  show ?case by (simp add: busy_def start_def OnceCell_new_def Once_new_def)
next
  case (next_state s s')
  then show ?case
    using reachable_inv [OF next_state(1)] busy_moves [of _ s s' n] data_I [OF next_state(1)]
    by (auto elim!: step.cases)
qed

lemma progress:
  assumes r: "reachable f op n s" and t: "t < n" "pc s t \<noteq> Finished"
  shows "\<exists>s'. step f op n s s' \<and> work n s' < work n s"
proof -
  have inv: "once_inv s" "lock_inv s" using reachable_inv [OF r] by auto
  have b: "busy n s" using r by (rule reachable_busy)
  have act: "\<exists>u<n. \<not> waits s u \<and> pc s u \<noteq> Finished"
  proof (cases "waits s t")
    case True
    then consider "pc s t = SpinInit" "state (once (cell s)) \<noteq> 2"
      | m where "oc_value (cell s) = Some m" "lock m \<noteq> 0"
      by (auto simp: waits_def)
    then show ?thesis
    proof cases
      case 1
      then have "state (once (cell s)) = 1" using b by (auto simp: busy_def)
      then obtain u where "u < n" "initialising (pc s u)" using b by (auto simp: busy_def)
      then show ?thesis by (intro exI [of _ u]) (auto simp: waits_def)
    next
      case 2
      then obtain u where "u < n" "holding (pc s u)" using b by (auto simp: busy_def)
      then show ?thesis by (intro exI [of _ u]) (auto simp: waits_def)
    qed
  next
    case False
    then show ?thesis using t by blast
  qed
  then obtain u where u: "u < n" "\<not> waits s u" "pc s u \<noteq> Finished" by blast
  moreover have "pc s u \<noteq> Halted" using b by (simp add: busy_def)
  ultimately obtain s' q where mv: "moves f op u s s'" "pc s' = (pc s)(u := q)" "rank q < rank (pc s u)"
    using enabled [OF inv(1), of u f op] by blast
  then show ?thesis using u work_goto [OF u(1) mv(2,3)] step.intros [OF u(1) mv(1)] by blast
qed

end


section \<open>A context that runs alone\<close>

text \<open>
  \<open>CELL.get_or_init(f).lock().op()\<close> as one call, composed of the operations of \<open>Sync\<close>. When it
  returns, the steps of a context that no other context interrupts have the same effect.
\<close>

definition locked_call ::
    "'d Mutex OnceCell \<Rightarrow> 'd outcome \<Rightarrow> ('d \<Rightarrow> 'd outcome) \<Rightarrow> 'd Mutex OnceCell outcome" where
  "locked_call c f op =
     obind (get_or_init c (\<lambda>w. obind f (\<lambda>d. Ret (Mutex_new d, w))) ()) (\<lambda>(m, c, _).
     obind (Mutex_lock m) (\<lambda>g.
     obind (op (guard_deref g)) (\<lambda>d.
     Ret (OnceCell_store c (guard_drop (guard_deref_mut g d))))))"

lemma moves_once: "once_step f t s = Some s' \<Longrightarrow> (moves f op t)\<^sup>*\<^sup>* s' s'' \<Longrightarrow> (moves f op t)\<^sup>*\<^sup>* s s''"
  by (rule converse_rtranclp_into_rtranclp) (auto simp: moves_def)

lemma moves_mutex: "mutex_step op t s = Some s' \<Longrightarrow> (moves f op t)\<^sup>*\<^sup>* s' s'' \<Longrightarrow> (moves f op t)\<^sup>*\<^sup>* s s''"
  by (rule converse_rtranclp_into_rtranclp) (auto simp: moves_def)

lemma alone_locked:
  assumes "pc s t = Deref" "completed (cell s) m" "lock m = 0" "op t (data m) = Ret d"
  shows "\<exists>s'. (moves f op t)\<^sup>*\<^sup>* s s' \<and> pc s' t = Finished \<and>
    cell s' = OnceCell_store (cell s) (m\<lparr>data := d, lock := 0\<rparr>)"
proof -
  note simps = completed_def once_step_def mutex_step_def system_defs try_lock_def guard_deref_def
    guard_deref_mut_def guard_drop_def
  let ?s = "s\<lparr>log := log s @ [t], cell := OnceCell_store (cell s) (m\<lparr>data := d, lock := 0\<rparr>), pc := (pc s)(t := Finished)\<rparr>"
  have "(moves f op t)\<^sup>*\<^sup>* s ?s"
    using assms
    apply -
    apply (rule moves_once, simp add: simps)
    apply (rule moves_mutex, simp add: simps)
    apply (rule moves_mutex, simp add: simps)
    apply (rule moves_mutex, simp add: simps)
    apply (rule moves_mutex, simp add: simps)
    apply (simp add: simps)
    done
  then show ?thesis by (intro exI [of _ ?s]) simp
qed

lemma alone_init:
  assumes "pc s t = Check" "cell s = OnceCell_new" "f t = Ret d"
  shows "\<exists>s'. (moves f op t)\<^sup>*\<^sup>* s s' \<and> pc s' t = Deref \<and>
    cell s' = \<lparr>once = \<lparr>state = 2\<rparr>, oc_value = Some (Mutex_new d)\<rparr>"
proof -
  note simps = once_step_def system_defs OnceCell_new_def Once_new_def is_complete_def
  let ?s = "s\<lparr>runs := runs s @ [t],
    cell := \<lparr>once = \<lparr>state = 2\<rparr>, oc_value = Some (Mutex_new d)\<rparr>, pc := (pc s)(t := Deref)\<rparr>"
  have "(moves f op t)\<^sup>*\<^sup>* s ?s"
    using assms
    apply -
    apply (rule moves_once, simp add: simps)
    apply (rule moves_once, simp add: simps)
    apply (rule moves_once, simp add: simps)
    apply (rule moves_once, simp add: simps)
    apply (rule moves_once, simp add: simps)
    apply (simp add: simps)
    done
  then show ?thesis by (intro exI [of _ ?s]) simp
qed

lemma alone_completed:
  assumes "pc s t = Check" "completed (cell s) m"
  shows "(moves f op t)\<^sup>*\<^sup>* s (goto t Deref s)"
  by (rule r_into_rtranclp) (use assms in \<open>simp add: moves_def completed_def once_step_def\<close>)

end
