(* ===== verification/Mem_Global.thy ===== *)
theory Mem_Global
  imports Buddy_Init Sync_Steps
begin

text \<open>
  The interface of the memory management (\<open>src/rust/src/mem.rs\<close>, \<open>src/rust/src/stdlib.rs\<close>): the
  global \<open>MEMORY\<close>, a \<open>OnceCell\<close> around a \<open>Mutex\<close>, with \<open>init\<close>, \<open>buddy_alloc\<close>, \<open>buddy_free\<close>,
  \<open>phalloc\<close> and \<open>phree\<close>. The state is a record that the rest of the kernel extends.
\<close>

record mem_state =
  mram :: ram
  MEMORY :: "Memory Mutex OnceCell"

definition mem_init ::
    "profile \<Rightarrow> usize \<Rightarrow> usize \<Rightarrow> usize \<Rightarrow> usize \<Rightarrow> 'z mem_state_scheme \<Rightarrow> 'z mem_state_scheme outcome" where
  "mem_init p ram_start ram_end alloc_mem_start alloc_mem_end w =
     obind (get_or_init (MEMORY w)
       (\<lambda>w. obind (Memory_new p (mram w) (Some ram_start) (Some ram_end) (Some alloc_mem_start)
                 (Some alloc_mem_end)) (\<lambda>(m, r). Ret (Mutex_new m, w\<lparr>mram := r\<rparr>))) w)
       (\<lambda>(_, c, w). Ret (w\<lparr>MEMORY := c\<rparr>))"

definition memory_get :: "profile \<Rightarrow> 'z mem_state_scheme \<Rightarrow>
    (Memory Mutex \<times> Memory Mutex OnceCell \<times> 'z mem_state_scheme) outcome" where
  "memory_get p w =
     get_or_init (MEMORY w)
       (\<lambda>w. obind (Memory_new p (mram w) None None None None)
               (\<lambda>(m, r). Ret (Mutex_new m, w\<lparr>mram := r\<rparr>))) w"

definition buddy_alloc :: "profile \<Rightarrow> 'z mem_state_scheme \<Rightarrow> usize \<Rightarrow>
    ((PhysAddr, Error) Result \<times> 'z mem_state_scheme) outcome" where
  "buddy_alloc p w n =
     obind (memory_get p w) (\<lambda>(mem, c, w).
     obind (Mutex_lock mem) (\<lambda>g.
     obind (Memory_buddy_alloc p (guard_deref g) n) (\<lambda>(r, m).
     Ret (r, w\<lparr>MEMORY := OnceCell_store c (guard_drop (guard_deref_mut g m))\<rparr>))))"

definition buddy_free :: "profile \<Rightarrow> 'z mem_state_scheme \<Rightarrow> PhysAddr \<Rightarrow> 'z mem_state_scheme outcome" where
  "buddy_free p w addr =
     obind (memory_get p w) (\<lambda>(mem, c, w).
     obind (Mutex_lock mem) (\<lambda>g.
     obind (Memory_buddy_free p (guard_deref g) addr) (\<lambda>m.
     Ret (w\<lparr>MEMORY := OnceCell_store c (guard_drop (guard_deref_mut g m))\<rparr>))))"

definition phalloc :: "profile \<Rightarrow> 'z mem_state_scheme \<Rightarrow> usize \<Rightarrow>
    ((PhysAddr, Error) Result \<times> 'z mem_state_scheme) outcome" where
  "phalloc p w n = buddy_alloc p w n"

definition phree :: "profile \<Rightarrow> 'z mem_state_scheme \<Rightarrow> PhysAddr \<Rightarrow> 'z mem_state_scheme outcome" where
  "phree p w addr = buddy_free p w addr"


section \<open>The allocator behind the global\<close>

text \<open>The global is initialised with \<open>m\<close> and nobody holds the lock.\<close>

definition memory_is :: "'z mem_state_scheme \<Rightarrow> Memory \<Rightarrow> bool" where
  "memory_is w m \<longleftrightarrow> completed (MEMORY w) \<lparr>lock = 0, data = m\<rparr>"

definition set_memory :: "Memory \<Rightarrow> 'z mem_state_scheme \<Rightarrow> 'z mem_state_scheme" where
  "set_memory m w = w\<lparr>MEMORY := OnceCell_store (MEMORY w) \<lparr>lock = 0, data = m\<rparr>\<rparr>"

lemma memory_is_set [simp]: "memory_is w m \<Longrightarrow> memory_is (set_memory m' w) m'"
  by (simp add: memory_is_def set_memory_def completed_store)

lemma set_memory_simps [simp]:
  "mram (set_memory m w) = mram w"
  "mem_state.more (set_memory m w) = mem_state.more w"
  by (simp_all add: set_memory_def)

lemma memory_is_unique: "memory_is w m \<Longrightarrow> memory_is w m' \<Longrightarrow> m = m'"
  by (simp add: memory_is_def completed_def)

lemmas guard_simps = guard_deref_def guard_deref_mut_def guard_drop_def

lemma buddy_alloc_eq:
  "memory_is w m \<Longrightarrow>
     buddy_alloc p w n = obind (Memory_buddy_alloc p m n) (\<lambda>(r, m'). Ret (r, set_memory m' w))"
  by (cases "Memory_buddy_alloc p m n")
    (auto simp: buddy_alloc_def memory_get_def memory_is_def get_or_init_completed Mutex_lock_free
      guard_simps set_memory_def)

lemma buddy_free_eq:
  "memory_is w m \<Longrightarrow>
     buddy_free p w a = obind (Memory_buddy_free p m a) (\<lambda>m'. Ret (set_memory m' w))"
  by (cases "Memory_buddy_free p m a")
    (auto simp: buddy_free_def memory_get_def memory_is_def get_or_init_completed Mutex_lock_free
      guard_simps set_memory_def)

lemma mem_init_eq:
  "MEMORY w = OnceCell_new \<Longrightarrow>
     mem_init p s e a b w =
       obind (Memory_new p (mram w) (Some s) (Some e) (Some a) (Some b)) (\<lambda>(m, r).
         Ret (w\<lparr>mram := r, MEMORY := \<lparr>once = \<lparr>state = 2\<rparr>, oc_value = Some (Mutex_new m)\<rparr>\<rparr>))"
  by (cases "Memory_new p (mram w) (Some s) (Some e) (Some a) (Some b)")
    (auto simp: mem_init_def get_or_init_new)

text \<open>A second initialisation changes nothing.\<close>

lemma mem_init_again: "memory_is w m \<Longrightarrow> mem_init p s e a b w = Ret w"
  by (simp add: mem_init_def memory_is_def get_or_init_completed)


section \<open>The interface, for the global\<close>

definition gmem :: "'z mem_state_scheme \<Rightarrow> Memory" where
  "gmem w = data (the (oc_value (MEMORY w)))"

definition gmem_ok :: "'z mem_state_scheme \<Rightarrow> bool" where
  "gmem_ok w \<longleftrightarrow> memory_is w (gmem w) \<and> mem_ok (gmem w)"

definition glive :: "'z mem_state_scheme \<Rightarrow> (nat \<times> nat) set" where
  "glive w = live (gmem w)"

definition gcapacity :: "'z mem_state_scheme \<Rightarrow> nat" where
  "gcapacity w = capacity (gmem w)"

lemma memory_is_gmem: "memory_is w m \<Longrightarrow> gmem w = m"
  by (simp add: memory_is_def completed_def gmem_def)

lemma gmem_set [simp]: "gmem (set_memory m w) = m"
  by (simp add: gmem_def set_memory_def OnceCell_store_def)

lemma gmem_ok_set: "gmem_ok w \<Longrightarrow> mem_ok m \<Longrightarrow> gmem_ok (set_memory m w)"
  unfolding gmem_ok_def by (auto intro: memory_is_set)

lemma set_memory_same: "memory_is w m \<Longrightarrow> set_memory m w = w"
  by (simp add: set_memory_def OnceCell_store_def memory_is_def completed_def)

interpretation gbuddy: block_allocator "buddy_alloc p" "buddy_free p" gmem_ok glive gcapacity for p
proof
  fix w :: "'z mem_state_scheme" and b c
  assume "gmem_ok w" "b \<in> glive w" "c \<in> glive w" "b \<noteq> c"
  then show "extent b \<inter> extent c = {}"
    unfolding gmem_ok_def glive_def by (intro buddy.live_apart) auto
next
  fix w :: "'z mem_state_scheme" and x k
  assume "gmem_ok w" "(x, k) \<in> glive w"
  then show "12 \<le> k \<and> 4096 dvd x" "x + 2 ^ k \<le> 2 ^ 32"
    unfolding gmem_ok_def glive_def using buddy.live_aligned buddy.live_bound by auto
next
  fix w :: "'z mem_state_scheme" and n :: usize
  assume w: "gmem_ok w" and n: "n \<noteq> 0" "unat n \<le> gcapacity w"
  then have "mem_ok (gmem w)" "unat n \<le> capacity (gmem w)" "memory_is w (gmem w)"
    by (auto simp: gmem_ok_def gcapacity_def)
  then show "(\<exists>w'. buddy_alloc p w n = Ret (Err OutOfMemory, w') \<and> gmem_ok w' \<and>
          glive w' = glive w \<and> gcapacity w' = gcapacity w)
       \<or> (\<exists>a k w'. buddy_alloc p w n = Ret (Ok (PhysAddr a (Some (2 ^ k))), w') \<and> gmem_ok w' \<and>
          gcapacity w' = gcapacity w \<and> k < 32 \<and> unat n \<le> 2 ^ k \<and> (unat a, k) \<notin> glive w \<and>
          glive w' = insert (unat a, k) (glive w))"
    using buddy.alloc_outcome [of "gmem w" n p] n(1) gmem_ok_set [OF w]
    by (fastforce simp: buddy_alloc_eq glive_def gcapacity_def)
next
  fix w :: "'z mem_state_scheme"
  assume "gmem_ok w"
  then show "buddy_alloc p w 0 = Ret (Err ZeroSize, w)"
    using buddy.alloc_zero [of "gmem w" p]
    by (auto simp: gmem_ok_def buddy_alloc_eq set_memory_same)
next
  fix w :: "'z mem_state_scheme" and a :: usize and k
  assume w: "gmem_ok w" and "(unat a, k) \<in> glive w" "2 ^ k < gcapacity w"
  then show "\<exists>w'. buddy_free p w (PhysAddr a (Some (2 ^ k))) = Ret w' \<and> gmem_ok w' \<and>
      glive w' = glive w - {(unat a, k)} \<and> gcapacity w' = gcapacity w"
    using buddy.free_outcome [of "gmem w" a k p] gmem_ok_set [OF w]
    by (fastforce simp: gmem_ok_def buddy_free_eq glive_def gcapacity_def)
next
  fix w :: "'z mem_state_scheme" and a
  assume "gmem_ok w"
  then show "buddy_free p w (PhysAddr a None) = Ret w"
    using buddy.free_unsized [of "gmem w" p a]
    by (auto simp: gmem_ok_def buddy_free_eq set_memory_same)
qed


section \<open>Several harts\<close>

text \<open>
  The closure of a context: the boot context (0) calls \<open>mem::init\<close> with the addresses of the
  linker script, the others get to \<open>MEMORY\<close> through \<open>buddy_alloc\<close> and \<open>buddy_free\<close>. The operation
  is a request of the context.
\<close>

definition hart_init :: "profile \<Rightarrow> ram \<Rightarrow> usize \<Rightarrow> usize \<Rightarrow> usize \<Rightarrow> usize \<Rightarrow> nat \<Rightarrow> Memory outcome" where
  "hart_init p r s e a b t =
     obind (if t = 0 then Memory_new p r (Some s) (Some e) (Some a) (Some b)
            else Memory_new p r None None None None) (\<lambda>(m, r). Ret m)"

definition hart_request :: "profile \<Rightarrow> (nat \<Rightarrow> request) \<Rightarrow> nat \<Rightarrow> Memory \<Rightarrow> Memory outcome" where
  "hart_request p rq t m = serve (Memory_buddy_alloc p) (Memory_buddy_free p) m (rq t)"

text \<open>A request on a memory of \<open>P\<close> pages at \<open>s\<close>: any size that fits, any aligned block.\<close>

fun request_ok :: "nat \<Rightarrow> usize \<Rightarrow> request \<Rightarrow> bool" where
  "request_ok P s (ReqAlloc n) = (unat n \<le> 2 ^ (ilog2_nat P + 12))"
| "request_ok P s (ReqFree x k) =
     (12 \<le> k \<and> unat s \<le> unat x \<and> 2 ^ k dvd unat x - unat s \<and>
      unat x - unat s + 2 ^ k \<le> 2 ^ (ilog2_nat P + 12))"

definition hart_inv :: "nat \<Rightarrow> usize \<Rightarrow> Memory \<Rightarrow> bool" where
  "hart_inv P s m \<longleftrightarrow> mem_ok m \<and> levels m = ilog2_nat P \<and> pa_addr (m_start m) = s"

lemma capacity_levels: "capacity m = capacity m' \<longleftrightarrow> levels m = levels m'"
  by (simp add: capacity_def)

lemma hart_init_inv:
  assumes "layout_ok P s e a b" "hart_init p r s e a b t = Ret m"
  shows "hart_inv P s m"
proof -
  have "t = 0" using assms(2) by (auto simp: hart_init_def Memory_new_def split: if_splits)
  then have "fresh_memory P s e m"
    using Memory_new_ok [OF assms(1), of p r] assms(2) by (auto simp: hart_init_def)
  then show ?thesis
    using fresh_memory_ok [OF assms(1)] by (auto simp: hart_inv_def fresh_memory_def)
qed

lemma hart_request_inv:
  assumes P: "2 \<le> P" and ok: "request_ok P s (rq t)" and m: "hart_inv P s m"
    and ret: "hart_request p rq t m = Ret m'"
  shows "hart_inv P s m'"
proof (cases "rq t")
  case (ReqAlloc n)
  have n: "unat n \<le> capacity m" using ok m ReqAlloc by (simp add: hart_inv_def capacity_def)
  show ?thesis
  proof (cases "n = 0")
    case True
    then show ?thesis using ret ReqAlloc m by (simp add: hart_request_def Memory_buddy_alloc_def)
  next
    case False
    obtain r where r: "Memory_buddy_alloc p m n = Ret (r, m')"
      using ret ReqAlloc by (auto simp: hart_request_def obind_eq_Ret)
    have "m_start m' = m_start m"
      using buddy_alloc_cases [OF _ False n, of p] m r by (auto simp: hart_inv_def)
    moreover have "mem_ok m' \<and> capacity m' = capacity m"
      using buddy.alloc_outcome [OF _ False n, of p] m r by (auto simp: hart_inv_def)
    ultimately show ?thesis using m by (simp add: hart_inv_def capacity_levels)
  qed
next
  case (ReqFree x k)
  obtain q where q: "unat x - unat s = 2 ^ k * q" using ok ReqFree by auto
  have "(2::nat) ^ 1 \<le> 2 ^ ilog2_nat P" using P ilog2_nat_mono [of 2 P] ilog2_nat_power [of 1]
    by (intro power_increasing) auto
  then have "4096 < capacity m" using m by (simp add: capacity_def hart_inv_def power_add)
  then show ?thesis
    using free_returns [of m k q x p m'] ok ret ReqFree q m
    by (auto simp: hart_inv_def hart_request_def capacity_levels capacity_def algebra_simps)
qed

text \<open>What the harts need to respect for the invariant to hold throughout.\<close>

definition harts_ok :: "nat \<Rightarrow> usize \<Rightarrow> usize \<Rightarrow> usize \<Rightarrow> usize \<Rightarrow> (nat \<Rightarrow> request) \<Rightarrow> bool" where
  "harts_ok P s e a b rq \<longleftrightarrow> layout_ok P s e a b \<and> 2 \<le> P \<and> (\<forall>t. request_ok P s (rq t))"

interpretation harts: guarded_data "hart_init p r s e a b" "hart_request p rq"
  "\<lambda>m. harts_ok P s e a b rq \<longrightarrow> hart_inv P s m" for p r s e a b rq P
  by unfold_locales (auto simp: harts_ok_def intro: hart_init_inv hart_request_inv)

text \<open>
  On the 64 MB that \<open>kernel.ld\<close> reserves, a power of two, every allocation request returns. When
  every context initialises with the same addresses, no context ever waits for ever.
\<close>

lemma kernel_layout: "layout_ok 16384 0x80290000 0x84290000 0x80210000 0x80290000"
  by (simp add: layout_ok_def)

definition kernel_init_memory :: "profile \<Rightarrow> ram \<Rightarrow> nat \<Rightarrow> Memory outcome" where
  "kernel_init_memory p r t = hart_init p r 0x80290000 0x84290000 0x80210000 0x80290000 0"

definition kernel_inv :: "Memory \<Rightarrow> bool" where
  "kernel_inv m \<longleftrightarrow> mem_ok m \<and> capacity m = 0x4000000 \<and> mem_size m = 0x4000000"

lemma unat_numeral_mem: "unat (0x4000000 :: usize) = 0x4000000"
  by simp

lemma alloc_keeps_size:
  assumes "mem_ok m" "n \<noteq> 0" "unat n \<le> capacity m" "Memory_buddy_alloc p m n = Ret (r, m')"
  shows "mem_size m' = mem_size m"
proof -
  have "mem_inv m (levels m) (mem_tree m)" using assms(1) by (simp add: mem_ok_def)
  from alloc_refines [OF this assms(2), of p] show ?thesis
    using assms(3,4) by (auto simp: alloc_post_def Let_def capacity_def split: option.splits)
qed

interpretation kernel_harts: total_data "kernel_init_memory p r"
  "hart_request p (\<lambda>t. ReqAlloc (n t))" kernel_inv for p r n
proof
  note fresh = fresh_memory_ok [OF kernel_layout]
  have lg: "ilog2_nat 16384 = 14" using ilog2_nat_power [of 14] by simp
  obtain m ram where m: "Memory_new p r (Some 0x80290000) (Some 0x84290000) (Some 0x80210000)
      (Some 0x80290000) = Ret (m, ram)" "fresh_memory 16384 0x80290000 0x84290000 m"
    using Memory_new_ok [OF kernel_layout, of p r] by blast
  then have init: "kernel_init_memory p r t = Ret m" for t
    by (simp add: kernel_init_memory_def hart_init_def)
  have "kernel_inv m"
    using fresh [OF m(2)] m(2) by (simp add: kernel_inv_def capacity_def lg fresh_memory_def)
  then show "kernel_init_memory p r t = Ret d \<Longrightarrow> kernel_inv d" for t d using init by simp
  show "\<exists>d. kernel_init_memory p r t = Ret d" for t using init by blast
  have served: "\<exists>d'. hart_request p (\<lambda>t. ReqAlloc (n t)) t d = Ret d' \<and> kernel_inv d'"
    if d: "kernel_inv d" for d t
  proof -
    have cap: "mem_ok d" "capacity d = 0x4000000" "mem_size d = 0x4000000"
      using d by (auto simp: kernel_inv_def)
    consider "n t = 0" | "mem_size d < n t" | "n t \<noteq> 0" "unat (n t) \<le> capacity d"
      using cap unfolding word_less_nat_alt by (metis linorder_le_less_linear unat_numeral_mem)
    then show ?thesis
    proof cases
      case 3
      then show ?thesis
        using buddy.alloc_outcome [OF cap(1) 3, of p] cap alloc_keeps_size [OF cap(1) 3, of p]
        by (auto simp: hart_request_def kernel_inv_def)
    qed (use d in \<open>auto simp: hart_request_def Memory_buddy_alloc_def\<close>)
  qed
  show "kernel_inv d \<Longrightarrow> hart_request p (\<lambda>t. ReqAlloc (n t)) t d = Ret d' \<Longrightarrow> kernel_inv d'" for d t d'
    using served [of d t] by auto
  show "kernel_inv d \<Longrightarrow> \<exists>d'. hart_request p (\<lambda>t. ReqAlloc (n t)) t d = Ret d'" for d t
    using served [of d t] by auto
qed

end
