(* ===== verification/Sync_Properties.thy ===== *)
theory Sync_Properties
  imports Mem_Global
begin

text \<open>
  The properties of the synchronisation primitives under every interleaving, and of the global
  allocator that they protect.
\<close>

section \<open>A small system\<close>

text \<open>Two contexts that increment a shared counter.\<close>

definition count_init :: "nat \<Rightarrow> nat outcome" where
  "count_init t = Ret 0"

definition count_op :: "nat \<Rightarrow> nat \<Rightarrow> nat outcome" where
  "count_op t d = Ret (d + 1)"

lemma reachable_alone:
  assumes "(moves f op t)\<^sup>*\<^sup>* s s'" "reachable f op n s" "t < n"
  shows "reachable f op n s'"
  using assms(1,2)
  by induction (auto intro: reachable.next_state step.intros [OF assms(3)])

text \<open>One context has initialised the cell and left, the other one holds the lock.\<close>

lemma count_reachable:
  "\<exists>s. reachable count_init count_op 2 s \<and> pc s 0 = Deref \<and> pc s 1 = Check \<and>
     oc_value (cell s) = Some \<lparr>lock = 0, data = 0\<rparr> \<and> runs s = [0] \<and> log s = []"
proof -
  let ?f = count_init and ?op = "count_op"
  note simps = moves_def once_step_def system_defs start_def OnceCell_new_def Once_new_def
    is_complete_def count_init_def Mutex_new_def
  let ?s = "\<lparr>cell = \<lparr>once = \<lparr>state = 2\<rparr>, oc_value = Some \<lparr>lock = 0, data = 0\<rparr>\<rparr>,
    pc = (\<lambda>_. Check)(0 := Deref), runs = [0], log = []\<rparr> :: nat system"
  have "(moves ?f ?op 0)\<^sup>*\<^sup>* start ?s"
    apply (rule moves_once, simp add: simps)
    apply (rule moves_once, simp add: simps)
    apply (rule moves_once, simp add: simps)
    apply (rule moves_once, simp add: simps)
    apply (rule moves_once, simp add: simps)
    apply (simp add: simps)
    done
  from reachable_alone [OF this reachable.init, of 2] show ?thesis by (intro exI [of _ ?s]) simp
qed


section \<open>Once and mutex\<close>

text \<open>
  C13. Mutual exclusion: under every interleaving, at most one context is between a successful
  \<open>lock\<close> and the drop of its guard, and while it is there the lock is taken.
\<close>

theorem mutual_exclusion:
  assumes "reachable f op n s" "holding (pc s t)"
  shows "(\<forall>u. holding (pc s u) \<longrightarrow> u = t) \<and> (\<exists>m. oc_value (cell s) = Some m \<and> lock m = MutexState_as_u8 Locked)"
proof -
  have "lock_inv s" using reachable_inv [OF assms(1)] by simp
  then show ?thesis using assms(2) unfolding lock_inv_def by auto
qed

theorem mutual_exclusion_witness:
  "\<exists>s. reachable count_init count_op 2 s \<and> holding (pc s 0) \<and>
     (\<exists>m. oc_value (cell s) = Some m \<and> lock m = MutexState_as_u8 Locked)"
proof -
  obtain s where s: "reachable count_init count_op 2 s" "pc s 0 = Deref"
      "oc_value (cell s) = Some \<lparr>lock = 0, data = 0\<rparr>"
    using count_reachable by blast
  let ?s = "goto 0 TryLock s" and ?t = "goto 0 ReadData (set_mutex \<lparr>lock = 1, data = 0\<rparr> (goto 0 TryLock s))"
  have "moves count_init count_op 0 s ?s" "moves count_init count_op 0 ?s ?t"
    using s by (simp_all add: moves_def once_step_def mutex_step_def try_lock_def goto_def)
  then have r: "reachable count_init count_op 2 ?t"
    by (intro reachable_alone [OF _ s(1), of 0]) auto
  moreover have h: "holding (pc ?t 0)" by (simp add: goto_def)
  ultimately show ?thesis using mutual_exclusion [OF r h] by blast
qed

text \<open>
  C14. The closure of a \<open>OnceCell\<close> runs at most once, and every context that got past \<open>get_or_init\<close>
  finds the value that the closure returned: the \<open>unwrap\<close> never fails.
\<close>

theorem init_at_most_once:
  assumes "reachable f op n s"
  shows "length (runs s) \<le> 1 \<and>
    (\<forall>t. past_init (pc s t) \<longrightarrow> (\<exists>i d. runs s = [i] \<and> f i = Ret d \<and> oc_value (cell s) \<noteq> None))"
proof -
  have inv: "once_inv s" "data_inv f op s" using reachable_inv [OF assms] by auto
  have "length (runs s) \<le> 1"
    using inv(1) by (cases "state (once (cell s)) = 0") (auto simp: once_inv_def)
  moreover have "\<exists>i d. runs s = [i] \<and> f i = Ret d \<and> oc_value (cell s) \<noteq> None" if "past_init (pc s t)" for t
  proof -
    have "state (once (cell s)) = 2" using inv(1) that unfolding once_inv_def by blast
    then obtain m where "oc_value (cell s) = Some m" using inv(1) unfolding once_inv_def by blast
    then show ?thesis using inv(2) unfolding data_inv_def by blast
  qed
  ultimately show ?thesis by blast
qed

theorem init_at_most_once_witness:
  "\<exists>s. reachable count_init count_op 2 s \<and> past_init (pc s 0) \<and> (\<exists>i d. runs s = [i] \<and> count_init i = Ret d)"
proof -
  obtain s where s: "reachable count_init count_op 2 s" "pc s 0 = Deref" using count_reachable by blast
  then have "past_init (pc s 0)" by simp
  then show ?thesis using init_at_most_once [OF s(1)] s(1) by blast
qed

text \<open>
  C15. The protected data is never corrupted by interleaving: it is the value of the one closure
  that ran, after the operations of the contexts that finished their critical section, one after
  the other, each exactly once and each on the result of the one before it.
\<close>

theorem operations_serialised:
  assumes "reachable f op n s" "oc_value (cell s) = Some m"
  shows "\<exists>i d. runs s = [i] \<and> f i = Ret d \<and> run_log op (log s) d = Ret (data m) \<and>
    distinct (log s) \<and> set (log s) = {t. pc s t = Unlock \<or> pc s t = Finished}"
proof -
  have "data_inv f op s" using reachable_inv [OF assms(1)] by simp
  then show ?thesis using assms(2) unfolding data_inv_def by blast
qed

theorem operations_serialised_witness:
  "\<exists>s m i d. reachable count_init count_op 2 s \<and> oc_value (cell s) = Some m \<and> runs s = [i] \<and>
     count_init i = Ret d \<and> run_log count_op (log s) d = Ret (data m)"
proof -
  obtain s where s: "reachable count_init count_op 2 s"
      "oc_value (cell s) = Some \<lparr>lock = 0, data = 0\<rparr>"
    using count_reachable by blast
  then show ?thesis using operations_serialised [OF s] by blast
qed







section \<open>The global allocator\<close>

text \<open>
  C18. Any number of contexts that allocate and release blocks of the memory concurrently, in any
  interleaving, leave the allocator in a consistent state whenever its lock can be taken, so live
  blocks never overlap; a release that is not of a live block halts its own context only.
\<close>

theorem harts_safe:
  assumes "layout_ok P s e a b" "2 \<le> P" "\<forall>t. request_ok P s (rq t)"
    and "reachable (hart_init p r s e a b) (hart_request p rq) n w" "oc_value (cell w) = Some m"
  shows "mem_ok (data m) \<and> capacity (data m) \<le> P * 4096 \<and>
    (\<forall>b\<in>live (data m). \<forall>c\<in>live (data m). b \<noteq> c \<longrightarrow> extent b \<inter> extent c = {})"
proof -
  have ok: "hart_inv P s (data m)"
    using harts.data_I [OF assms(4,5), of P] assms(1-3) by (simp add: harts_ok_def)
  have "0 < P" using assms(1) by (simp add: layout_ok_def)
  then have "2 ^ ilog2_nat P \<le> P" using ilog2_nat_bounds by blast
  then have "capacity (data m) \<le> P * 4096"
    using ok by (simp add: hart_inv_def capacity_def power_add)
  moreover have "mem_ok (data m)" using ok by (simp add: hart_inv_def)
  ultimately show ?thesis using buddy.live_apart [of "data m"] by blast
qed

text \<open>The boot context has initialised a memory of two pages.\<close>

lemma harts_two:
  "\<exists>w m. reachable (hart_init Release (\<lambda>_. 0) 0x80400000 0x80402000 0x80300000 0x80380000)
     (hart_request Release (\<lambda>t. ReqAlloc 1)) 2 w \<and> oc_value (cell w) = Some m"
proof -
  let ?f = "hart_init Release (\<lambda>_. 0) 0x80400000 0x80402000 0x80300000 0x80380000"
  let ?op = "hart_request Release (\<lambda>t. ReqAlloc 1)"
  have "layout_ok 2 0x80400000 0x80402000 0x80300000 0x80380000" by (simp add: layout_ok_def)
  from Memory_new_ok [OF this, of Release "\<lambda>_. 0"] obtain d where "?f 0 = Ret d"
    by (auto simp: hart_init_def)
  then obtain w where "(moves ?f ?op 0)\<^sup>*\<^sup>* start w" "oc_value (cell w) = Some (Mutex_new d)"
    using alone_init [of start 0 ?f d ?op] by (auto simp: start_def)
  then show ?thesis using reachable_alone [OF _ reachable.init, of ?f ?op 0 w 2] by auto
qed

theorem harts_safe_witness:
  "\<exists>w m. reachable (hart_init Release (\<lambda>_. 0) 0x80400000 0x80402000 0x80300000 0x80380000)
     (hart_request Release (\<lambda>t. ReqAlloc 1)) 2 w \<and> oc_value (cell w) = Some m \<and> mem_ok (data m)"
proof -
  obtain w m where w: "reachable (hart_init Release (\<lambda>_. 0) 0x80400000 0x80402000 0x80300000 0x80380000)
     (hart_request Release (\<lambda>t. ReqAlloc 1)) 2 w" "oc_value (cell w) = Some m"
    using harts_two by blast
  moreover have "layout_ok 2 0x80400000 0x80402000 0x80300000 0x80380000" by (simp add: layout_ok_def)
  ultimately show ?thesis
    using harts_safe [of 2 "0x80400000" "0x80402000" "0x80300000" "0x80380000" "\<lambda>t. ReqAlloc 1"] by fastforce
qed

end
