(* ===== verification/Fixed_Vec.thy ===== *)
theory Fixed_Vec
  imports Mem_Global
begin

text \<open>
  \<open>FixedVec\<close> of \<open>src/rust/src/stdlib.rs\<close>: a fixed-size array in memory of the page allocator. The
  elements are bytes of the memory; an element is reached by its address. How a \<open>FixedVec\<close> itself
  lies in memory (the element of a \<open>FixedVec<FixedVec<usize>>\<close>) is up to the compiler, so the layout
  is a parameter: the offsets of the fields, and the tags of \<open>Option<usize>\<close>.
\<close>

record FixedVec =
  fv_ptr :: usize
  fv_cap :: usize
  fv_addr :: PhysAddr

text \<open>\<open>NonNull::new(p).unwrap()\<close>.\<close>

definition NonNull_unwrap :: "usize \<Rightarrow> usize outcome" where
  "NonNull_unwrap a = (if a = 0 then Panic UnwrapNone else Ret a)"

text \<open>\<open>FixedVec<T>::new\<close>; \<open>sz\<close> is \<open>size_of::<T>()\<close>.\<close>

definition FixedVec_new :: "profile \<Rightarrow> usize \<Rightarrow> usize \<Rightarrow> 'z mem_state_scheme \<Rightarrow>
    (FixedVec \<times> 'z mem_state_scheme) outcome" where
  "FixedVec_new p sz cap w =
     obind (assert (sz \<noteq> 0) ''Zero-sized types are not allowed.'') (\<lambda>_.
     obind (u_mul p cap sz) (\<lambda>n.
     obind (assert (n \<le> 0x7FFFFFFF) ''Allocation is too large.'') (\<lambda>_.
     obind (phalloc p w n) (\<lambda>(r, w).
     obind (unwrap r) (\<lambda>phys_addr.
     obind (NonNull_unwrap (PhysAddr_as_mut_ptr phys_addr)) (\<lambda>ptr.
     Ret (\<lparr>fv_ptr = ptr, fv_cap = cap, fv_addr = phys_addr\<rparr>, w)))))))"

definition FixedVec_cap :: "FixedVec \<Rightarrow> usize" where
  "FixedVec_cap self = fv_cap self"

definition FixedVec_as_ptr :: "FixedVec \<Rightarrow> usize" where
  "FixedVec_as_ptr self = fv_ptr self"

text \<open>\<open>index\<close> and \<open>index_mut\<close>: the address of the element.\<close>

definition FixedVec_index :: "usize \<Rightarrow> FixedVec \<Rightarrow> usize \<Rightarrow> usize outcome" where
  "FixedVec_index sz self i =
     obind (assert (i < fv_cap self) ''Index out of bounds.'') (\<lambda>_. Ret (fv_ptr self + i * sz))"

definition FixedVec_index_mut :: "usize \<Rightarrow> FixedVec \<Rightarrow> usize \<Rightarrow> usize outcome" where
  "FixedVec_index_mut sz self i =
     obind (assert (i < fv_cap self) ''Index out of bounds.'') (\<lambda>_. Ret (fv_ptr self + i * sz))"

definition FixedVec_deref :: "FixedVec \<Rightarrow> raw_slice" where
  "FixedVec_deref self = RawSlice (fv_ptr self) (fv_cap self)"

definition FixedVec_deref_mut :: "FixedVec \<Rightarrow> raw_slice" where
  "FixedVec_deref_mut self = RawSlice (fv_ptr self) (fv_cap self)"

text \<open>\<open>drop\<close>: the elements in order, then the memory. \<open>drop_elem\<close> is \<open>drop_in_place\<close> of an element.\<close>

fun drop_elems :: "(usize \<Rightarrow> 's \<Rightarrow> 's outcome) \<Rightarrow> usize \<Rightarrow> usize \<Rightarrow> nat list \<Rightarrow> 's \<Rightarrow> 's outcome" where
  "drop_elems drop_elem ptr sz [] w = Ret w"
| "drop_elems drop_elem ptr sz (i # is) w =
     obind (drop_elem (ptr + of_nat i * sz) w) (drop_elems drop_elem ptr sz is)"

definition FixedVec_drop ::
    "profile \<Rightarrow> (usize \<Rightarrow> 'z mem_state_scheme \<Rightarrow> 'z mem_state_scheme outcome) \<Rightarrow> usize \<Rightarrow> FixedVec \<Rightarrow>
     'z mem_state_scheme \<Rightarrow> 'z mem_state_scheme outcome" where
  "FixedVec_drop p drop_elem sz self w =
     obind (drop_elems drop_elem (fv_ptr self) sz [0..<unat (fv_cap self)] w) (\<lambda>w.
     phree p w (fv_addr self))"

text \<open>Dropping a \<open>usize\<close> does nothing.\<close>

definition usize_drop :: "usize \<Rightarrow> 's \<Rightarrow> 's outcome" where
  "usize_drop a w = Ret w"

lemma usize_drops [simp]: "drop_elems usize_drop ptr sz is w = Ret w"
  by (induction "is") (simp_all add: usize_drop_def)


section \<open>A \<open>FixedVec\<close> in memory\<close>

record fv_layout =
  fv_size :: usize
  off_ptr :: usize
  off_cap :: usize
  off_addr :: usize
  off_tag :: usize
  off_val :: usize
  tag_none :: usize
  tag_some :: usize

definition load_fv :: "fv_layout \<Rightarrow> ram \<Rightarrow> usize \<Rightarrow> FixedVec" where
  "load_fv L m a =
     \<lparr>fv_ptr = load32 m (a + off_ptr L), fv_cap = load32 m (a + off_cap L),
      fv_addr = PhysAddr (load32 m (a + off_addr L))
        (if load32 m (a + off_tag L) = tag_none L then None else Some (load32 m (a + off_val L)))\<rparr>"

definition store_fv :: "fv_layout \<Rightarrow> ram \<Rightarrow> usize \<Rightarrow> FixedVec \<Rightarrow> ram" where
  "store_fv L m a v =
     (let m = store32 m (a + off_ptr L) (fv_ptr v);
          m = store32 m (a + off_cap L) (fv_cap v);
          m = store32 m (a + off_addr L) (pa_addr (fv_addr v))
      in case pa_size (fv_addr v) of
           None \<Rightarrow> store32 m (a + off_tag L) (tag_none L)
         | Some s \<Rightarrow> store32 (store32 m (a + off_tag L) (tag_some L)) (a + off_val L) s)"

text \<open>
  What every layout of the compiler satisfies: the five words of the struct are apart and inside
  it. And what the kernel relies on beyond that: the tag of \<open>None\<close> is zero, so that the struct read
  from zeroed memory owns no block.
\<close>

definition fv_layout_ok :: "fv_layout \<Rightarrow> bool" where
  "fv_layout_ok L \<longleftrightarrow>
     20 \<le> fv_size L \<and> fv_size L \<le> 32 \<and>
     (\<forall>o1\<in>set [off_ptr L, off_cap L, off_addr L, off_tag L, off_val L].
        unat o1 + 4 \<le> unat (fv_size L)) \<and>
     sorted_wrt (\<lambda>o1 o2. unat o1 + 4 \<le> unat o2 \<or> unat o2 + 4 \<le> unat o1)
       [off_ptr L, off_cap L, off_addr L, off_tag L, off_val L] \<and>
     tag_none L = 0 \<and> tag_some L \<noteq> 0"

lemma apartI:
  assumes "unat a + 4 \<le> unat b \<or> unat b + 4 \<le> unat a" "unat a + 4 \<le> 2 ^ 32" "unat b + 4 \<le> 2 ^ 32"
  shows "apart a b"
proof -
  have "4 \<le> unat (a - b)" "4 \<le> unat (b - a)"
    using assms by (auto simp: unat_sub_if')
  then show ?thesis by (simp add: apart_def word_le_nat_alt)
qed

text \<open>The words of a struct at \<open>a\<close>.\<close>

lemma field_unat:
  "unat a + unat sz \<le> 2 ^ 32 \<Longrightarrow> unat o1 + 4 \<le> unat sz \<Longrightarrow> unat (a + o1) = unat a + unat o1"
  for a :: usize
  by (intro unat_add_ok) linarith

lemma fields_apart:
  assumes "unat a + unat sz \<le> 2 ^ 32" "unat o1 + 4 \<le> unat sz" "unat o2 + 4 \<le> unat sz"
    "unat o1 + 4 \<le> unat o2 \<or> unat o2 + 4 \<le> unat o1"
  shows "apart (a + o1) (a + o2)"
  using assms field_unat [OF assms(1,2)] field_unat [OF assms(1,3)] by (intro apartI) auto

lemma load_store_fv:
  assumes L: "fv_layout_ok L" and a: "unat a + unat (fv_size L) \<le> 2 ^ 32"
  shows "load_fv L (store_fv L m a v) a = v"
proof -
  note ap = fields_apart [OF a]
  have ap': "apart (a + off_ptr L) (a + off_cap L)" "apart (a + off_ptr L) (a + off_addr L)"
    "apart (a + off_ptr L) (a + off_tag L)" "apart (a + off_ptr L) (a + off_val L)"
    "apart (a + off_cap L) (a + off_addr L)" "apart (a + off_cap L) (a + off_tag L)"
    "apart (a + off_cap L) (a + off_val L)" "apart (a + off_addr L) (a + off_tag L)"
    "apart (a + off_addr L) (a + off_val L)" "apart (a + off_tag L) (a + off_val L)"
    using L by (auto simp: fv_layout_ok_def intro!: ap)
  note ap'' = ap' [THEN apart_sym [THEN iffD1]]
  have tags: "tag_none L = 0" "tag_some L \<noteq> 0" using L by (auto simp: fv_layout_ok_def)
  show ?thesis
  proof (cases "pa_size (fv_addr v)")
    case None
    then have "fv_addr v = PhysAddr (pa_addr (fv_addr v)) None" by (simp add: PhysAddr.expand)
    then show ?thesis using None ap' ap'' by (simp add: load_fv_def store_fv_def)
  next
    case (Some s)
    then have "fv_addr v = PhysAddr (pa_addr (fv_addr v)) (Some s)" by (simp add: PhysAddr.expand)
    then show ?thesis using Some ap' ap'' tags by (simp add: load_fv_def store_fv_def)
  qed
qed

text \<open>What a \<open>FixedVec\<close> in memory depends on.\<close>

lemma fields_inside:
  assumes "fv_layout_ok L" "unat a + unat (fv_size L) \<le> 2 ^ 32"
    and "o1 \<in> {off_ptr L, off_cap L, off_addr L, off_tag L, off_val L}"
  shows "unat (a + o1) + 4 \<le> 2 ^ 32"
    "{unat (a + o1)..<unat (a + o1) + 4} \<subseteq> {unat a..<unat a + unat (fv_size L)}"
proof -
  have o1: "unat o1 + 4 \<le> unat (fv_size L)" using assms(1,3) by (auto simp: fv_layout_ok_def)
  then have "unat (a + o1) = unat a + unat o1" using assms(2) by (intro field_unat)
  then show "unat (a + o1) + 4 \<le> 2 ^ 32"
    "{unat (a + o1)..<unat (a + o1) + 4} \<subseteq> {unat a..<unat a + unat (fv_size L)}"
    using o1 assms(2) by auto
qed

lemma load_fv_on:
  assumes L: "fv_layout_ok L" and a: "unat a + unat (fv_size L) \<le> 2 ^ 32"
    and "unchanged_on S m m'" "{unat a..<unat a + unat (fv_size L)} \<subseteq> S"
  shows "load_fv L m' a = load_fv L m a"
proof -
  have "load32 m' (a + o1) = load32 m (a + o1)"
    if "o1 \<in> {off_ptr L, off_cap L, off_addr L, off_tag L, off_val L}" for o1
    using fields_inside [OF L a that] assms(3,4) by (intro load32_on [of S]) auto
  then show ?thesis by (simp add: load_fv_def)
qed

lemma store_fv_on:
  assumes L: "fv_layout_ok L" and a: "unat a + unat (fv_size L) \<le> 2 ^ 32"
    and S: "{unat a..<unat a + unat (fv_size L)} \<inter> S = {}"
  shows "unchanged_on S m (store_fv L m a v)"
proof -
  have w: "unchanged_on S m' (store32 m' (a + o1) x)"
    if "o1 \<in> {off_ptr L, off_cap L, off_addr L, off_tag L, off_val L}" for o1 m' x
    by (rule store32_on [OF fields_inside(1) [OF L a that]]) (use fields_inside(2) [OF L a that] S in blast)
  show ?thesis
    by (cases "pa_size (fv_addr v)") (auto simp: store_fv_def intro!: unchanged_on_trans [OF _ w])
qed

lemma load_fv_zero:
  assumes L: "fv_layout_ok L" and a: "unat a + unat (fv_size L) \<le> 2 ^ 32"
    and z: "\<And>x. unat a \<le> unat x \<Longrightarrow> unat x < unat a + unat (fv_size L) \<Longrightarrow> m x = 0"
  shows "load_fv L m a = \<lparr>fv_ptr = 0, fv_cap = 0, fv_addr = PhysAddr 0 None\<rparr>"
proof -
  have "load32 m (a + o1) = 0" if o1: "o1 \<in> {off_ptr L, off_cap L, off_addr L, off_tag L, off_val L}" for o1
  proof (rule load32_zero)
    show "unat (a + o1) + 4 \<le> 2 ^ 32" using fields_inside [OF L a o1] by simp
    show "m x = 0" if "unat (a + o1) \<le> unat x" "unat x < unat (a + o1) + 4" for x
      using fields_inside(2) [OF L a o1] that by (intro z) (auto dest!: subsetD [where c = "unat x"])
  qed
  then show ?thesis using L by (simp add: load_fv_def fv_layout_ok_def)
qed


section \<open>Allocation of zeroed memory\<close>

text \<open>
  The kernel zeroes the managed memory at boot. As long as no block is released, what is not live
  stays zero.
\<close>

definition gregion :: "'z mem_state_scheme \<Rightarrow> nat set" where
  "gregion w = extent (unat (pa_addr (m_start (gmem w))), levels (gmem w) + 12)"

definition zero_free :: "'z mem_state_scheme \<Rightarrow> bool" where
  "zero_free w \<longleftrightarrow>
     (\<forall>x. unat x \<in> gregion w \<longrightarrow> (\<forall>b\<in>glive w. unat x \<notin> extent b) \<longrightarrow> mram w x = 0)"

definition kmem_ok :: "'z mem_state_scheme \<Rightarrow> bool" where
  "kmem_ok w \<longleftrightarrow> gmem_ok w \<and> zero_free w"

lemma live_in_region: "gmem_ok w \<Longrightarrow> b \<in> glive w \<Longrightarrow> extent b \<subseteq> gregion w"
  unfolding gregion_def glive_def live_def by (rule blocks_extent)

text \<open>What a successful allocation gives the caller.\<close>

definition new_block :: "'z mem_state_scheme \<Rightarrow> nat \<times> nat \<Rightarrow> 'z mem_state_scheme \<Rightarrow> bool" where
  "new_block w b w' \<longleftrightarrow>
     kmem_ok w' \<and> glive w' = insert b (glive w) \<and> b \<notin> glive w \<and> gregion w' = gregion w \<and>
     gcapacity w' = gcapacity w \<and> mram w' = mram w \<and> mem_state.more w' = mem_state.more w \<and>
     (\<forall>x. unat x \<in> extent b \<longrightarrow> mram w x = 0) \<and> snd b < 32"

lemma phalloc_cases:
  assumes w: "kmem_ok w" and n: "n \<noteq> 0" "unat n \<le> gcapacity w"
  shows "(\<exists>w'. phalloc p w n = Ret (Err OutOfMemory, w')) \<or>
    (\<exists>a k w'. phalloc p w n = Ret (Ok (PhysAddr a (Some (2 ^ k))), w') \<and>
       new_block w (unat a, k) w' \<and> unat n \<le> 2 ^ k)"
proof -
  have g: "gmem_ok w" and z: "zero_free w" and mi: "memory_is w (gmem w)" and mo: "mem_ok (gmem w)"
    using w by (auto simp: kmem_ok_def gmem_ok_def)
  from gbuddy.alloc_outcome [OF g n, of p] show ?thesis
  proof (elim disjE exE conjE)
    fix a k w'
    assume r: "buddy_alloc p w n = Ret (Ok (PhysAddr a (Some (2 ^ k))), w')"
      and w': "gmem_ok w'" "gcapacity w' = gcapacity w" "unat n \<le> 2 ^ k" "(unat a, k) \<notin> glive w"
        "glive w' = insert (unat a, k) (glive w)" "k < 32"
    obtain m' where m': "w' = set_memory m' w" "Memory_buddy_alloc p (gmem w) n = Ret (Ok (PhysAddr a (Some (2 ^ k))), m')"
      using r by (auto simp: buddy_alloc_eq [OF mi] obind_eq_Ret)
    have "m_start m' = m_start (gmem w)"
      using buddy_alloc_cases [OF mo n(1), of p] n(2) m'(2) by (auto simp: gcapacity_def)
    then have reg: "gregion w' = gregion w"
      using w'(2) by (simp add: gregion_def m'(1) gcapacity_def capacity_levels)
    have same: "mram w' = mram w" "mem_state.more w' = mem_state.more w" by (simp_all add: m'(1))
    have zero: "mram w x = 0" if "unat x \<in> extent (unat a, k)" for x
    proof -
      have "(unat a, k) \<in> glive w'" using w'(5) by simp
      then have "unat x \<in> gregion w" using live_in_region [OF w'(1)] that reg by blast
      moreover have "\<forall>b\<in>glive w. unat x \<notin> extent b"
        using gbuddy.live_apart [OF w'(1), of _ "(unat a, k)"] w'(4,5) that by blast
      ultimately show ?thesis using z by (simp add: zero_free_def)
    qed
    have "zero_free w'" using z w'(5) reg same by (simp add: zero_free_def)
    then have "new_block w (unat a, k) w'"
      using w' reg same zero by (simp add: new_block_def kmem_ok_def)
    then show ?thesis using r w'(3) unfolding phalloc_def by blast
  qed (auto simp: phalloc_def)
qed

lemma FixedVec_new_cases:
  assumes w: "kmem_ok w" and sz: "sz \<noteq> 0" and cap: "cap \<noteq> 0" "unat cap * unat sz \<le> gcapacity w"
    "unat cap * unat sz < 2 ^ 31"
  shows "FixedVec_new p sz cap w = Panic UnwrapNone \<or>
    (\<exists>a k w'. FixedVec_new p sz cap w =
        Ret (\<lparr>fv_ptr = a, fv_cap = cap, fv_addr = PhysAddr a (Some (2 ^ k))\<rparr>, w') \<and>
       new_block w (unat a, k) w' \<and> unat cap * unat sz \<le> 2 ^ k)"
proof -
  have u: "unat (cap * sz) = unat cap * unat sz" "u_mul p cap sz = Ret (cap * sz)"
    using cap(3) by (auto intro: unat_mul_ok u_mul_ok)
  have "unat cap * unat sz \<noteq> 0" using cap(1) sz by (simp add: unat_eq_0)
  then have "unat (cap * sz) \<noteq> 0" using u(1) by linarith
  then have n: "cap * sz \<noteq> 0" "unat (cap * sz) \<le> gcapacity w" "cap * sz \<le> 0x7FFFFFFF"
    using u(1) cap by (auto simp: word_le_nat_alt)
  note simps = FixedVec_new_def NonNull_unwrap_def PhysAddr_as_mut_ptr_def
  from phalloc_cases [OF w n(1,2), of p] show ?thesis
  proof (elim disjE exE conjE)
    fix a k w'
    assume r: "phalloc p w (cap * sz) = Ret (Ok (PhysAddr a (Some (2 ^ k))), w')"
      and nb: "new_block w (unat a, k) w'" "unat (cap * sz) \<le> 2 ^ k"
    show ?thesis
    proof (cases "a = 0")
      case True
      then show ?thesis using r sz u n(3) by (simp add: simps)
    next
      case False
      then have "FixedVec_new p sz cap w =
          Ret (\<lparr>fv_ptr = a, fv_cap = cap, fv_addr = PhysAddr a (Some (2 ^ k))\<rparr>, w')"
        using r sz u n(3) by (simp add: simps)
      then show ?thesis using nb u(1) by auto
    qed
  qed (use sz u n(3) in \<open>simp add: simps\<close>)
qed

text \<open>The elements of a vector lie in its block, one after the other.\<close>

lemma elem_unat:
  fixes a i sz cap :: usize
  assumes "unat i < unat cap" "unat cap * unat sz \<le> 2 ^ k" "unat a + 2 ^ k \<le> 2 ^ 32"
  shows "unat (a + i * sz) = unat a + unat i * unat sz"
    "unat (a + i * sz) + unat sz \<le> unat a + unat cap * unat sz"
proof -
  have "(unat i + 1) * unat sz \<le> unat cap * unat sz" using assms(1) by (intro mult_le_mono1) simp
  then have le: "unat i * unat sz + unat sz \<le> unat cap * unat sz" by simp
  show u: "unat (a + i * sz) = unat a + unat i * unat sz"
  proof (cases "unat sz = 0")
    case False
    then have s: "unat i * unat sz < 2 ^ 32" using le assms(2,3) by linarith
    then have "unat (i * sz) = unat i * unat sz" by (rule unat_mul_ok)
    moreover have "unat a + unat i * unat sz < 2 ^ 32" using le assms(2,3) False by linarith
    ultimately show ?thesis by (simp add: unat_add_ok)
  qed (simp add: unat_eq_0)
  show "unat (a + i * sz) + unat sz \<le> unat a + unat cap * unat sz" using u le by simp
qed

lemma elem_inside:
  fixes a i sz cap :: usize
  assumes "unat i < unat cap" "unat cap * unat sz \<le> 2 ^ k" "unat a + 2 ^ k \<le> 2 ^ 32"
  shows "{unat (a + i * sz)..<unat (a + i * sz) + unat sz} \<subseteq> extent (unat a, k)"
    "unat (a + i * sz) + unat sz \<le> 2 ^ 32"
  using elem_unat [OF assms] assms(2,3) by auto

lemma elems_disjoint:
  fixes a i j sz cap :: usize
  assumes "unat i < unat cap" "unat j < unat cap" "i \<noteq> j" "unat cap * unat sz \<le> 2 ^ k" "unat a + 2 ^ k \<le> 2 ^ 32"
  shows "{unat (a + i * sz)..<unat (a + i * sz) + unat sz} \<inter>
    {unat (a + j * sz)..<unat (a + j * sz) + unat sz} = {}"
proof -
  have "unat i \<noteq> unat j" using assms(3) by (simp add: word_unat_eq_iff)
  then have "unat i + 1 \<le> unat j \<or> unat j + 1 \<le> unat i" by linarith
  then have "(unat i + 1) * unat sz \<le> unat j * unat sz \<or> (unat j + 1) * unat sz \<le> unat i * unat sz"
    using mult_le_mono1 by blast
  then show ?thesis
    using elem_unat(1) [OF assms(1,4,5)] elem_unat(1) [OF assms(2,4,5)] by auto
qed

end
