(* ===== verification/Vm.thy ===== *)
theory Vm
  imports Fixed_Vec
begin

text \<open>
  The page tables of \<open>src/rust/src/vm.rs\<close>: a root table of 1024 entries that the hardware walks,
  and beside it a vector of the \<open>FixedVec\<close>s that own the second-level tables. The specification is
  the address translation of the Sv32 scheme of the RISC-V privileged architecture.
\<close>

definition SATP_SV32 :: usize where "SATP_SV32 = push_bit 31 1"
definition PAGE_V :: usize where "PAGE_V = push_bit 0 1"
definition PAGE_R :: usize where "PAGE_R = push_bit 1 1"
definition PAGE_W :: usize where "PAGE_W = push_bit 2 1"
definition PAGE_X :: usize where "PAGE_X = push_bit 3 1"
definition PAGE_U :: usize where "PAGE_U = push_bit 4 1"

record PageTable =
  root_pt :: FixedVec
  second_pts :: FixedVec

definition PageTable_new :: "profile \<Rightarrow> fv_layout \<Rightarrow> 'z mem_state_scheme \<Rightarrow>
    (PageTable \<times> 'z mem_state_scheme) outcome" where
  "PageTable_new p L w =
     obind (FixedVec_new p 4 1024 w) (\<lambda>(root, w).
     obind (FixedVec_new p (fv_size L) 1024 w) (\<lambda>(second, w).
     Ret (\<lparr>root_pt = root, second_pts = second\<rparr>, w)))"

definition root_pt_addr :: "PageTable \<Rightarrow> usize" where
  "root_pt_addr self = FixedVec_as_ptr (root_pt self)"

text \<open>
  The second-level table is created when the root entry is not valid: the new vector replaces the
  one in \<open>second_pts\<close>, which is dropped, and the root entry is written.
\<close>

definition create_second_pt :: "profile \<Rightarrow> fv_layout \<Rightarrow> PageTable \<Rightarrow> usize \<Rightarrow> 'z mem_state_scheme \<Rightarrow>
    'z mem_state_scheme outcome" where
  "create_second_pt p L self vpn1 w =
     obind (FixedVec_new p 4 1024 w) (\<lambda>(second_pt, w).
     let second_pt_phys_addr = FixedVec_as_ptr second_pt in
     obind (FixedVec_index_mut (fv_size L) (second_pts self) vpn1) (\<lambda>slot.
     obind (FixedVec_drop p usize_drop 4 (load_fv L (mram w) slot) w) (\<lambda>w.
     let w = w\<lparr>mram := store_fv L (mram w) slot second_pt\<rparr> in
     obind (u_div second_pt_phys_addr PAGE_SIZE) (\<lambda>ppn.
     obind (FixedVec_index_mut 4 (root_pt self) vpn1) (\<lambda>e.
     Ret (w\<lparr>mram := store32 (mram w) e (push_bit 10 ppn OR PAGE_V)\<rparr>))))))"

definition write_pte :: "fv_layout \<Rightarrow> PageTable \<Rightarrow> usize \<Rightarrow> usize \<Rightarrow> usize \<Rightarrow> usize \<Rightarrow>
    'z mem_state_scheme \<Rightarrow> 'z mem_state_scheme outcome" where
  "write_pte L self vpn1 vpn0 paddr flags w =
     obind (FixedVec_index_mut (fv_size L) (second_pts self) vpn1) (\<lambda>slot.
     let second_pt = load_fv L (mram w) slot in
     obind (u_div paddr PAGE_SIZE) (\<lambda>ppn.
     obind (FixedVec_index_mut 4 second_pt vpn0) (\<lambda>e.
     Ret (w\<lparr>mram := store32 (mram w) e (push_bit 10 ppn OR flags OR PAGE_V)\<rparr>))))"

definition map_page :: "profile \<Rightarrow> fv_layout \<Rightarrow> PageTable \<Rightarrow> usize \<Rightarrow> usize \<Rightarrow> usize \<Rightarrow>
    'z mem_state_scheme \<Rightarrow> 'z mem_state_scheme outcome" where
  "map_page p L self vaddr paddr flags w =
     obind (u_rem vaddr PAGE_SIZE) (\<lambda>r.
     if r \<noteq> 0 then Panic (Formatted ''unaligned vaddr {vaddr:x}'' [vaddr])
     else
       obind (u_rem paddr PAGE_SIZE) (\<lambda>r.
       if r \<noteq> 0 then Panic (Formatted ''unaligned paddr {paddr:x}'' [paddr])
       else
         let vpn1 = drop_bit 22 vaddr AND 0x3FF in
         obind (FixedVec_index 4 (root_pt self) vpn1) (\<lambda>e.
         obind (if load32 (mram w) e AND PAGE_V = 0 then create_second_pt p L self vpn1 w else Ret w)
           (\<lambda>w.
         let vpn0 = drop_bit 12 vaddr AND 0x3FF in
         write_pte L self vpn1 vpn0 paddr flags w))))"


section \<open>Address translation\<close>

text \<open>
  Sv32: the page that a virtual address is translated to, with the low ten bits of the entry, or
  \<open>None\<close> for a page fault. A root entry with one of the bits R, W, X is a leaf (a 4 MB page).
\<close>

definition sv32_walk :: "ram \<Rightarrow> usize \<Rightarrow> usize \<Rightarrow> (usize \<times> usize) option" where
  "sv32_walk m root va =
     (let vpn1 = drop_bit 22 va AND 0x3FF;
          vpn0 = drop_bit 12 va AND 0x3FF;
          pte1 = load32 m (root + vpn1 * 4) in
      if pte1 AND 1 = 0 then None
      else if pte1 AND 0xE \<noteq> 0 then Some (push_bit 12 (drop_bit 10 pte1 OR vpn0), pte1 AND 0x3FF)
      else
        let pte0 = load32 m (push_bit 12 (drop_bit 10 pte1) + vpn0 * 4) in
        if pte0 AND 1 = 0 \<or> pte0 AND 0xE = 0 then None
        else Some (push_bit 12 (drop_bit 10 pte0), pte0 AND 0x3FF))"

definition vm_lookup :: "'z mem_state_scheme \<Rightarrow> PageTable \<Rightarrow> usize \<Rightarrow> (usize \<times> usize) option" where
  "vm_lookup w pt va = sv32_walk (mram w) (root_pt_addr pt) va"

lemma vpn_take_bit: "(x AND 0x3FF :: usize) = take_bit 10 x"
  by (simp add: take_bit_eq_mask mask_eq_decr_exp and.commute)

lemma vpn_less: "(drop_bit n va AND 0x3FF :: usize) < 1024"
proof -
  have "unat (take_bit 10 (drop_bit n va)) = take_bit 10 (unat (drop_bit n va))"
    by (rule unsigned_take_bit_eq)
  then have "unat (take_bit 10 (drop_bit n va)) < 1024"
    using take_bit_nat_less_exp [of 10 "unat (drop_bit n va)"] by simp
  then show ?thesis by (simp add: vpn_take_bit word_less_nat_alt)
qed

text \<open>The fields of an entry, bit by bit.\<close>

lemma flag_bits:
  assumes "(f :: usize) < 1024" "10 \<le> n"
  shows "\<not> bit f n"
proof -
  have "unat f < 2 ^ 10" using assms(1) by (simp add: word_less_nat_alt)
  then have "take_bit 10 (unat f) = unat f" by (rule take_bit_nat_eq_self)
  then have "unat (take_bit 10 f) = unat f" by (simp add: unsigned_take_bit_eq)
  then have "take_bit 10 f = f" by (simp only: unsigned_word_eqI)
  then have "bit f n \<longleftrightarrow> bit (take_bit 10 f) n" by simp
  then show ?thesis using assms(2) by (simp add: bit_take_bit_iff)
qed

lemma page_bits:
  assumes "(4096::nat) dvd unat (a :: usize)" "n < 12"
  shows "\<not> bit a n"
proof -
  have "take_bit 12 (unat a) = 0" using assms(1) by (simp add: take_bit_eq_mod)
  then have "unat (take_bit 12 a) = 0" by (simp add: unsigned_take_bit_eq)
  then have "take_bit 12 a = 0" by (simp add: unat_eq_0)
  then have "\<not> bit (take_bit 12 a) n" by simp
  then show ?thesis using assms(2) by (simp add: bit_take_bit_iff)
qed

lemma div_page: "(a :: usize) div 4096 = drop_bit 12 a"
  by (simp add: drop_bit_eq_div)

lemma pte_ppn:
  assumes "4096 dvd unat a" "f < 1024"
  shows "push_bit 12 (drop_bit 10 (push_bit 10 (a div 4096) OR f)) = (a :: usize)"
proof (rule bit_word_eqI)
  fix n assume "n < LENGTH(32)"
  then show "bit (push_bit 12 (drop_bit 10 (push_bit 10 (a div 4096) OR f))) n = bit a n"
    using page_bits [OF assms(1), of n] flag_bits [OF assms(2), of "n - 2"]
    by (cases "n < 12") (auto simp: div_page bit_simps)
qed

lemma pte_flags:
  assumes "f < 1024"
  shows "(push_bit 10 (a div 4096) OR f) AND 0x3FF = (f :: usize)"
  unfolding vpn_take_bit
proof (rule bit_word_eqI)
  fix n
  show "bit (take_bit 10 (push_bit 10 (a div 4096) OR f)) n = bit f n"
    using flag_bits [OF assms, of n] by (cases "n < 10") (auto simp: bit_simps)
qed

text \<open>The bits that decide the walk are those of the flags.\<close>

lemma pte_low:
  assumes "c AND 0x3FF = (c :: usize)" "f < 1024"
  shows "(push_bit 10 (a div 4096) OR f) AND c = f AND c"
proof -
  let ?x = "push_bit 10 (a div 4096) OR f"
  have "?x AND c = ?x AND (0x3FF AND c)" using assms(1) by (simp only: and.commute [of _ c])
  also have "\<dots> = (?x AND 0x3FF) AND c" by (rule and.assoc [symmetric])
  finally show ?thesis by (simp only: pte_flags [OF assms(2)])
qed

lemmas pte_valid = pte_low [where c = 1, simplified] and pte_leaf = pte_low [where c = "0xE", simplified]

end
