(* ===== verification/Vm_Map.thy ===== *)
theory Vm_Map
  imports Vm
begin

text \<open>
  \<open>map_page\<close> against the translation of the hardware: the invariant of a page table, which ties the
  root table, the vector of owners and the live blocks of the allocator together, and what a call
  changes.
\<close>

section \<open>Pages\<close>

definition page :: "usize \<Rightarrow> nat set" where
  "page a = {unat a..<unat a + 4096}"

definition owned :: "'z mem_state_scheme \<Rightarrow> usize \<Rightarrow> bool" where
  "owned w a \<longleftrightarrow> (\<exists>k. (unat a, k) \<in> glive w)"

lemma live_page:
  assumes "gmem_ok w" "(unat a, k) \<in> glive w"
  shows "page a \<subseteq> extent (unat a, k)" "unat a + 2 ^ k \<le> 2 ^ 32" "4096 dvd unat a"
proof -
  have k: "12 \<le> k" and "4096 dvd unat a" using gbuddy.live_aligned [OF assms] by auto
  then show "4096 dvd unat a" by simp
  have "(2::nat) ^ 12 \<le> 2 ^ k" using k by (intro power_increasing) simp_all
  then show "page a \<subseteq> extent (unat a, k)" by (auto simp: page_def)
  show "unat a + 2 ^ k \<le> 2 ^ 32" using gbuddy.live_bound [OF assms] .
qed

lemma owned_page:
  assumes "gmem_ok w" "owned w a"
  shows "unat a + 4096 \<le> 2 ^ 32" "4096 dvd unat a"
proof -
  obtain k where k: "(unat a, k) \<in> glive w" using assms(2) by (auto simp: owned_def)
  have "unat a + 4095 \<in> page a" by (simp add: page_def)
  then have "unat a + 4095 \<in> extent (unat a, k)" using live_page(1) [OF assms(1) k] by blast
  then show "unat a + 4096 \<le> 2 ^ 32" using live_page(2) [OF assms(1) k] by simp
  show "4096 dvd unat a" using live_page(3) [OF assms(1) k] .
qed

lemma live_disjoint:
  assumes "gmem_ok w" "(unat a, k) \<in> glive w" "(unat b, j) \<in> glive w" "a \<noteq> b"
  shows "extent (unat a, k) \<inter> extent (unat b, j) = {}"
  using assms by (intro gbuddy.live_apart) (auto simp: word_unat_eq_iff)

lemma owned_disjoint:
  assumes "gmem_ok w" "owned w a" "(unat b, j) \<in> glive w" "a \<noteq> b"
  shows "page a \<inter> extent (unat b, j) = {}"
proof -
  obtain k where k: "(unat a, k) \<in> glive w" using assms(2) by (auto simp: owned_def)
  show ?thesis using live_disjoint [OF assms(1) k assms(3,4)] live_page(1) [OF assms(1) k] by blast
qed

lemma pages_disjoint:
  assumes "gmem_ok w" "owned w a" "owned w b" "a \<noteq> b"
  shows "page a \<inter> page b = {}"
proof -
  obtain j where j: "(unat b, j) \<in> glive w" using assms(3) by (auto simp: owned_def)
  show ?thesis using owned_disjoint [OF assms(1,2) j assms(4)] live_page(1) [OF assms(1) j] by blast
qed

text \<open>The words of a table.\<close>

definition entry :: "usize \<Rightarrow> usize \<Rightarrow> usize" where
  "entry a i = a + i * 4"

lemma entry_unat:
  assumes "unat a + 4096 \<le> 2 ^ 32" "i < 1024"
  shows "unat (entry a i) = unat a + unat i * 4" "unat (entry a i) + 4 \<le> 2 ^ 32"
    "{unat (entry a i)..<unat (entry a i) + 4} \<subseteq> page a"
proof -
  have i: "unat i < 1024" using assms(2) by (simp add: word_less_nat_alt)
  show u: "unat (entry a i) = unat a + unat i * 4"
    using elem_unat(1) [of i 1024 4 12 a] assms(1) i by (simp add: entry_def)
  then show "unat (entry a i) + 4 \<le> 2 ^ 32"
    "{unat (entry a i)..<unat (entry a i) + 4} \<subseteq> page a"
    using i assms(1) by (auto simp: page_def)
qed

lemma entries_apart:
  assumes "unat a + 4096 \<le> 2 ^ 32" "i < 1024" "j < 1024" "i \<noteq> j"
  shows "{unat (entry a i)..<unat (entry a i) + 4} \<inter> {unat (entry a j)..<unat (entry a j) + 4} = {}"
proof -
  have "unat i \<noteq> unat j" using assms(4) by (simp add: word_unat_eq_iff)
  then show ?thesis using entry_unat(1) [OF assms(1,2)] entry_unat(1) [OF assms(1,3)] by auto
qed


section \<open>The invariant\<close>

definition pte1 :: "'z mem_state_scheme \<Rightarrow> PageTable \<Rightarrow> usize \<Rightarrow> usize" where
  "pte1 w pt i = load32 (mram w) (entry (fv_ptr (root_pt pt)) i)"

definition slot_addr :: "fv_layout \<Rightarrow> PageTable \<Rightarrow> usize \<Rightarrow> usize" where
  "slot_addr L pt i = fv_ptr (second_pts pt) + i * fv_size L"

definition slot :: "fv_layout \<Rightarrow> 'z mem_state_scheme \<Rightarrow> PageTable \<Rightarrow> usize \<Rightarrow> FixedVec" where
  "slot L w pt i = load_fv L (mram w) (slot_addr L pt i)"

definition valid :: "'z mem_state_scheme \<Rightarrow> PageTable \<Rightarrow> usize \<Rightarrow> bool" where
  "valid w pt i \<longleftrightarrow> pte1 w pt i AND 1 \<noteq> 0"

text \<open>The two arrays of a page table are distinct live blocks.\<close>

definition pt_frame :: "fv_layout \<Rightarrow> 'z mem_state_scheme \<Rightarrow> PageTable \<Rightarrow> nat \<Rightarrow> bool" where
  "pt_frame L w pt k \<longleftrightarrow>
     fv_cap (root_pt pt) = 1024 \<and> fv_cap (second_pts pt) = 1024 \<and>
     owned w (fv_ptr (root_pt pt)) \<and> (unat (fv_ptr (second_pts pt)), k) \<in> glive w \<and>
     1024 * unat (fv_size L) \<le> 2 ^ k \<and> fv_ptr (root_pt pt) \<noteq> fv_ptr (second_pts pt)"

text \<open>Entry \<open>i\<close>: not valid and without an owner, or pointing to the page that its owner holds.\<close>

definition pt_entry :: "fv_layout \<Rightarrow> 'z mem_state_scheme \<Rightarrow> PageTable \<Rightarrow> usize \<Rightarrow> bool" where
  "pt_entry L w pt i \<longleftrightarrow>
     (if valid w pt i then
        fv_cap (slot L w pt i) = 1024 \<and> owned w (fv_ptr (slot L w pt i)) \<and>
        fv_ptr (slot L w pt i) \<noteq> fv_ptr (root_pt pt) \<and>
        fv_ptr (slot L w pt i) \<noteq> fv_ptr (second_pts pt) \<and>
        pte1 w pt i = push_bit 10 (fv_ptr (slot L w pt i) div 4096) OR 1
      else pa_size (fv_addr (slot L w pt i)) = None)"

definition pt_ok :: "fv_layout \<Rightarrow> 'z mem_state_scheme \<Rightarrow> PageTable \<Rightarrow> nat \<Rightarrow> bool" where
  "pt_ok L w pt k \<longleftrightarrow>
     pt_frame L w pt k \<and> (\<forall>i<1024. pt_entry L w pt i) \<and>
     (\<forall>i<1024. \<forall>j<1024. valid w pt i \<longrightarrow> valid w pt j \<longrightarrow>
        fv_ptr (slot L w pt i) = fv_ptr (slot L w pt j) \<longrightarrow> i = j)"

lemma slot_range:
  assumes L: "fv_layout_ok L" and g: "gmem_ok w" and f: "pt_frame L w pt k" and i: "i < 1024"
  shows "unat (slot_addr L pt i) + unat (fv_size L) \<le> 2 ^ 32"
    "{unat (slot_addr L pt i)..<unat (slot_addr L pt i) + unat (fv_size L)}
       \<subseteq> extent (unat (fv_ptr (second_pts pt)), k)"
proof -
  have k: "(unat (fv_ptr (second_pts pt)), k) \<in> glive w" "1024 * unat (fv_size L) \<le> 2 ^ k"
    using f by (auto simp: pt_frame_def)
  have "unat i < unat (1024 :: usize)" using i by (simp add: word_less_nat_alt)
  from elem_inside [OF this, of "fv_size L" k "fv_ptr (second_pts pt)"] show
    "unat (slot_addr L pt i) + unat (fv_size L) \<le> 2 ^ 32"
    "{unat (slot_addr L pt i)..<unat (slot_addr L pt i) + unat (fv_size L)}
       \<subseteq> extent (unat (fv_ptr (second_pts pt)), k)"
    using k live_page(2) [OF g k(1)] by (auto simp: slot_addr_def)
qed

lemma slots_disjoint:
  assumes g: "gmem_ok w" and f: "pt_frame L w pt k" and i: "i < 1024" "j < 1024" "i \<noteq> j"
  shows "{unat (slot_addr L pt i)..<unat (slot_addr L pt i) + unat (fv_size L)} \<inter>
    {unat (slot_addr L pt j)..<unat (slot_addr L pt j) + unat (fv_size L)} = {}"
proof -
  have k: "(unat (fv_ptr (second_pts pt)), k) \<in> glive w" "1024 * unat (fv_size L) \<le> 2 ^ k"
    using f by (auto simp: pt_frame_def)
  have ij: "unat i < unat (1024 :: usize)" "unat j < unat (1024 :: usize)"
    using i by (simp_all add: word_less_nat_alt)
  show ?thesis
    unfolding slot_addr_def
    using k live_page(2) [OF g k(1)] by (intro elems_disjoint [OF ij i(3)]) simp_all
qed

text \<open>The walk, read off the invariant.\<close>

definition leaf :: "usize \<Rightarrow> (usize \<times> usize) option" where
  "leaf e = (if e AND 1 = 0 \<or> e AND 0xE = 0 then None else Some (push_bit 12 (drop_bit 10 e), e AND 0x3FF))"

lemma lookup_eq:
  assumes g: "gmem_ok w" and ok: "pt_ok L w pt k"
  defines "i \<equiv> \<lambda>va. drop_bit 22 va AND 0x3FF" and "j \<equiv> \<lambda>va. drop_bit 12 va AND 0x3FF"
  shows "vm_lookup w pt va =
    (if valid w pt (i va) then leaf (load32 (mram w) (entry (fv_ptr (slot L w pt (i va))) (j va)))
     else None)"
proof (cases "valid w pt (i va)")
  case True
  have "pt_entry L w pt (i va)" using ok vpn_less by (simp add: pt_ok_def i_def)
  then have e: "pte1 w pt (i va) = push_bit 10 (fv_ptr (slot L w pt (i va)) div 4096) OR 1"
    and o: "owned w (fv_ptr (slot L w pt (i va)))"
    using True by (auto simp: pt_entry_def)
  have "pte1 w pt (i va) AND 0xE = 0" unfolding e by (subst pte_leaf) simp_all
  moreover have "push_bit 12 (drop_bit 10 (pte1 w pt (i va))) = fv_ptr (slot L w pt (i va))"
    unfolding e using owned_page(2) [OF g o] by (intro pte_ppn) simp_all
  ultimately show ?thesis
    using True
    by (simp add: vm_lookup_def sv32_walk_def root_pt_addr_def FixedVec_as_ptr_def Let_def
        pte1_def entry_def valid_def i_def j_def leaf_def)
next
  case False
  then show ?thesis
    by (simp add: vm_lookup_def sv32_walk_def root_pt_addr_def FixedVec_as_ptr_def Let_def
        pte1_def entry_def valid_def i_def)
qed


section \<open>What a change of the memory does to a page table\<close>

lemma mram_update [simp]:
  "gmem (w\<lparr>mram := m\<rparr>) = gmem w" "gmem_ok (w\<lparr>mram := m\<rparr>) = gmem_ok w"
  "glive (w\<lparr>mram := m\<rparr>) = glive w" "gregion (w\<lparr>mram := m\<rparr>) = gregion w"
  "gcapacity (w\<lparr>mram := m\<rparr>) = gcapacity w" "owned (w\<lparr>mram := m\<rparr>) = owned w"
  "memory_is (w\<lparr>mram := m\<rparr>) d = memory_is w d"
  by (simp_all add: gmem_def gmem_ok_def glive_def gregion_def gcapacity_def owned_def memory_is_def
      fun_eq_iff)

definition live_bytes :: "'z mem_state_scheme \<Rightarrow> nat set" where
  "live_bytes w = (\<Union>b\<in>glive w. extent b)"

lemma zero_free_update:
  "zero_free w \<Longrightarrow> unchanged_on (- live_bytes w) (mram w) m \<Longrightarrow> zero_free (w\<lparr>mram := m\<rparr>)"
  by (auto simp: zero_free_def unchanged_on_def live_bytes_def)

lemma owned_bytes: "gmem_ok w \<Longrightarrow> owned w a \<Longrightarrow> page a \<subseteq> live_bytes w"
  using live_page(1) by (fastforce simp: live_bytes_def owned_def)

text \<open>The tables of the page table itself, and all the memory that belongs to it.\<close>

definition pt_tables :: "PageTable \<Rightarrow> nat \<Rightarrow> nat set" where
  "pt_tables pt k = page (fv_ptr (root_pt pt)) \<union> extent (unat (fv_ptr (second_pts pt)), k)"

definition pt_bytes :: "fv_layout \<Rightarrow> 'z mem_state_scheme \<Rightarrow> PageTable \<Rightarrow> nat \<Rightarrow> nat set" where
  "pt_bytes L w pt k =
     pt_tables pt k \<union> (\<Union>i\<in>{i. i < 1024 \<and> valid w pt i}. page (fv_ptr (slot L w pt i)))"

lemma tables_live: "gmem_ok w \<Longrightarrow> pt_frame L w pt k \<Longrightarrow> pt_tables pt k \<subseteq> live_bytes w"
  using owned_bytes [of w "fv_ptr (root_pt pt)"]
  by (auto simp: pt_tables_def pt_frame_def live_bytes_def)

lemma space_live:
  assumes "gmem_ok w" "pt_ok L w pt k"
  shows "pt_bytes L w pt k \<subseteq> live_bytes w"
proof -
  have "page (fv_ptr (slot L w pt i)) \<subseteq> live_bytes w" if "i < 1024" "valid w pt i" for i
    using assms that by (intro owned_bytes) (simp_all add: pt_ok_def pt_entry_def)
  moreover have "pt_tables pt k \<subseteq> live_bytes w" using assms by (intro tables_live [of _ L]) (simp_all add: pt_ok_def)
  ultimately show ?thesis by (auto simp: pt_bytes_def)
qed

lemma view_unchanged:
  assumes L: "fv_layout_ok L" and g: "gmem_ok w" and f: "pt_frame L w pt k" and i: "i < 1024"
    and u: "unchanged_on (pt_tables pt k) (mram w) (mram w')"
  shows "pte1 w' pt i = pte1 w pt i" "slot L w' pt i = slot L w pt i" "valid w' pt i = valid w pt i"
proof -
  have "owned w (fv_ptr (root_pt pt))" using f by (simp add: pt_frame_def)
  note e = entry_unat [OF owned_page(1) [OF g this] i]
  show p: "pte1 w' pt i = pte1 w pt i"
    unfolding pte1_def using e(2,3) by (intro load32_on [OF u]) (auto simp: pt_tables_def)
  then show "valid w' pt i = valid w pt i" by (simp add: valid_def)
  show "slot L w' pt i = slot L w pt i"
    unfolding slot_def using slot_range [OF L g f i]
    by (intro load_fv_on [OF L _ u]) (auto simp: pt_tables_def)
qed

lemma pt_ok_unchanged:
  assumes L: "fv_layout_ok L" and g: "gmem_ok w" and ok: "pt_ok L w pt k"
    and u: "unchanged_on (pt_tables pt k) (mram w) (mram w')" and l: "glive w \<subseteq> glive w'"
  shows "pt_ok L w' pt k" "pt_bytes L w' pt k = pt_bytes L w pt k"
proof -
  have f: "pt_frame L w pt k" using ok by (simp add: pt_ok_def)
  have f': "pt_frame L w' pt k" using f l by (auto simp: pt_frame_def owned_def)
  note v = view_unchanged [OF L g f _ u]
  have o: "owned w a \<Longrightarrow> owned w' a" for a using l by (auto simp: owned_def)
  show "pt_ok L w' pt k"
    using ok f' v o by (auto simp: pt_ok_def pt_entry_def)
  show "pt_bytes L w' pt k = pt_bytes L w pt k" using v by (auto simp: pt_bytes_def)
qed

text \<open>A change outside the memory of a page table does not change the translation.\<close>

lemma lookup_unchanged:
  assumes L: "fv_layout_ok L" and g: "gmem_ok w" "gmem_ok w'" and ok: "pt_ok L w pt k"
    and u: "unchanged_on (pt_bytes L w pt k) (mram w) (mram w')" and l: "glive w \<subseteq> glive w'"
  shows "vm_lookup w' pt va = vm_lookup w pt va"
proof -
  let ?i = "drop_bit 22 va AND 0x3FF" and ?j = "drop_bit 12 va AND 0x3FF"
  have f: "pt_frame L w pt k" using ok by (simp add: pt_ok_def)
  have ut: "unchanged_on (pt_tables pt k) (mram w) (mram w')"
    using u by (rule unchanged_on_mono) (auto simp: pt_bytes_def)
  note v = view_unchanged [OF L g(1) f vpn_less ut, of 22 va] and ok' = pt_ok_unchanged(1) [OF L g(1) ok ut l]
  have "load32 (mram w') (entry (fv_ptr (slot L w pt ?i)) ?j) = load32 (mram w) (entry (fv_ptr (slot L w pt ?i)) ?j)"
    if val: "valid w pt ?i"
  proof -
    have "owned w (fv_ptr (slot L w pt ?i))" using ok val vpn_less [of 22 va] by (simp add: pt_ok_def pt_entry_def)
    note e = entry_unat [OF owned_page(1) [OF g(1) this] vpn_less [of 12 va]]
    have "page (fv_ptr (slot L w pt ?i)) \<subseteq> pt_bytes L w pt k" using val vpn_less [of 22 va] by (auto simp: pt_bytes_def)
    then show ?thesis using e by (intro load32_on [OF u]) auto
  qed
  then show ?thesis using v by (simp add: lookup_eq [OF g(1) ok] lookup_eq [OF g(2) ok'])
qed

text \<open>A change that stays within one page table.\<close>

definition pt_step :: "fv_layout \<Rightarrow> PageTable \<Rightarrow> nat \<Rightarrow> 'z mem_state_scheme \<Rightarrow> 'z mem_state_scheme \<Rightarrow> bool" where
  "pt_step L pt k w w' \<longleftrightarrow>
     kmem_ok w' \<and> pt_ok L w' pt k \<and> glive w \<subseteq> glive w' \<and> gregion w' = gregion w \<and>
     gcapacity w' = gcapacity w \<and> mem_state.more w' = mem_state.more w \<and>
     unchanged_on (live_bytes w - pt_bytes L w pt k) (mram w) (mram w') \<and>
     pt_bytes L w' pt k \<inter> live_bytes w \<subseteq> pt_bytes L w pt k"

lemma pt_step_refl: "kmem_ok w \<Longrightarrow> pt_ok L w pt k \<Longrightarrow> pt_step L pt k w w"
  by (simp add: pt_step_def)

lemma pt_step_trans:
  assumes "pt_step L pt k w w'" "pt_step L pt k w' w''"
  shows "pt_step L pt k w w''"
proof -
  have "live_bytes w \<subseteq> live_bytes w'" using assms(1) by (auto simp: pt_step_def live_bytes_def)
  moreover have "pt_bytes L w' pt k \<inter> live_bytes w \<subseteq> pt_bytes L w pt k"
    using assms(1) by (simp add: pt_step_def)
  ultimately have "live_bytes w - pt_bytes L w pt k \<subseteq> live_bytes w' - pt_bytes L w' pt k" by blast
  then have "unchanged_on (live_bytes w - pt_bytes L w pt k) (mram w) (mram w'')"
    using assms unchanged_on_trans unchanged_on_mono unfolding pt_step_def by blast
  moreover have "pt_bytes L w'' pt k \<inter> live_bytes w \<subseteq> pt_bytes L w pt k"
    using assms \<open>live_bytes w \<subseteq> live_bytes w'\<close> unfolding pt_step_def by blast
  ultimately show ?thesis using assms unfolding pt_step_def by auto
qed


section \<open>Writing a leaf entry\<close>

lemma second_page:
  assumes L: "fv_layout_ok L" and g: "gmem_ok w" and ok: "pt_ok L w pt k" and i: "i < 1024" "valid w pt i"
  defines "q \<equiv> fv_ptr (slot L w pt i)"
  shows "owned w q" "unat q + 4096 \<le> 2 ^ 32" "page q \<inter> pt_tables pt k = {}"
    "j < 1024 \<Longrightarrow> valid w pt j \<Longrightarrow> j \<noteq> i \<Longrightarrow> page (fv_ptr (slot L w pt j)) \<inter> page q = {}"
    "page q \<subseteq> pt_bytes L w pt k"
proof -
  have f: "pt_frame L w pt k" and e: "pt_entry L w pt i" using ok i by (auto simp: pt_ok_def)
  show q: "owned w q" using e i by (simp add: pt_entry_def q_def)
  show "unat q + 4096 \<le> 2 ^ 32" using owned_page(1) [OF g q] .
  have "q \<noteq> fv_ptr (root_pt pt)" "q \<noteq> fv_ptr (second_pts pt)" using e i by (simp_all add: pt_entry_def q_def)
  then show "page q \<inter> pt_tables pt k = {}"
    using f pages_disjoint [OF g q, of "fv_ptr (root_pt pt)"]
      owned_disjoint [OF g q, of "fv_ptr (second_pts pt)" k]
    by (auto simp: pt_tables_def pt_frame_def)
  show "page q \<subseteq> pt_bytes L w pt k" using i by (auto simp: pt_bytes_def q_def)
  assume j: "j < 1024" "valid w pt j" "j \<noteq> i"
  then have "owned w (fv_ptr (slot L w pt j))" using ok by (simp add: pt_ok_def pt_entry_def)
  moreover have "fv_ptr (slot L w pt j) \<noteq> q" using ok i j unfolding pt_ok_def q_def by blast
  ultimately show "page (fv_ptr (slot L w pt j)) \<inter> page q = {}" using q by (intro pages_disjoint [OF g])
qed

lemma write_pte_eq:
  assumes ok: "pt_ok L w pt k" and i: "i < 1024" "valid w pt i" "j < 1024"
  shows "write_pte L pt i j pa fl w =
    Ret (w\<lparr>mram := store32 (mram w) (entry (fv_ptr (slot L w pt i)) j) (push_bit 10 (pa div 4096) OR fl OR 1)\<rparr>)"
proof -
  have "fv_cap (second_pts pt) = 1024" "fv_cap (slot L w pt i) = 1024"
    using ok i by (auto simp: pt_ok_def pt_frame_def pt_entry_def)
  then show ?thesis
    using i by (simp add: write_pte_def FixedVec_index_mut_def slot_def slot_addr_def entry_def u_div_ok
        PAGE_SIZE_def PAGE_V_def Let_def or.assoc)
qed

lemma write_pte_ok:
  fixes v :: usize
  assumes L: "fv_layout_ok L" and w: "kmem_ok w" and ok: "pt_ok L w pt k"
    and i: "i < 1024" "valid w pt i" "j < 1024"
  defines "e \<equiv> entry (fv_ptr (slot L w pt i)) j"
  defines "w' \<equiv> w\<lparr>mram := store32 (mram w) e v\<rparr>"
  shows "pt_step L pt k w w'"
    and "\<And>i'. i' < 1024 \<Longrightarrow> valid w' pt i' = valid w pt i' \<and> slot L w' pt i' = slot L w pt i'"
    and "load32 (mram w') e = v"
    and "\<And>i' j'. i' < 1024 \<Longrightarrow> j' < 1024 \<Longrightarrow> valid w pt i' \<Longrightarrow> i' \<noteq> i \<or> j' \<noteq> j \<Longrightarrow>
      load32 (mram w') (entry (fv_ptr (slot L w pt i')) j') =
      load32 (mram w) (entry (fv_ptr (slot L w pt i')) j')"
proof -
  let ?q = "fv_ptr (slot L w pt i)"
  have g: "gmem_ok w" and z: "zero_free w" using w by (auto simp: kmem_ok_def)
  note sp = second_page [OF L g ok i(1,2)]
  note er = entry_unat [OF sp(2) i(3), folded e_def]
  have wr: "unchanged_on S (mram w) (mram w')" if "page ?q \<inter> S = {}" for S
    unfolding w'_def using er that by (simp add: store32_on disjoint_iff subset_iff)
  have l: "glive w' = glive w" "gmem_ok w'" using g by (simp_all add: w'_def)
  have u: "unchanged_on (pt_tables pt k) (mram w) (mram w')" using wr sp(3) by simp
  have "pt_frame L w pt k" using ok by (simp add: pt_ok_def)
  note same = pt_ok_unchanged [OF L g ok u] and view = view_unchanged [OF L g this _ u]
  have "unchanged_on (- live_bytes w) (mram w) (mram w')" using wr owned_bytes [OF g sp(1)] by blast
  then have "zero_free w'" using zero_free_update [OF z] by (simp add: w'_def)
  moreover have "unchanged_on (live_bytes w - pt_bytes L w pt k) (mram w) (mram w')"
    using sp(5) by (intro wr) blast
  ultimately show "pt_step L pt k w w'"
    using same l by (simp add: pt_step_def kmem_ok_def) (simp add: w'_def)
  show "valid w' pt i' = valid w pt i' \<and> slot L w' pt i' = slot L w pt i'" if "i' < 1024" for i'
    using view that by simp
  show "load32 (mram w') e = v" by (simp add: w'_def)
  fix i' j'
  assume ij: "i' < 1024" "j' < 1024" "valid w pt i'" "i' \<noteq> i \<or> j' \<noteq> j"
  note sp' = second_page(2) [OF L g ok ij(1,3)]
  note er' = entry_unat [OF sp' ij(2)]
  show "load32 (mram w') (entry (fv_ptr (slot L w pt i')) j') =
      load32 (mram w) (entry (fv_ptr (slot L w pt i')) j')"
  proof (rule load32_on [OF _ order.refl er'(2)])
    show "unchanged_on {unat (entry (fv_ptr (slot L w pt i')) j')..<unat (entry (fv_ptr (slot L w pt i')) j') + 4}
        (mram w) (mram w')"
    proof (cases "i' = i")
      case True
      then show ?thesis
        using entries_apart [OF sp(2) i(3) ij(2)] ij(4) er(2)
        by (auto simp: w'_def e_def intro!: store32_on)
    next
      case False
      then show ?thesis using sp(4) [OF ij(1,3)] er'(3) by (intro wr) blast
    qed
  qed
qed


section \<open>Creating a second-level table\<close>

lemma new_block_fresh:
  assumes "new_block w (unat q, kq) w'"
  shows "owned w' q" "owned w a \<Longrightarrow> owned w' a" "owned w a \<Longrightarrow> a \<noteq> q" "page q \<inter> live_bytes w = {}"
    "\<And>x. unat x \<in> page q \<Longrightarrow> mram w x = 0"
proof -
  have g: "gmem_ok w'" and l: "glive w' = insert (unat q, kq) (glive w)" "(unat q, kq) \<notin> glive w"
    and z: "\<forall>x. unat x \<in> extent (unat q, kq) \<longrightarrow> mram w x = 0"
    using assms by (auto simp: new_block_def kmem_ok_def)
  have q: "(unat q, kq) \<in> glive w'" using l by simp
  have d: "extent (unat q, kq) \<inter> extent b = {}" if "b \<in> glive w" for b
    using gbuddy.live_apart [OF g q, of b] that l by auto
  show "owned w' q" using q by (auto simp: owned_def)
  show "owned w a \<Longrightarrow> owned w' a" using l by (auto simp: owned_def)
  show "a \<noteq> q" if own: "owned w a"
  proof
    assume "a = q"
    then obtain k where "(unat q, k) \<in> glive w" using own by (auto simp: owned_def)
    moreover have "unat q \<in> extent (unat q, kq) \<inter> extent (unat q, k)" by simp
    ultimately show False using d by blast
  qed
  have sub: "page q \<subseteq> extent (unat q, kq)" using live_page(1) [OF g q] .
  then show "page q \<inter> live_bytes w = {}" using d by (auto simp: live_bytes_def)
  show "mram w x = 0" if "unat x \<in> page q" for x using z sub that by blast
qed

lemma unat_1024: "unat (1024 :: usize) = 1024"
  by simp

text \<open>The memory after the creation of the table \<open>q\<close> for entry \<open>i\<close>.\<close>

definition second_vec :: "usize \<Rightarrow> nat \<Rightarrow> FixedVec" where
  "second_vec q kq = \<lparr>fv_ptr = q, fv_cap = 1024, fv_addr = PhysAddr q (Some (2 ^ kq))\<rparr>"

lemma second_vec_simps [simp]: "fv_ptr (second_vec q kq) = q" "fv_cap (second_vec q kq) = 1024"
  by (simp_all add: second_vec_def)

definition with_second_pt ::
    "fv_layout \<Rightarrow> PageTable \<Rightarrow> usize \<Rightarrow> 'z mem_state_scheme \<Rightarrow> usize \<Rightarrow> nat \<Rightarrow>
     'z mem_state_scheme \<Rightarrow> 'z mem_state_scheme" where
  "with_second_pt L pt i w q kq w1 =
     w1\<lparr>mram := store32 (store_fv L (mram w) (slot_addr L pt i) (second_vec q kq))
       (entry (fv_ptr (root_pt pt)) i) (push_bit 10 (q div 4096) OR 1)\<rparr>"

lemma new_table_cases':
  assumes "kmem_ok w" "sz \<noteq> 0" "1024 * unat sz \<le> gcapacity w" "1024 * unat sz < 2 ^ 31"
  shows "FixedVec_new p sz 1024 w = Panic UnwrapNone \<or>
    (\<exists>a k w'. FixedVec_new p sz 1024 w = Ret (second_vec a k, w') \<and> new_block w (unat a, k) w' \<and>
       1024 * unat sz \<le> 2 ^ k)"
proof -
  have c: "(1024 :: usize) \<noteq> 0" "unat (1024 :: usize) * unat sz \<le> gcapacity w" "unat (1024 :: usize) * unat sz < 2 ^ 31"
    using assms(3,4) by simp_all
  from FixedVec_new_cases [OF assms(1,2) c, of p] show ?thesis by (simp only: second_vec_def unat_1024)
qed

lemma new_table_cases:
  assumes "kmem_ok w" "4096 \<le> gcapacity w"
  shows "FixedVec_new p 4 1024 w = Panic UnwrapNone \<or>
    (\<exists>a k w'. FixedVec_new p 4 1024 w = Ret (second_vec a k, w') \<and> new_block w (unat a, k) w')"
proof -
  have "(4 :: usize) \<noteq> 0" "1024 * unat (4 :: usize) \<le> gcapacity w" "1024 * unat (4 :: usize) < 2 ^ 31"
    using assms(2) by simp_all
  from new_table_cases' [OF assms(1) this, of p] show ?thesis by blast
qed

lemma create_second_pt_eq:
  assumes w: "kmem_ok w" and ok: "pt_ok L w pt k" and i: "i < 1024" "\<not> valid w pt i"
    and cap: "4096 \<le> gcapacity w"
  shows "FixedVec_new p 4 1024 w = Panic UnwrapNone \<and> create_second_pt p L pt i w = Panic UnwrapNone \<or>
    (\<exists>q kq w1. FixedVec_new p 4 1024 w = Ret (second_vec q kq, w1) \<and> new_block w (unat q, kq) w1 \<and>
       create_second_pt p L pt i w = Ret (with_second_pt L pt i w q kq w1))"
proof -
  from new_table_cases [OF w cap, of p] show ?thesis
  proof (elim disjE exE conjE)
    fix q kq w1
    assume r: "FixedVec_new p 4 1024 w = Ret (second_vec q kq, w1)" and nb: "new_block w (unat q, kq) w1"
    have m: "mram w1 = mram w" "gmem_ok w1" using nb by (auto simp: new_block_def kmem_ok_def)
    have "pa_size (fv_addr (slot L w pt i)) = None"
      using ok i by (simp add: pt_ok_def pt_entry_def)
    then obtain a where "fv_addr (slot L w pt i) = PhysAddr a None"
      by (cases "fv_addr (slot L w pt i)") auto
    then have d: "FixedVec_drop p usize_drop 4 (slot L w pt i) w1 = Ret w1"
      using gbuddy.free_unsized [OF m(2), of p a] by (simp add: FixedVec_drop_def phree_def)
    have c: "fv_cap (root_pt pt) = 1024" "fv_cap (second_pts pt) = 1024"
      using ok by (auto simp: pt_ok_def pt_frame_def)
    have "create_second_pt p L pt i w = Ret (with_second_pt L pt i w q kq w1)"
      using r d c i m(1)
      by (simp add: create_second_pt_def FixedVec_index_mut_def slot_def slot_addr_def entry_def u_div_ok
          PAGE_SIZE_def PAGE_V_def Let_def FixedVec_as_ptr_def with_second_pt_def)
    with nb r show ?thesis by blast
  qed (simp_all add: create_second_pt_def)
qed

lemma create_second_pt_ok:
  assumes L: "fv_layout_ok L" and w: "kmem_ok w" and ok: "pt_ok L w pt k"
    and i: "i < 1024" "\<not> valid w pt i" and nb: "new_block w (unat q, kq) w1"
  defines "w' \<equiv> with_second_pt L pt i w q kq w1"
  shows "valid w' pt i" "slot L w' pt i = second_vec q kq"
    and "\<And>j. j < 1024 \<Longrightarrow> j \<noteq> i \<Longrightarrow>
      pte1 w' pt j = pte1 w pt j \<and> valid w' pt j = valid w pt j \<and> slot L w' pt j = slot L w pt j"
    and "pte1 w' pt i = push_bit 10 (q div 4096) OR 1"
    and "\<And>S. S \<inter> pt_tables pt k = {} \<Longrightarrow> unchanged_on S (mram w) (mram w')"
proof -
  let ?root = "fv_ptr (root_pt pt)" and ?m = "store_fv L (mram w) (slot_addr L pt i) (second_vec q kq)"
  let ?cell = "\<lambda>j. {unat (entry ?root j)..<unat (entry ?root j) + 4}"
  let ?slot = "\<lambda>j. {unat (slot_addr L pt j)..<unat (slot_addr L pt j) + unat (fv_size L)}"
  have g: "gmem_ok w" using w by (simp add: kmem_ok_def)
  have f: "pt_frame L w pt k" using ok by (simp add: pt_ok_def)
  then have ro: "owned w ?root" and se: "(unat (fv_ptr (second_pts pt)), k) \<in> glive w"
    and ne: "?root \<noteq> fv_ptr (second_pts pt)" by (auto simp: pt_frame_def)
  have dj: "page ?root \<inter> extent (unat (fv_ptr (second_pts pt)), k) = {}"
    using owned_disjoint [OF g ro se ne] .
  note en = entry_unat [OF owned_page(1) [OF g ro]] and sl = slot_range [OF L g f]
  have cs: "?cell j \<inter> ?slot j' = {}" if "j < 1024" "j' < 1024" for j j'
    using en(3) [OF that(1)] sl(2) [OF that(2)] dj by blast
  have wf: "unchanged_on S (mram w) ?m" if "?slot i \<inter> S = {}" for S
    using store_fv_on [OF L sl(1) [OF i(1)] that] .
  have we: "unchanged_on S ?m (mram w')" if "?cell i \<inter> S = {}" for S
    using that en(2) [OF i(1)] by (simp add: w'_def with_second_pt_def store32_on)
  have wb: "unchanged_on S (mram w) (mram w')" if "?slot i \<inter> S = {}" "?cell i \<inter> S = {}" for S
    using wf [OF that(1)] we [OF that(2)] by (rule unchanged_on_trans)
  show p: "pte1 w' pt i = push_bit 10 (q div 4096) OR 1" by (simp add: pte1_def w'_def with_second_pt_def)
  then show "valid w' pt i" by (simp add: valid_def pte_valid)
  have "load_fv L (mram w') (slot_addr L pt i) = load_fv L ?m (slot_addr L pt i)"
    using cs [OF i(1) i(1)] by (intro load_fv_on [OF L sl(1) [OF i(1)] we order.refl])
  then show "slot L w' pt i = second_vec q kq" by (simp add: slot_def load_store_fv [OF L sl(1) [OF i(1)]])
  show "unchanged_on S (mram w) (mram w')" if "S \<inter> pt_tables pt k = {}" for S
    using that sl(2) [OF i(1)] en(3) [OF i(1)] by (intro wb) (auto simp: pt_tables_def)
  fix j assume j: "j < 1024" "j \<noteq> i"
  have "unchanged_on (?cell j) (mram w) (mram w')"
    using cs [OF j(1) i(1)] entries_apart [OF owned_page(1) [OF g ro] i(1) j(1)] j(2) by (intro wb) auto
  then have pj: "pte1 w' pt j = pte1 w pt j"
    unfolding pte1_def by (rule load32_on [OF _ order.refl en(2) [OF j(1)]])
  have "unchanged_on (?slot j) (mram w) (mram w')"
    using cs [OF i(1) j(1)] slots_disjoint [OF g f i(1) j(1)] j(2) by (intro wb) auto
  then have "slot L w' pt j = slot L w pt j"
    unfolding slot_def by (rule load_fv_on [OF L sl(1) [OF j(1)] _ order.refl])
  with pj show "pte1 w' pt j = pte1 w pt j \<and> valid w' pt j = valid w pt j \<and> slot L w' pt j = slot L w pt j"
    by (simp add: valid_def)
qed

lemma create_second_pt_step:
  assumes L: "fv_layout_ok L" and w: "kmem_ok w" and ok: "pt_ok L w pt k"
    and i: "i < 1024" "\<not> valid w pt i" and nb: "new_block w (unat q, kq) w1"
  defines "w' \<equiv> with_second_pt L pt i w q kq w1"
  shows "pt_step L pt k w w'"
proof -
  note c = create_second_pt_ok [OF L w ok i nb, folded w'_def] and fr = new_block_fresh [OF nb]
  have g: "gmem_ok w" using w by (simp add: kmem_ok_def)
  have w1: "kmem_ok w1" "glive w1 = insert (unat q, kq) (glive w)" "gregion w1 = gregion w"
      "gcapacity w1 = gcapacity w" "mram w1 = mram w" "mem_state.more w1 = mem_state.more w"
    using nb by (auto simp: new_block_def)
  have f: "pt_frame L w pt k" and uq: "\<And>a b. a < 1024 \<Longrightarrow> b < 1024 \<Longrightarrow> valid w pt a \<Longrightarrow> valid w pt b \<Longrightarrow>
      fv_ptr (slot L w pt a) = fv_ptr (slot L w pt b) \<Longrightarrow> a = b"
    and en: "\<And>j. j < 1024 \<Longrightarrow> pt_entry L w pt j" using ok by (auto simp: pt_ok_def)
  have own: "owned w a \<Longrightarrow> owned w' a" "owned w' q" for a using fr by (simp_all add: w'_def with_second_pt_def)
  have l': "glive w' = glive w1" by (simp add: w'_def with_second_pt_def)
  have f': "pt_frame L w' pt k" using f own(1) w1(2) l' by (auto simp: pt_frame_def)
  have new: "q \<noteq> fv_ptr (root_pt pt)" "q \<noteq> fv_ptr (second_pts pt)"
    using f fr(3) by (auto simp: pt_frame_def owned_def)
  have en': "pt_entry L w' pt j" if j: "j < 1024" for j
  proof (cases "j = i")
    case True
    then show ?thesis using c(1,2,4) own(2) new by (simp add: pt_entry_def)
  next
    case False
    then show ?thesis using c(3) [OF j False] en [OF j] own(1) by (auto simp: pt_entry_def)
  qed
  have old: "fv_ptr (slot L w' pt j) \<noteq> q" if "j < 1024" "j \<noteq> i" "valid w' pt j" for j
    using c(3) [OF that(1,2)] that en [OF that(1)] fr(3) by (auto simp: pt_entry_def)
  have uq': "a = b" if "a < 1024" "b < 1024" "valid w' pt a" "valid w' pt b"
      "fv_ptr (slot L w' pt a) = fv_ptr (slot L w' pt b)" for a b
    using uq [of a b] old [of a] old [of b] that c(2,3)
    by (cases "a = i"; cases "b = i") auto
  have ok': "pt_ok L w' pt k" using f' en' uq' unfolding pt_ok_def by blast
  have tb: "pt_tables pt k \<subseteq> live_bytes w" using tables_live [OF g f] .
  have "unchanged_on (- live_bytes w1) (mram w1) (mram w')"
    using c(5) [of "- live_bytes w1"] tb w1(2,5) by (auto simp: live_bytes_def)
  then have "kmem_ok w'" using w1(1) zero_free_update [of w1 "mram w'"] by (simp add: kmem_ok_def w'_def with_second_pt_def)
  moreover have "unchanged_on (live_bytes w - pt_bytes L w pt k) (mram w) (mram w')"
    by (rule c(5)) (auto simp: pt_bytes_def)
  moreover have "pt_bytes L w' pt k \<inter> live_bytes w \<subseteq> pt_bytes L w pt k"
  proof
    fix x assume x: "x \<in> pt_bytes L w' pt k \<inter> live_bytes w"
    show "x \<in> pt_bytes L w pt k"
    proof (cases "x \<in> pt_tables pt k")
      case False
      then obtain j where j: "j < 1024" "valid w' pt j" "x \<in> page (fv_ptr (slot L w' pt j))"
        using x by (auto simp: pt_bytes_def)
      then have "j \<noteq> i" using x fr(4) c(2) by auto
      then show ?thesis using j c(3) [OF j(1)] by (auto simp: pt_bytes_def)
    qed (simp add: pt_bytes_def)
  qed
  ultimately show ?thesis using ok' w1 l' by (auto simp: pt_step_def w'_def with_second_pt_def)
qed

lemma create_second_pt_lookup:
  assumes L: "fv_layout_ok L" and w: "kmem_ok w" and ok: "pt_ok L w pt k"
    and i: "i < 1024" "\<not> valid w pt i" and nb: "new_block w (unat q, kq) w1"
  defines "w' \<equiv> with_second_pt L pt i w q kq w1"
  shows "vm_lookup w' pt va = vm_lookup w pt va"
proof -
  note c = create_second_pt_ok [OF L w ok i nb, folded w'_def] and fr = new_block_fresh [OF nb]
  have g: "gmem_ok w" using w by (simp add: kmem_ok_def)
  have step: "pt_step L pt k w w'"
    unfolding w'_def by (rule create_second_pt_step [OF L w ok i nb])
  then have ok': "pt_ok L w' pt k" and g': "gmem_ok w'" by (auto simp: pt_step_def kmem_ok_def)
  note eq = lookup_eq [OF g ok, of va] and eq' = lookup_eq [OF g' ok', of va]
  let ?i = "drop_bit 22 va AND 0x3FF" and ?j = "drop_bit 12 va AND 0x3FF"
  have ij: "?i < 1024" "?j < 1024" by (rule vpn_less)+
  have f: "pt_frame L w pt k" using ok by (simp add: pt_ok_def)
  have tb: "pt_tables pt k \<subseteq> live_bytes w" using tables_live [OF g f] .
  show ?thesis
  proof (cases "?i = i")
    case True
    have own: "owned w' q" using fr(1) by (simp add: w'_def with_second_pt_def)
    note er = entry_unat [OF owned_page(1) [OF g' own] ij(2)]
    have "unchanged_on (page q) (mram w) (mram w')" using fr(4) tb by (intro c(5)) blast
    then have "load32 (mram w') (entry q ?j) = load32 (mram w) (entry q ?j)"
      using er by (intro load32_on) auto
    moreover have "load32 (mram w) (entry q ?j) = 0"
      using er by (intro load32_zero fr(5)) (auto simp: subset_iff)
    ultimately show ?thesis using True c(1,2) i(2) by (simp add: eq eq' leaf_def)
  next
    case False
    note cj = c(3) [OF ij(1) False]
    show ?thesis
    proof (cases "valid w pt ?i")
      case True
      note sp = second_page [OF L g ok ij(1) True]
      note er = entry_unat [OF sp(2) ij(2)]
      have "load32 (mram w') (entry (fv_ptr (slot L w pt ?i)) ?j) = load32 (mram w) (entry (fv_ptr (slot L w pt ?i)) ?j)"
        using er c(5) [OF sp(3)] by (intro load32_on) auto
      then show ?thesis using True cj by (simp add: eq eq')
    qed (simp add: eq eq' cj)
  qed
qed


section \<open>\<open>map_page\<close>\<close>

lemma vpns_eq:
  assumes "drop_bit 22 a AND 0x3FF = drop_bit 22 b AND (0x3FF :: usize)"
    "drop_bit 12 a AND 0x3FF = drop_bit 12 b AND (0x3FF :: usize)"
  shows "drop_bit 12 a = drop_bit 12 b"
proof (rule bit_word_eqI)
  fix n assume n: "n < LENGTH(32)"
  have hi: "bit (take_bit 10 (drop_bit 22 a)) (n - 10) = bit (take_bit 10 (drop_bit 22 b)) (n - 10)"
    and lo: "bit (take_bit 10 (drop_bit 12 a)) n = bit (take_bit 10 (drop_bit 12 b)) n"
    using assms by (simp_all only: vpn_take_bit)
  show "bit (drop_bit 12 a) n = bit (drop_bit 12 b) n"
  proof (cases "n < 10")
    case True
    then show ?thesis using lo by (simp add: bit_take_bit_iff)
  next
    case False
    then have e: "12 + n = 22 + (n - 10)" by simp
    show ?thesis
    proof (cases "n < 20")
      case True
      then have "n - 10 < 10" by simp
      then show ?thesis
        using hi unfolding bit_drop_bit_eq o_def e by (simp add: bit_take_bit_iff bit_drop_bit_eq)
    next
      case False
      then show ?thesis using bit_imp_le_length [of a "12 + n"] bit_imp_le_length [of b "12 + n"]
        by (auto simp: bit_drop_bit_eq)
    qed
  qed
qed

lemma write_pte_lookup:
  fixes v :: usize
  assumes L: "fv_layout_ok L" and w: "kmem_ok w" and ok: "pt_ok L w pt k"
  defines "i \<equiv> \<lambda>va. drop_bit 22 va AND 0x3FF" and "j \<equiv> \<lambda>va. drop_bit 12 va AND 0x3FF"
  assumes i: "valid w pt (i va)"
  defines "w' \<equiv> w\<lparr>mram := store32 (mram w) (entry (fv_ptr (slot L w pt (i va))) (j va)) v\<rparr>"
  shows "vm_lookup w' pt va' = (if i va' = i va \<and> j va' = j va then leaf v else vm_lookup w pt va')"
proof -
  have less: "i x < 1024" "j x < 1024" for x unfolding i_def j_def by (rule vpn_less)+
  note wr = write_pte_ok [OF L w ok less(1) i less(2) [of va], where v = v, folded w'_def]
  have g: "gmem_ok w" "gmem_ok w'" and ok': "pt_ok L w' pt k"
    using w wr(1) by (auto simp: kmem_ok_def pt_step_def)
  have eq: "vm_lookup w pt va' = (if valid w pt (i va')
      then leaf (load32 (mram w) (entry (fv_ptr (slot L w pt (i va'))) (j va'))) else None)"
    unfolding i_def j_def by (rule lookup_eq [OF g(1) ok])
  have eq': "vm_lookup w' pt va' = (if valid w' pt (i va')
      then leaf (load32 (mram w') (entry (fv_ptr (slot L w' pt (i va'))) (j va'))) else None)"
    unfolding i_def j_def by (rule lookup_eq [OF g(2) ok'])
  show ?thesis
    using wr(2) [OF less(1), of va'] wr(3) wr(4) [OF less(1) less(2), of va' va'] i
    by (auto simp: eq eq')
qed

lemma map_page_leaf:
  assumes L: "fv_layout_ok L" and w: "kmem_ok w" and ok: "pt_ok L w pt k"
    and i: "valid w pt (drop_bit 22 va AND 0x3FF)"
    and pa: "4096 dvd unat pa" and fl: "fl < 1024" "fl AND 0xE \<noteq> 0"
  shows "\<exists>w'. write_pte L pt (drop_bit 22 va AND 0x3FF) (drop_bit 12 va AND 0x3FF) pa fl w = Ret w' \<and>
    pt_step L pt k w w' \<and> vm_lookup w' pt va = Some (pa, fl OR 1) \<and>
    (\<forall>va'. drop_bit 12 va' \<noteq> drop_bit 12 va \<longrightarrow> vm_lookup w' pt va' = vm_lookup w pt va')"
proof -
  let ?v = "push_bit 10 (pa div 4096) OR (fl OR 1)"
  let ?w = "w\<lparr>mram := store32 (mram w)
    (entry (fv_ptr (slot L w pt (drop_bit 22 va AND 0x3FF))) (drop_bit 12 va AND 0x3FF)) ?v\<rparr>"
  have one: "fl OR 1 < 1024"
  proof -
    have "take_bit 10 (fl OR 1) = fl OR 1"
    proof (rule bit_word_eqI)
      fix n
      show "bit (take_bit 10 (fl OR 1)) n = bit (fl OR 1) n"
        using flag_bits [OF fl(1), of n] by (cases "n < 10") (auto simp: bit_simps)
    qed
    then show ?thesis using vpn_less [of 0 "fl OR 1"] by (simp add: vpn_take_bit)
  qed
  have "(fl OR 1) AND 0xE \<noteq> 0" "(fl OR 1) AND 1 \<noteq> 0"
    using fl(2) by (simp_all add: bit.conj_disj_distrib2)
  then have "leaf ?v = Some (pa, fl OR 1)"
    unfolding leaf_def pte_ppn [OF pa one] pte_flags [OF one] pte_valid [OF one] pte_leaf [OF one]
    by (simp only: if_False simp_thms)
  moreover have "write_pte L pt (drop_bit 22 va AND 0x3FF) (drop_bit 12 va AND 0x3FF) pa fl w = Ret ?w"
    using write_pte_eq [OF ok vpn_less i vpn_less, of 12 va pa fl] by (simp only: or.assoc)
  moreover have "pt_step L pt k w ?w" by (rule write_pte_ok(1) [OF L w ok vpn_less i vpn_less])
  ultimately show ?thesis
    using write_pte_lookup [OF L w ok i, of ?v] vpns_eq by (intro exI [of _ ?w]) auto
qed

lemma map_page_eq:
  assumes ok: "pt_ok L w pt k" and al: "4096 dvd unat va" "4096 dvd unat pa"
  shows "map_page p L pt va pa fl w =
    obind (if \<not> valid w pt (drop_bit 22 va AND 0x3FF) then create_second_pt p L pt (drop_bit 22 va AND 0x3FF) w
           else Ret w)
      (write_pte L pt (drop_bit 22 va AND 0x3FF) (drop_bit 12 va AND 0x3FF) pa fl)"
proof -
  have "u_rem va PAGE_SIZE = Ret 0" "u_rem pa PAGE_SIZE = Ret 0"
    using al by (simp_all add: u_rem_ok PAGE_SIZE_def word_unat_eq_iff unat_mod)
  moreover have "fv_cap (root_pt pt) = 1024" using ok by (simp add: pt_ok_def pt_frame_def)
  ultimately show ?thesis
    using vpn_less [of 22 va]
    by (simp add: map_page_def FixedVec_index_def valid_def pte1_def entry_def PAGE_V_def Let_def)
qed

lemma map_page_ok:
  assumes L: "fv_layout_ok L" and w: "kmem_ok w" and ok: "pt_ok L w pt k" and cap: "4096 \<le> gcapacity w"
    and al: "4096 dvd unat va" "4096 dvd unat pa" and fl: "fl < 1024" "fl AND 0xE \<noteq> 0"
  shows "map_page p L pt va pa fl w = Panic UnwrapNone \<and> FixedVec_new p 4 1024 w = Panic UnwrapNone \<and>
      \<not> valid w pt (drop_bit 22 va AND 0x3FF) \<or>
    (\<exists>w'. map_page p L pt va pa fl w = Ret w' \<and> pt_step L pt k w w' \<and>
       vm_lookup w' pt va = Some (pa, fl OR 1) \<and>
       (\<forall>va'. drop_bit 12 va' \<noteq> drop_bit 12 va \<longrightarrow> vm_lookup w' pt va' = vm_lookup w pt va'))"
proof -
  let ?i = "drop_bit 22 va AND 0x3FF" and ?j = "drop_bit 12 va AND 0x3FF"
  note eq = map_page_eq [OF ok al, of p fl]
  show ?thesis
  proof (cases "valid w pt ?i")
    case True
    from map_page_leaf [OF L w ok True al(2) fl] show ?thesis using True by (simp add: eq)
  next
    case False
    from create_second_pt_eq [OF w ok vpn_less False cap, of p] show ?thesis
    proof (elim disjE exE conjE)
      fix q kq w1
      assume nb: "new_block w (unat q, kq) w1"
        and r: "create_second_pt p L pt ?i w = Ret (with_second_pt L pt ?i w q kq w1)"
      let ?w = "with_second_pt L pt ?i w q kq w1"
      note st = create_second_pt_step [OF L w ok vpn_less False nb]
      have w': "kmem_ok ?w" "pt_ok L ?w pt k" using st by (auto simp: pt_step_def)
      have v: "valid ?w pt ?i" by (rule create_second_pt_ok(1) [OF L w ok vpn_less False nb])
      from map_page_leaf [OF L w' v al(2) fl] show ?thesis
        using False r pt_step_trans [OF st] create_second_pt_lookup [OF L w ok vpn_less False nb]
        by (auto simp: eq)
    qed (simp add: eq False)
  qed
qed

text \<open>Which entries of the root are valid after a call, and which block it allocates.\<close>

lemma map_page_effect:
  assumes L: "fv_layout_ok L" and w: "kmem_ok w" and ok: "pt_ok L w pt k" and cap: "4096 \<le> gcapacity w"
    and al: "4096 dvd unat va" "4096 dvd unat pa" and ret: "map_page p L pt va pa fl w = Ret w'"
  defines "i \<equiv> drop_bit 22 va AND 0x3FF"
  shows "j < 1024 \<Longrightarrow> valid w' pt j \<longleftrightarrow> valid w pt j \<or> j = i"
    and "valid w pt i \<Longrightarrow> glive w' = glive w"
    and "\<not> valid w pt i \<Longrightarrow> \<exists>q kq w1. FixedVec_new p 4 1024 w = Ret (second_vec q kq, w1) \<and>
      new_block w (unat q, kq) w1 \<and> glive w' = glive w1"
proof -
  note eq = map_page_eq [OF ok al, of p fl, folded i_def] and less = vpn_less [of 22 va, folded i_def]
  have leaf: "(\<forall>j<1024. valid w' pt j = valid w1 pt j) \<and> glive w' = glive w1"
    if "kmem_ok w1" "pt_ok L w1 pt k" "valid w1 pt i" "write_pte L pt i (drop_bit 12 va AND 0x3FF) pa fl w1 = Ret w'" for w1
    using write_pte_ok(2) [OF L that(1,2) less that(3) vpn_less] that(4)
    by (auto simp: write_pte_eq [OF that(2) less that(3) vpn_less])
  have "(j < 1024 \<longrightarrow> valid w' pt j = (valid w pt j \<or> j = i)) \<and> (valid w pt i \<longrightarrow> glive w' = glive w) \<and>
     (\<not> valid w pt i \<longrightarrow> (\<exists>q kq w1. FixedVec_new p 4 1024 w = Ret (second_vec q kq, w1) \<and>
        new_block w (unat q, kq) w1 \<and> glive w' = glive w1))"
  proof (cases "valid w pt i")
    case True
    then show ?thesis using leaf [OF w ok True] ret by (auto simp: eq)
  next
    case False
    from create_second_pt_eq [OF w ok less False cap, of p] obtain q kq w1 where
      r: "FixedVec_new p 4 1024 w = Ret (second_vec q kq, w1)" and nb: "new_block w (unat q, kq) w1"
      and c: "create_second_pt p L pt i w = Ret (with_second_pt L pt i w q kq w1)"
      using ret False by (auto simp: eq)
    let ?w = "with_second_pt L pt i w q kq w1"
    note st = create_second_pt_step [OF L w ok less False nb] and cr = create_second_pt_ok [OF L w ok less False nb]
    have "kmem_ok ?w" "pt_ok L ?w pt k" using st by (auto simp: pt_step_def)
    from leaf [OF this cr(1)] have "\<forall>j<1024. valid w' pt j = valid ?w pt j" "glive w' = glive ?w"
      using ret False c by (auto simp: eq)
    moreover have "glive ?w = glive w1" by (simp add: with_second_pt_def)
    ultimately show ?thesis using False r nb cr(1,3) by auto
  qed
  then show "j < 1024 \<Longrightarrow> valid w' pt j \<longleftrightarrow> valid w pt j \<or> j = i"
    "valid w pt i \<Longrightarrow> glive w' = glive w"
    "\<not> valid w pt i \<Longrightarrow> \<exists>q kq w1. FixedVec_new p 4 1024 w = Ret (second_vec q kq, w1) \<and>
      new_block w (unat q, kq) w1 \<and> glive w' = glive w1"
    by auto
qed


section \<open>\<open>PageTable::new\<close>\<close>

text \<open>A table in zeroed memory has no valid entry and no owner.\<close>

lemma zeroed_tables:
  assumes L: "fv_layout_ok L" and g: "gmem_ok w" and f: "pt_frame L w pt k"
    and z: "\<And>x. unat x \<in> pt_tables pt k \<Longrightarrow> mram w x = 0"
  shows "pt_ok L w pt k" "vm_lookup w pt va = None" "pt_bytes L w pt k = pt_tables pt k"
proof -
  have ro: "owned w (fv_ptr (root_pt pt))" using f by (simp add: pt_frame_def)
  have nv: "\<not> valid w pt i" if "i < 1024" for i
  proof -
    note e = entry_unat [OF owned_page(1) [OF g ro] that]
    have "pte1 w pt i = 0"
      unfolding pte1_def using e(2,3)
      by (intro load32_zero z) (auto simp: pt_tables_def subset_iff)
    then show ?thesis by (simp add: valid_def)
  qed
  have "slot L w pt i = \<lparr>fv_ptr = 0, fv_cap = 0, fv_addr = PhysAddr 0 None\<rparr>" if "i < 1024" for i
    unfolding slot_def using slot_range [OF L g f that]
    by (intro load_fv_zero [OF L] z) (auto simp: pt_tables_def subset_iff)
  then show ok: "pt_ok L w pt k" using f nv by (auto simp: pt_ok_def pt_entry_def)
  show "vm_lookup w pt va = None" using nv [OF vpn_less] by (simp add: lookup_eq [OF g ok])
  show "pt_bytes L w pt k = pt_tables pt k" using nv by (auto simp: pt_bytes_def)
qed

lemma PageTable_new_cases:
  assumes L: "fv_layout_ok L" and w: "kmem_ok w" and cap: "32768 \<le> gcapacity w"
  shows "PageTable_new p L w = Panic UnwrapNone \<or>
    (\<exists>pt w' k. PageTable_new p L w = Ret (pt, w') \<and> kmem_ok w' \<and> pt_ok L w' pt k \<and>
       (\<forall>va. vm_lookup w' pt va = None) \<and> mram w' = mram w \<and> glive w \<subseteq> glive w' \<and>
       gregion w' = gregion w \<and> gcapacity w' = gcapacity w \<and> mem_state.more w' = mem_state.more w \<and>
       pt_bytes L w' pt k \<inter> live_bytes w = {})"
proof -
  have "20 \<le> unat (fv_size L)" "unat (fv_size L) \<le> 32"
    using L unfolding fv_layout_ok_def word_le_nat_alt by simp_all
  then have sz: "fv_size L \<noteq> 0" "1024 * unat (fv_size L) \<le> 32768" by auto
  have "FixedVec_new p 4 1024 w = Panic UnwrapNone \<or>
      (\<exists>a k w'. FixedVec_new p 4 1024 w = Ret (second_vec a k, w') \<and> new_block w (unat a, k) w')"
    by (rule new_table_cases [OF w]) (use cap in simp_all)
  then show ?thesis
  proof (elim disjE exE conjE)
    fix a ka w1
    assume r1: "FixedVec_new p 4 1024 w = Ret (second_vec a ka, w1)" and n1: "new_block w (unat a, ka) w1"
    have w1: "kmem_ok w1" "gcapacity w1 = gcapacity w" using n1 by (auto simp: new_block_def)
    have "FixedVec_new p (fv_size L) 1024 w1 = Panic UnwrapNone \<or>
        (\<exists>b k w'. FixedVec_new p (fv_size L) 1024 w1 = Ret (second_vec b k, w') \<and>
           new_block w1 (unat b, k) w' \<and> 1024 * unat (fv_size L) \<le> 2 ^ k)"
      by (rule new_table_cases' [OF w1(1) sz(1)]) (use sz(2) cap w1(2) in simp_all)
    then show ?thesis
    proof (elim disjE exE conjE)
      fix b k w2
      assume r2: "FixedVec_new p (fv_size L) 1024 w1 = Ret (second_vec b k, w2)"
        and n2: "new_block w1 (unat b, k) w2" and k: "1024 * unat (fv_size L) \<le> 2 ^ k"
      let ?pt = "\<lparr>root_pt = second_vec a ka, second_pts = second_vec b k\<rparr>"
      note f1 = new_block_fresh [OF n1] and f2 = new_block_fresh [OF n2]
      have g2: "gmem_ok w2" "mram w2 = mram w1" "mram w1 = mram w" and bz: "\<And>x. unat x \<in> extent (unat b, k) \<Longrightarrow> mram w1 x = 0"
        and bl: "(unat b, k) \<in> glive w2" "(unat b, k) \<notin> glive w1" "glive w \<subseteq> glive w1" "glive w1 \<subseteq> glive w2"
        using n1 n2 by (auto simp: new_block_def kmem_ok_def)
      have fr: "pt_frame L w2 ?pt k"
        using f2(2) [OF f1(1)] f2(3) [OF f1(1)] bl(1) k by (auto simp: pt_frame_def)
      have "mram w2 x = 0" if "unat x \<in> pt_tables ?pt k" for x
        using that f1(5) bz g2(2,3) by (auto simp: pt_tables_def)
      note zt = zeroed_tables [OF L g2(1) fr this]
      have same: "kmem_ok w2" "glive w \<subseteq> glive w2" "gregion w2 = gregion w" "gcapacity w2 = gcapacity w"
          "mem_state.more w2 = mem_state.more w" "mram w2 = mram w"
        using n1 n2 by (simp_all add: new_block_def subset_insertI2)
      have "extent (unat b, k) \<inter> extent c = {}" if "c \<in> glive w" for c
      proof -
        have "c \<in> glive w2" "(unat b, k) \<noteq> c" using that bl(2-4) by auto
        then show ?thesis by (rule gbuddy.live_apart [OF g2(1) bl(1)])
      qed
      then have "pt_tables ?pt k \<inter> live_bytes w = {}" using f1(4) by (auto simp: pt_tables_def live_bytes_def)
      moreover have "PageTable_new p L w = Ret (?pt, w2)" by (simp add: PageTable_new_def r1 r2)
      ultimately show ?thesis
        using zt same by (intro disjI2 exI [of _ ?pt] exI [of _ w2] exI [of _ k]) simp
    qed (simp add: PageTable_new_def r1)
  qed (simp add: PageTable_new_def)
qed

end
