(* ===== verification/Vm_Properties.thy ===== *)
theory Vm_Properties
  imports Vm_Map
begin

text \<open>
  The properties of \<open>FixedVec\<close> and of the page tables, with witnesses on a memory of 16 pages.
\<close>

section \<open>A memory of sixteen pages\<close>

definition memory16 :: Memory where
  "memory16 =
     \<lparr>m_start = PhysAddr 0x80400000 None, m_end = PhysAddr 0x80410000 None, mem_size = 0x10000,
      buddy_node_count = 31, buddy_high_order = 16, buddy_low_order = 12, buddy_stack_size = 124,
      buddy_stack = replicate 5 0, buddy_meta = replicate 31 Free\<rparr>"

definition kernel16 :: mem_state where
  "kernel16 = \<lparr>mram = (\<lambda>_. 0), MEMORY = \<lparr>once = \<lparr>state = 2\<rparr>, oc_value = Some \<lparr>lock = 0, data = memory16\<rparr>\<rparr>\<rparr>"

text \<open>A layout of \<open>FixedVec\<close> that the compiler may choose.\<close>

definition plain_layout :: fv_layout where
  "plain_layout = \<lparr>fv_size = 20, off_ptr = 0, off_cap = 4, off_addr = 8, off_tag = 12, off_val = 16,
     tag_none = 0, tag_some = 1\<rparr>"

lemma plain_layout_ok: "fv_layout_ok plain_layout"
  by (simp add: fv_layout_ok_def plain_layout_def)

lemma memory16_ok: "mem_ok memory16" "capacity memory16 = 65536" "live memory16 = {}"
proof -
  have "layout_ok 16 0x80400000 0x80410000 0x80300000 0x80380000" by (simp add: layout_ok_def)
  moreover have l: "ilog2_nat 16 = 4" using ilog2_nat_power [of 4] by simp
  moreover have "fresh_memory 16 0x80400000 0x80410000 memory16"
    by (simp add: fresh_memory_def memory16_def l)
  ultimately show "mem_ok memory16" "capacity memory16 = 65536" "live memory16 = {}"
    using fresh_memory_ok [of 16] by (auto simp: capacity_def)
qed

lemma gmem16 [simp]: "gmem kernel16 = memory16"
  by (simp add: gmem_def kernel16_def)

lemma kernel16_ok: "kmem_ok kernel16" "gcapacity kernel16 = 65536" "glive kernel16 = {}"
proof -
  have "memory_is kernel16 memory16" by (simp add: memory_is_def kernel16_def completed_new)
  then show "kmem_ok kernel16"
    using memory16_ok by (simp add: kmem_ok_def gmem_ok_def zero_free_def) (simp add: kernel16_def)
  show "gcapacity kernel16 = 65536" "glive kernel16 = {}"
    using memory16_ok by (simp_all add: gcapacity_def glive_def)
qed

lemma kernel16_is: "memory_is kernel16 memory16"
  by (simp add: memory_is_def kernel16_def completed_new)

text \<open>The first allocations succeed.\<close>

definition memory16_one :: Memory where
  "memory16_one = memory16\<lparr>buddy_stack := [2, 4, 8, 16, 15],
     buddy_meta := [Split, Split, Free, Split, Free, Free, Free, Split, Free, Free, Free, Free, Free,
       Free, Free, Allocated] @ replicate 15 Free\<rparr>"

text \<open>The root table at \<open>0x80400000\<close>, the vector of owners, a second-level table.\<close>

definition memory16_two :: Memory where
  "memory16_two = memory16_one\<lparr>buddy_stack := [2, 1, 8, 16, 15],
     buddy_meta := (buddy_meta memory16_one)[2 := Allocated]\<rparr>"

definition memory16_three :: Memory where
  "memory16_three = memory16_two\<lparr>buddy_stack := [2, 4, 8, 16, 15],
     buddy_meta := (buddy_meta memory16_two)[16 := Allocated]\<rparr>"

lemma alloc16:
  "Memory_buddy_alloc Release memory16 4096 = Ret (Ok (PhysAddr 0x80400000 (Some 4096)), memory16_one)"
  "Memory_buddy_alloc Release memory16_one 20480 = Ret (Ok (PhysAddr 0x80408000 (Some 32768)), memory16_two)"
  "Memory_buddy_alloc Release memory16_two 4096 = Ret (Ok (PhysAddr 0x80401000 (Some 4096)), memory16_three)"
  by code_simp+

lemma FixedVec_new16:
  "\<exists>w. FixedVec_new Release 4 1024 kernel16 = Ret (second_vec 0x80400000 12, w)"
  by (simp add: FixedVec_new_def u_mul_def phalloc_def buddy_alloc_eq [OF kernel16_is] alloc16
      NonNull_unwrap_def PhysAddr_as_mut_ptr_def second_vec_def)

definition pt16 :: PageTable where
  "pt16 = \<lparr>root_pt = second_vec 0x80400000 12, second_pts = second_vec 0x80408000 15\<rparr>"

definition kernel16_pt :: mem_state where
  "kernel16_pt = set_memory memory16_two (set_memory memory16_one kernel16)"


lemma PageTable_new16: "PageTable_new Release plain_layout kernel16 = Ret (pt16, kernel16_pt)"
  by (simp add: PageTable_new_def FixedVec_new_def u_mul_def phalloc_def buddy_alloc_eq [OF kernel16_is]
      buddy_alloc_eq [OF memory_is_set [OF kernel16_is]] alloc16 NonNull_unwrap_def
      PhysAddr_as_mut_ptr_def plain_layout_def pt16_def kernel16_pt_def second_vec_def)




section \<open>\<open>FixedVec\<close>\<close>

text \<open>
  C19. On a consistent, zeroed memory \<open>FixedVec::new\<close> returns a vector in a fresh block or panics in
  \<open>unwrap\<close> when there is none. Every index below the capacity gives an element that lies inside the
  block, zeroed and apart from the other elements and from every live block; every other index
  panics.
\<close>

theorem FixedVec_new_correct:
  assumes "kmem_ok w" "sz \<noteq> 0" "cap \<noteq> 0" "unat cap * unat sz \<le> gcapacity w" "unat cap * unat sz < 2 ^ 31"
  shows "FixedVec_new p sz cap w = Panic UnwrapNone \<or>
    (\<exists>v w' b. FixedVec_new p sz cap w = Ret (v, w') \<and> kmem_ok w' \<and> glive w' = insert b (glive w) \<and>
       b \<notin> glive w \<and> mram w' = mram w \<and>
       (\<forall>i<cap. \<exists>a. FixedVec_index sz v i = Ret a \<and> {unat a..<unat a + unat sz} \<subseteq> extent b \<and>
          (\<forall>x. unat a \<le> unat x \<and> unat x < unat a + unat sz \<longrightarrow> mram w' x = 0) \<and>
          (\<forall>j<cap. j \<noteq> i \<longrightarrow> (\<exists>c. FixedVec_index sz v j = Ret c \<and>
             {unat a..<unat a + unat sz} \<inter> {unat c..<unat c + unat sz} = {}))) \<and>
       (\<forall>i. cap \<le> i \<longrightarrow> FixedVec_index sz v i = Panic (Assert ''Index out of bounds.'')))"
  using FixedVec_new_cases [OF assms, of p]
proof (elim disjE exE conjE)
  fix a k w'
  let ?v = "\<lparr>fv_ptr = a, fv_cap = cap, fv_addr = PhysAddr a (Some (2 ^ k))\<rparr>"
  assume r: "FixedVec_new p sz cap w = Ret (?v, w')" and nb: "new_block w (unat a, k) w'"
    and k: "unat cap * unat sz \<le> 2 ^ k"
  have w': "kmem_ok w'" "gmem_ok w'" "(unat a, k) \<in> glive w'" using nb by (auto simp: new_block_def kmem_ok_def)
  have bd: "unat a + 2 ^ k \<le> 2 ^ 32" using live_page(2) [OF w'(2,3)] .
  have ix: "FixedVec_index sz ?v i = Ret (a + i * sz)" if "i < cap" for i
    using that by (simp add: FixedVec_index_def)
  have inb: "{unat (a + i * sz)..<unat (a + i * sz) + unat sz} \<subseteq> extent (unat a, k)" if "i < cap" for i
    using elem_inside(1) [OF _ k bd] that by (simp add: word_less_nat_alt)
  have dj: "{unat (a + i * sz)..<unat (a + i * sz) + unat sz} \<inter>
      {unat (a + j * sz)..<unat (a + j * sz) + unat sz} = {}" if "i < cap" "j < cap" "j \<noteq> i" for i j
    using elems_disjoint [OF _ _ _ k bd] that by (simp add: word_less_nat_alt)
  have z: "mram w' x = 0" if "unat x \<in> extent (unat a, k)" for x using nb that by (simp add: new_block_def)
  have oob: "\<forall>i. cap \<le> i \<longrightarrow> FixedVec_index sz ?v i = Panic (Assert ''Index out of bounds.'')"
    by (simp add: FixedVec_index_def flip: not_less)
  have "\<forall>i<cap. \<exists>e. FixedVec_index sz ?v i = Ret e \<and> {unat e..<unat e + unat sz} \<subseteq> extent (unat a, k) \<and>
      (\<forall>x. unat e \<le> unat x \<and> unat x < unat e + unat sz \<longrightarrow> mram w' x = 0) \<and>
      (\<forall>j<cap. j \<noteq> i \<longrightarrow> (\<exists>c. FixedVec_index sz ?v j = Ret c \<and>
         {unat e..<unat e + unat sz} \<inter> {unat c..<unat c + unat sz} = {}))"
  proof (intro allI impI)
    fix i assume i: "i < cap"
    have "mram w' x = 0" if "unat (a + i * sz) \<le> unat x \<and> unat x < unat (a + i * sz) + unat sz" for x
      using inb [OF i] that by (intro z) (auto simp: subset_iff)
    then show "\<exists>e. FixedVec_index sz ?v i = Ret e \<and> {unat e..<unat e + unat sz} \<subseteq> extent (unat a, k) \<and>
      (\<forall>x. unat e \<le> unat x \<and> unat x < unat e + unat sz \<longrightarrow> mram w' x = 0) \<and>
      (\<forall>j<cap. j \<noteq> i \<longrightarrow> (\<exists>c. FixedVec_index sz ?v j = Ret c \<and>
         {unat e..<unat e + unat sz} \<inter> {unat c..<unat c + unat sz} = {}))"
      using ix [OF i] inb [OF i] dj [OF i] ix by (intro exI [of _ "a + i * sz"]) blast
  qed
  with r nb oob show ?thesis
    by (intro disjI2 exI [of _ ?v] exI [of _ w'] exI [of _ "(unat a, k)"]) (simp add: new_block_def)
qed simp

theorem FixedVec_new_correct_witness:
  "\<exists>v w' b. FixedVec_new Release 4 1024 kernel16 = Ret (v, w') \<and> kmem_ok w' \<and> glive w' = {b}"
proof -
  obtain w where "FixedVec_new Release 4 1024 kernel16 = Ret (second_vec 0x80400000 12, w)"
    using FixedVec_new16 by blast
  then show ?thesis
    using FixedVec_new_correct [OF kernel16_ok(1), of 4 1024 Release] kernel16_ok(2,3) by auto
qed





section \<open>Page tables\<close>

text \<open>
  C21. \<open>PageTable::new\<close> on zeroed memory returns a table under which no virtual address is mapped,
  in blocks that overlap no live one, or panics when the memory is exhausted.
\<close>

theorem PageTable_new_correct:
  assumes "fv_layout_ok L" "kmem_ok w" "32768 \<le> gcapacity w"
  shows "PageTable_new p L w = Panic UnwrapNone \<or>
    (\<exists>pt w' k. PageTable_new p L w = Ret (pt, w') \<and> kmem_ok w' \<and> pt_ok L w' pt k \<and>
       (\<forall>va. sv32_walk (mram w') (root_pt_addr pt) va = None) \<and>
       mram w' = mram w \<and> glive w \<subseteq> glive w' \<and> pt_bytes L w' pt k \<inter> live_bytes w = {})"
  using PageTable_new_cases [OF assms, of p] unfolding vm_lookup_def by blast

theorem PageTable_new_correct_witness:
  "PageTable_new Release plain_layout kernel16 = Ret (pt16, kernel16_pt) \<and>
   sv32_walk (mram kernel16_pt) (root_pt_addr pt16) 0x80200000 = None"
  using PageTable_new_correct [OF plain_layout_ok kernel16_ok(1), of Release] kernel16_ok(2) PageTable_new16
  by auto



text \<open>C23. An unaligned virtual or physical address panics, before anything is changed.\<close>

theorem map_page_unaligned:
  assumes "\<not> 4096 dvd unat va \<or> \<not> 4096 dvd unat pa"
  shows "map_page p L pt va pa fl w =
    Panic (if 4096 dvd unat va then Formatted ''unaligned paddr {paddr:x}'' [pa]
      else Formatted ''unaligned vaddr {vaddr:x}'' [va])"
proof -
  have r: "(a mod 4096 = 0) = (4096 dvd unat a)" for a :: usize
    by (simp add: word_unat_eq_iff unat_mod dvd_eq_mod_eq_0)
  then show ?thesis using assms by (auto simp: map_page_def u_rem_ok PAGE_SIZE_def)
qed

theorem map_page_unaligned_witness:
  "map_page Release plain_layout pt16 0x80200001 0 0xE kernel16_pt = Panic (Formatted ''unaligned vaddr {vaddr:x}'' [0x80200001])"
  by (subst map_page_unaligned) simp_all

end
