(* ===== verification/Riscv.thy ===== *)
theory Riscv
  imports Ram
begin

text \<open>
  The instructions of RV32 that the kernel's assembly uses (\<open>switch_context\<close> in
  \<open>src/rust/src/proc.rs\<close>, \<open>trap_entry\<close> in \<open>src/rust/src/trap.rs\<close>, \<open>give_up\<close>, \<open>boot\<close> and the macros
  for control registers). The memory is flat: in the supervisor's address space the kernel's pages
  are mapped to themselves. The program counter matters at the end of a routine only, where it is
  the address that a return jumps to.
\<close>

datatype reg =
    RA | SP | GP | TP | T0 | T1 | T2 | T3 | T4 | T5 | T6
  | A0 | A1 | A2 | A3 | A4 | A5 | A6 | A7
  | S0 | S1 | S2 | S3 | S4 | S5 | S6 | S7 | S8 | S9 | S10 | S11

datatype csr = SSCRATCH | SATP | STVEC | SEPC | SCAUSE | STVAL

record machine =
  regs :: "reg \<Rightarrow> usize"
  csrs :: "csr \<Rightarrow> usize"
  mem :: ram
  pcv :: usize

datatype instr =
    ADDI reg reg usize
  | SW reg usize reg          \<comment> \<open>\<open>sw rs, offset(base)\<close>\<close>
  | LW reg usize reg          \<comment> \<open>\<open>lw rd, offset(base)\<close>\<close>
  | MV reg reg
  | CSRRW reg csr reg
  | CSRR reg csr
  | CSRW csr reg
  | SFENCE_VMA
  | CALL string
  | J string
  | RET
  | SRET

definition set_reg :: "reg \<Rightarrow> usize \<Rightarrow> machine \<Rightarrow> machine" where
  "set_reg r v s = s\<lparr>regs := (regs s)(r := v)\<rparr>"

definition set_csr :: "csr \<Rightarrow> usize \<Rightarrow> machine \<Rightarrow> machine" where
  "set_csr c v s = s\<lparr>csrs := (csrs s)(c := v)\<rparr>"

text \<open>
  \<open>calls\<close> is what the routines do that the code calls or jumps to. A call includes the write of the
  link register. The translation look-aside buffer, which \<open>sfence.vma\<close> flushes, is not modelled.
\<close>

fun exec1 :: "(string \<Rightarrow> machine \<Rightarrow> machine outcome) \<Rightarrow> instr \<Rightarrow> machine \<Rightarrow> machine outcome" where
  "exec1 calls (ADDI rd rs imm) s = Ret (set_reg rd (regs s rs + imm) s)"
| "exec1 calls (SW rs off base) s = Ret (s\<lparr>mem := store32 (mem s) (regs s base + off) (regs s rs)\<rparr>)"
| "exec1 calls (LW rd off base) s = Ret (set_reg rd (load32 (mem s) (regs s base + off)) s)"
| "exec1 calls (MV rd rs) s = Ret (set_reg rd (regs s rs) s)"
| "exec1 calls (CSRRW rd c rs) s = Ret (set_csr c (regs s rs) (set_reg rd (csrs s c) s))"
| "exec1 calls (CSRR rd c) s = Ret (set_reg rd (csrs s c) s)"
| "exec1 calls (CSRW c rs) s = Ret (set_csr c (regs s rs) s)"
| "exec1 calls SFENCE_VMA s = Ret s"
| "exec1 calls (CALL f) s = calls f s"
| "exec1 calls (J f) s = calls f s"
| "exec1 calls RET s = Ret (s\<lparr>pcv := regs s RA\<rparr>)"
| "exec1 calls SRET s = Ret (s\<lparr>pcv := csrs s SEPC\<rparr>)"

fun exec :: "(string \<Rightarrow> machine \<Rightarrow> machine outcome) \<Rightarrow> instr list \<Rightarrow> machine \<Rightarrow> machine outcome" where
  "exec calls [] s = Ret s"
| "exec calls (i # is) s = obind (exec1 calls i s) (exec calls is)"

lemma exec_append: "exec calls (cs @ ds) s = obind (exec calls cs s) (exec calls ds)"
proof (induction cs arbitrary: s)
  case (Cons c cs)
  have "exec calls (cs @ ds) = (\<lambda>s. obind (exec calls cs s) (exec calls ds))"
    using Cons by (simp add: fun_eq_iff)
  then show ?case by (simp add: obind_assoc)
qed simp

lemma set_reg_simps [simp]:
  "regs (set_reg r v s) = (regs s)(r := v)" "csrs (set_reg r v s) = csrs s"
  "mem (set_reg r v s) = mem s" "pcv (set_reg r v s) = pcv s"
  "regs (set_csr c v s) = regs s" "csrs (set_csr c v s) = (csrs s)(c := v)"
  "mem (set_csr c v s) = mem s" "pcv (set_csr c v s) = pcv s"
  by (simp_all add: set_reg_def set_csr_def)


section \<open>Runs of words\<close>

fun store_words :: "ram \<Rightarrow> usize \<Rightarrow> usize list \<Rightarrow> ram" where
  "store_words m a [] = m"
| "store_words m a (v # vs) = store_words (store32 m a v) (a + 4) vs"

fun load_words :: "ram \<Rightarrow> usize \<Rightarrow> nat \<Rightarrow> usize list" where
  "load_words m a 0 = []"
| "load_words m a (Suc n) = load32 m a # load_words m (a + 4) n"

lemma length_load_words [simp]: "length (load_words m a n) = n"
  by (induction n arbitrary: a) simp_all

lemma word_step:
  fixes a :: usize
  assumes "unat a + 4 * Suc n \<le> 2 ^ 32"
  shows "unat a + 4 \<le> 2 ^ 32" "n \<noteq> 0 \<Longrightarrow> unat (a + 4) = unat a + 4" "n \<noteq> 0 \<Longrightarrow> unat (a + 4) + 4 * n \<le> 2 ^ 32"
proof -
  show "unat a + 4 \<le> 2 ^ 32" using assms by simp
  show u: "unat (a + 4) = unat a + 4" if "n \<noteq> 0"
    using assms that by (subst unat_add_ok) auto
  show "unat (a + 4) + 4 * n \<le> 2 ^ 32" if "n \<noteq> 0" using u [OF that] assms by simp
qed

lemma store_words_on:
  assumes "unat a + 4 * length vs \<le> 2 ^ 32" "{unat a..<unat a + 4 * length vs} \<inter> S = {}"
  shows "unchanged_on S m (store_words m a vs)"
  using assms
proof (induction vs arbitrary: m a)
  case (Cons v vs)
  have b: "unat a + 4 * Suc (length vs) \<le> 2 ^ 32" using Cons.prems(1) by simp
  note st = word_step [OF b]
  have "{unat a..<unat a + 4} \<inter> S = {}" using Cons.prems(2) by (auto simp: disjoint_iff)
  then have "unchanged_on S m (store32 m a v)" using st(1) by (intro store32_on)
  moreover have "unchanged_on S (store32 m a v) (store_words (store32 m a v) (a + 4) vs)"
  proof (cases "vs = []")
    case False
    then have n: "length vs \<noteq> 0" by simp
    show ?thesis using st(2,3) [OF n] Cons.prems(2) by (intro Cons.IH) (auto simp: disjoint_iff)
  qed simp
  ultimately show ?case by (simp add: unchanged_on_trans)
qed simp

lemma load_words_on:
  assumes "unchanged_on S m m'" "{unat a..<unat a + 4 * n} \<subseteq> S" "unat a + 4 * n \<le> 2 ^ 32"
  shows "load_words m' a n = load_words m a n"
  using assms(2,3)
proof (induction n arbitrary: a)
  case (Suc n)
  note st = word_step [OF Suc.prems(2)]
  have "load32 m' a = load32 m a"
    using Suc.prems(1) st(1) by (intro load32_on [OF assms(1)]) auto
  moreover have "load_words m' (a + 4) n = load_words m (a + 4) n"
  proof (cases "n = 0")
    case False
    then show ?thesis using st(2,3) Suc.prems(1) by (intro Suc.IH) auto
  qed simp
  ultimately show ?case by simp
qed simp

lemma load_store_words:
  assumes "unat a + 4 * length vs \<le> 2 ^ 32"
  shows "load_words (store_words m a vs) a (length vs) = vs"
  using assms
proof (induction vs arbitrary: m a)
  case (Cons v vs)
  have b: "unat a + 4 * Suc (length vs) \<le> 2 ^ 32" using Cons.prems by simp
  note st = word_step [OF b]
  show ?case
  proof (cases "vs = []")
    case False
    then have n: "length vs \<noteq> 0" by simp
    have "unchanged_on {unat a..<unat a + 4} (store32 m a v) (store_words (store32 m a v) (a + 4) vs)"
      using st(2,3) [OF n] by (intro store_words_on) auto
    then have "load32 (store_words (store32 m a v) (a + 4) vs) a = load32 (store32 m a v) a"
      using st(1) by (intro load32_on) auto
    then show ?thesis using Cons.IH [OF st(3) [OF n]] by simp
  qed simp
qed simp

lemma load_words_append: "load_words m a (n + k) = load_words m a n @ load_words m (a + 4 * of_nat n) k"
  by (induction n arbitrary: a) (simp_all add: algebra_simps)


section \<open>Saving and restoring registers\<close>

text \<open>The \<open>sw\<close> and \<open>lw\<close> of a list of registers, at consecutive offsets from \<open>sp\<close>.\<close>

fun save_code :: "usize \<Rightarrow> reg list \<Rightarrow> instr list" where
  "save_code off [] = []"
| "save_code off (r # rs) = SW r off SP # save_code (off + 4) rs"

fun restore_code :: "usize \<Rightarrow> reg list \<Rightarrow> instr list" where
  "restore_code off [] = []"
| "restore_code off (r # rs) = LW r off SP # restore_code (off + 4) rs"

fun upds :: "(reg \<Rightarrow> usize) \<Rightarrow> reg list \<Rightarrow> usize list \<Rightarrow> reg \<Rightarrow> usize" where
  "upds f (r # rs) (v # vs) = upds (f(r := v)) rs vs"
| "upds f _ _ = f"

lemma exec_save:
  "exec calls (save_code off rs) s =
     Ret (s\<lparr>mem := store_words (mem s) (regs s SP + off) (map (regs s) rs)\<rparr>)"
  by (induction off rs arbitrary: s rule: save_code.induct) (simp_all add: add.assoc)

lemma exec_restore:
  "SP \<notin> set rs \<Longrightarrow>
   exec calls (restore_code off rs) s =
     Ret (s\<lparr>regs := upds (regs s) rs (load_words (mem s) (regs s SP + off) (length rs))\<rparr>)"
  by (induction off rs arbitrary: s rule: restore_code.induct) (simp_all add: add.assoc set_reg_def)

lemma upds_notin: "r \<notin> set rs \<Longrightarrow> upds f rs vs r = f r"
  by (induction f rs vs rule: upds.induct) auto

lemma upds_map: "distinct rs \<Longrightarrow> r \<in> set rs \<Longrightarrow> upds f rs (map g rs) r = g r"
proof (induction rs arbitrary: f)
  case (Cons x xs)
  then show ?case by (cases "r = x") (auto simp: upds_notin)
qed simp

lemma upds_nth: "distinct rs \<Longrightarrow> i < length rs \<Longrightarrow> length vs = length rs \<Longrightarrow> upds f rs vs (rs ! i) = vs ! i"
proof (induction rs arbitrary: f vs i)
  case (Cons x xs)
  then obtain v vs' where vs: "vs = v # vs'" by (cases vs) auto
  show ?case
  proof (cases i)
    case 0
    then show ?thesis using Cons.prems vs by (simp add: upds_notin)
  next
    case (Suc j)
    then show ?thesis using Cons vs by simp
  qed
qed simp

end
