(* ===== verification/Switch.thy ===== *)
theory Switch
  imports Riscv
begin

text \<open>
  \<open>switch_context\<close> of \<open>src/rust/src/proc.rs\<close>: the callee-saved registers are pushed on the stack of
  the process that gives up, its stack pointer is stored through \<open>a0\<close>, and those of the next process
  are popped from the stack whose pointer is loaded through \<open>a1\<close>.
\<close>

definition switch_context_code :: "instr list" where
  "switch_context_code =
     [ADDI SP SP (- 13 * 4),
      SW RA (0 * 4) SP,
      SW S0 (1 * 4) SP,
      SW S1 (2 * 4) SP,
      SW S2 (3 * 4) SP,
      SW S3 (4 * 4) SP,
      SW S4 (5 * 4) SP,
      SW S5 (6 * 4) SP,
      SW S6 (7 * 4) SP,
      SW S7 (8 * 4) SP,
      SW S8 (9 * 4) SP,
      SW S9 (10 * 4) SP,
      SW S10 (11 * 4) SP,
      SW S11 (12 * 4) SP,
      SW SP 0 A0,
      LW SP 0 A1,
      LW RA (0 * 4) SP,
      LW S0 (1 * 4) SP,
      LW S1 (2 * 4) SP,
      LW S2 (3 * 4) SP,
      LW S3 (4 * 4) SP,
      LW S4 (5 * 4) SP,
      LW S5 (6 * 4) SP,
      LW S6 (7 * 4) SP,
      LW S7 (8 * 4) SP,
      LW S8 (9 * 4) SP,
      LW S9 (10 * 4) SP,
      LW S10 (11 * 4) SP,
      LW S11 (12 * 4) SP,
      ADDI SP SP (13 * 4),
      RET]"

definition no_calls :: "string \<Rightarrow> machine \<Rightarrow> machine outcome" where
  "no_calls f s = Hang"

text \<open>The call \<open>switch_context(prev_sp, next_sp)\<close>, with its arguments in \<open>a0\<close> and \<open>a1\<close>.\<close>

definition switch_context :: "usize \<Rightarrow> usize \<Rightarrow> machine \<Rightarrow> machine outcome" where
  "switch_context prev_sp next_sp s =
     exec no_calls switch_context_code (set_reg A1 next_sp (set_reg A0 prev_sp s))"


section \<open>What it does\<close>

definition callee_saved :: "reg list" where
  "callee_saved = [RA, S0, S1, S2, S3, S4, S5, S6, S7, S8, S9, S10, S11]"

lemma callee_saved_facts [simp]:
  "distinct callee_saved" "SP \<notin> set callee_saved" "A0 \<notin> set callee_saved" "A1 \<notin> set callee_saved"
  "length callee_saved = 13"
  by (simp_all add: callee_saved_def)

lemma switch_code_eq:
  "switch_context_code =
     [ADDI SP SP (- 52)] @ save_code 0 callee_saved @ [SW SP 0 A0, LW SP 0 A1] @
     restore_code 0 callee_saved @ [ADDI SP SP 52, RET]"
  by (simp add: switch_context_code_def callee_saved_def)

text \<open>The memory after the save, and the frame of the process that runs next.\<close>

definition saved :: "usize \<Rightarrow> machine \<Rightarrow> ram" where
  "saved prev_sp s =
     store32 (store_words (mem s) (regs s SP - 52) (map (regs s) callee_saved)) prev_sp (regs s SP - 52)"

lemma switch_context_eq:
  "switch_context prev_sp next_sp s =
     (let m = saved prev_sp s;
          top = load32 m next_sp;
          f = upds ((regs s)(A0 := prev_sp, A1 := next_sp)) callee_saved (load_words m top 13)
      in Ret (s\<lparr>regs := f(SP := top + 52), mem := m, pcv := f RA\<rparr>))"
proof -
  have sp: "upds (g(SP := v)) callee_saved vs = (upds g callee_saved vs)(SP := v)" for g v vs
  proof -
    have "SP \<notin> set rs \<Longrightarrow> upds (g(SP := v)) rs vs = (upds g rs vs)(SP := v)" for rs vs
      by (induction g rs vs rule: upds.induct) (auto simp: fun_upd_twist)
    then show ?thesis by simp
  qed
  show ?thesis
    unfolding switch_context_def switch_code_eq exec_append
    by (simp add: exec_save exec_restore saved_def Let_def set_reg_def sp)
qed


section \<open>Being switched out and in again\<close>

text \<open>The bytes of a frame below the stack pointer \<open>x\<close> and of a cell that holds a stack pointer.\<close>

definition frame_bytes :: "usize \<Rightarrow> nat set" where
  "frame_bytes x = {unat x - 52..<unat x}"

definition cell_bytes :: "usize \<Rightarrow> nat set" where
  "cell_bytes c = {unat c..<unat c + 4}"

text \<open>A process with stack pointer \<open>x\<close> whose cell is \<open>c\<close>: both have room and are apart.\<close>

definition switchable :: "usize \<Rightarrow> usize \<Rightarrow> bool" where
  "switchable x c \<longleftrightarrow> 52 \<le> unat x \<and> unat c + 4 \<le> 2 ^ 32 \<and> frame_bytes x \<inter> cell_bytes c = {}"

lemma frame_unat: "52 \<le> unat x \<Longrightarrow> unat (x - 52 :: usize) = unat x - 52"
  by (subst unat_sub_ok) (simp_all add: word_le_nat_alt)

lemma saved_on:
  assumes "switchable (regs s SP) c" "frame_bytes (regs s SP) \<inter> S = {}" "cell_bytes c \<inter> S = {}"
  shows "unchanged_on S (mem s) (saved c s)"
proof -
  let ?x = "regs s SP" and ?m = "store_words (mem s) (regs s SP - 52) (map (regs s) callee_saved)"
  have x: "52 \<le> unat ?x" "unat c + 4 \<le> 2 ^ 32" using assms(1) by (auto simp: switchable_def)
  note fu = frame_unat [OF x(1)]
  have "unat (?x - 52) + 52 \<le> 2 ^ 32" using fu unat_less_32 [of ?x] x(1) by simp
  then have "unchanged_on S (mem s) ?m"
    using assms(2) fu x(1) by (intro store_words_on) (auto simp: frame_bytes_def)
  moreover have "unchanged_on S ?m (saved c s)"
    unfolding saved_def using assms(3) x(2) by (intro store32_on) (auto simp: cell_bytes_def)
  ultimately show ?thesis by (rule unchanged_on_trans)
qed

lemma saved_frame:
  assumes "switchable (regs s SP) c"
  shows "load32 (saved c s) c = regs s SP - 52"
    "load_words (saved c s) (regs s SP - 52) 13 = map (regs s) callee_saved"
proof -
  let ?x = "regs s SP" and ?m = "store_words (mem s) (regs s SP - 52) (map (regs s) callee_saved)"
  have x: "52 \<le> unat ?x" "unat c + 4 \<le> 2 ^ 32" and d: "frame_bytes ?x \<inter> cell_bytes c = {}"
    using assms by (auto simp: switchable_def)
  note fu = frame_unat [OF x(1)]
  have r: "unat (?x - 52) + 52 \<le> 2 ^ 32" using fu unat_less_32 [of ?x] x(1) by simp
  show "load32 (saved c s) c = ?x - 52" by (simp add: saved_def)
  have "unchanged_on (frame_bytes ?x) ?m (saved c s)"
    unfolding saved_def using d x(2) by (intro store32_on) (auto simp: cell_bytes_def)
  then have "load_words (saved c s) (?x - 52) 13 = load_words ?m (?x - 52) 13"
    using fu r x(1) by (intro load_words_on) (auto simp: frame_bytes_def)
  also have "\<dots> = map (regs s) callee_saved"
    using load_store_words [of "?x - 52" "map (regs s) callee_saved" "mem s"] r by simp
  finally show "load_words (saved c s) (?x - 52) 13 = map (regs s) callee_saved" .
qed

text \<open>
  Process \<open>A\<close> gives up in state \<open>s\<close>; in a later state \<open>s2\<close>, in which the memory of its frame and cell
  is as \<open>A\<close> left it, another process switches back to it.
\<close>

lemma switch_back:
  assumes a: "switchable (regs s SP) ca" and b: "switchable (regs s2 SP) cb"
    and kept: "unchanged_on (frame_bytes (regs s SP) \<union> cell_bytes ca) (saved ca s) (mem s2)"
    and ap: "(frame_bytes (regs s2 SP) \<union> cell_bytes cb) \<inter> (frame_bytes (regs s SP) \<union> cell_bytes ca) = {}"
  shows "\<exists>s3. switch_context cb ca s2 = Ret s3 \<and>
    (\<forall>r\<in>set callee_saved. regs s3 r = regs s r) \<and> regs s3 SP = regs s SP \<and> pcv s3 = regs s RA"
proof -
  let ?S = "frame_bytes (regs s SP) \<union> cell_bytes ca"
  have "unchanged_on ?S (mem s2) (saved cb s2)" using ap by (intro saved_on [OF b]) blast+
  with kept have u: "unchanged_on ?S (saved ca s) (saved cb s2)" by (rule unchanged_on_trans)
  have x: "52 \<le> unat (regs s SP)" "unat ca + 4 \<le> 2 ^ 32" using a by (auto simp: switchable_def)
  note fu = frame_unat [OF x(1)]
  have r: "unat (regs s SP - 52) + 52 \<le> 2 ^ 32" using fu unat_less_32 [of "regs s SP"] x(1) by simp
  have l: "load32 (saved cb s2) ca = regs s SP - 52"
    using load32_on [OF u _ x(2)] saved_frame(1) [OF a] by (simp add: cell_bytes_def)
  have w: "load_words (saved cb s2) (regs s SP - 52) 13 = map (regs s) callee_saved"
    using load_words_on [OF u, of "regs s SP - 52" 13] saved_frame(2) [OF a] fu r x(1)
    by (simp add: frame_bytes_def)
  have "RA \<in> set callee_saved" by (simp add: callee_saved_def)
  then show ?thesis by (auto simp: switch_context_eq l w Let_def upds_map)
qed

text \<open>A frame that was prepared by hand: the words of the registers at \<open>top\<close>, \<open>top\<close> in the cell.\<close>

lemma switch_to_frame:
  fixes top :: usize
  assumes b: "switchable (regs s SP) cb" and top: "unat top + 52 \<le> 2 ^ 32" and c: "unat ca + 4 \<le> 2 ^ 32"
    and ap: "(frame_bytes (regs s SP) \<union> cell_bytes cb) \<inter> ({unat top..<unat top + 52} \<union> cell_bytes ca) = {}"
    and fr: "load32 (mem s) ca = top" "load_words (mem s) top 13 = vs"
  shows "\<exists>s'. switch_context cb ca s = Ret s' \<and> (\<forall>i<13. regs s' (callee_saved ! i) = vs ! i) \<and>
    regs s' SP = top + 52 \<and> pcv s' = vs ! 0"
proof -
  let ?S = "{unat top..<unat top + 52} \<union> cell_bytes ca" 
  have u: "unchanged_on ?S (mem s) (saved cb s)" using ap by (intro saved_on [OF b]) blast+
  have l: "load32 (saved cb s) ca = top" using load32_on [OF u _ c] fr(1) by (simp add: cell_bytes_def)
  have w: "load_words (saved cb s) top 13 = vs" using load_words_on [OF u, of top 13] fr(2) top by simp
  have vs: "length vs = 13" using fr(2) by auto
  have ra: "callee_saved ! 0 = RA" by (simp add: callee_saved_def)
  have nth: "upds g callee_saved vs (callee_saved ! i) = vs ! i" if "i < 13" for g i
    using that vs by (intro upds_nth) simp_all
  have "callee_saved ! i \<noteq> SP" if "i < 13" for i
    using that callee_saved_facts(2,5) nth_mem [of i callee_saved] by metis
  then show ?thesis
    using nth [of 0] ra by (auto simp: switch_context_eq l w Let_def nth)
qed

end
