(* ===== verification/Trap.thy ===== *)
theory Trap
  imports Riscv
begin

text \<open>
  Trap handling (\<open>src/rust/src/trap.rs\<close>): \<open>trap_entry\<close> switches to the stack in \<open>sscratch\<close>, saves all
  registers in a \<open>TrapFrame\<close>, calls \<open>trap_handler\<close> and restores them. The handler of the kernel
  reports the trap and panics.
\<close>

text \<open>The fields of \<open>TrapFrame\<close> are the registers, one word each and packed, in this order.\<close>

definition TrapFrame_fields :: "reg list" where
  "TrapFrame_fields =
     [RA, GP, TP, T0, T1, T2, T3, T4, T5, T6,
      A0, A1, A2, A3, A4, A5, A6, A7,
      S0, S1, S2, S3, S4, S5, S6, S7, S8, S9, S10, S11, SP]"

type_synonym TrapFrame = "reg \<Rightarrow> usize"

definition read_TrapFrame :: "ram \<Rightarrow> usize \<Rightarrow> TrapFrame" where
  "read_TrapFrame m a = upds (\<lambda>_. 0) TrapFrame_fields (load_words m a (length TrapFrame_fields))"

definition trap_entry_code :: "instr list" where
  "trap_entry_code =
     [CSRRW SP SSCRATCH SP,
      ADDI SP SP (- 4 * 31),
      SW RA (4 * 0) SP,
      SW GP (4 * 1) SP,
      SW TP (4 * 2) SP,
      SW T0 (4 * 3) SP,
      SW T1 (4 * 4) SP,
      SW T2 (4 * 5) SP,
      SW T3 (4 * 6) SP,
      SW T4 (4 * 7) SP,
      SW T5 (4 * 8) SP,
      SW T6 (4 * 9) SP,
      SW A0 (4 * 10) SP,
      SW A1 (4 * 11) SP,
      SW A2 (4 * 12) SP,
      SW A3 (4 * 13) SP,
      SW A4 (4 * 14) SP,
      SW A5 (4 * 15) SP,
      SW A6 (4 * 16) SP,
      SW A7 (4 * 17) SP,
      SW S0 (4 * 18) SP,
      SW S1 (4 * 19) SP,
      SW S2 (4 * 20) SP,
      SW S3 (4 * 21) SP,
      SW S4 (4 * 22) SP,
      SW S5 (4 * 23) SP,
      SW S6 (4 * 24) SP,
      SW S7 (4 * 25) SP,
      SW S8 (4 * 26) SP,
      SW S9 (4 * 27) SP,
      SW S10 (4 * 28) SP,
      SW S11 (4 * 29) SP,
      CSRR A0 SSCRATCH,
      SW A0 (4 * 30) SP,
      ADDI A0 SP (4 * 31),
      CSRW SSCRATCH A0,
      MV A0 SP,
      CALL ''trap_handler'',
      LW RA (4 * 0) SP,
      LW GP (4 * 1) SP,
      LW TP (4 * 2) SP,
      LW T0 (4 * 3) SP,
      LW T1 (4 * 4) SP,
      LW T2 (4 * 5) SP,
      LW T3 (4 * 6) SP,
      LW T4 (4 * 7) SP,
      LW T5 (4 * 8) SP,
      LW T6 (4 * 9) SP,
      LW A0 (4 * 10) SP,
      LW A1 (4 * 11) SP,
      LW A2 (4 * 12) SP,
      LW A3 (4 * 13) SP,
      LW A4 (4 * 14) SP,
      LW A5 (4 * 15) SP,
      LW A6 (4 * 16) SP,
      LW A7 (4 * 17) SP,
      LW S0 (4 * 18) SP,
      LW S1 (4 * 19) SP,
      LW S2 (4 * 20) SP,
      LW S3 (4 * 21) SP,
      LW S4 (4 * 22) SP,
      LW S5 (4 * 23) SP,
      LW S6 (4 * 24) SP,
      LW S7 (4 * 25) SP,
      LW S8 (4 * 26) SP,
      LW S9 (4 * 27) SP,
      LW S10 (4 * 28) SP,
      LW S11 (4 * 29) SP,
      LW SP (4 * 30) SP,
      SRET]"

definition trap_entry :: "(machine \<Rightarrow> machine outcome) \<Rightarrow> machine \<Rightarrow> machine outcome" where
  "trap_entry handler s = exec (\<lambda>f s. if f = ''trap_handler'' then handler s else Hang) trap_entry_code s"

text \<open>\<open>read_csr!\<close>, and the handler: it reads the cause of the trap and panics with it.\<close>

definition read_csr :: "csr \<Rightarrow> machine \<Rightarrow> usize" where
  "read_csr c s = csrs s c"

definition trap_handler :: "machine \<Rightarrow> machine outcome" where
  "trap_handler s =
     (let scause = read_csr SCAUSE s;
          stval = read_csr STVAL s;
          user_pc = read_csr SEPC s
      in Panic (Formatted ''Oops...I'm trapped!\<newline>scause={:x}, stval={:x}, sepc=0x{:x}\<newline>''
           [scause, stval, user_pc]))"

section \<open>What it does\<close>

definition general_regs :: "reg list" where
  "general_regs =
     [RA, GP, TP, T0, T1, T2, T3, T4, T5, T6, A0, A1, A2, A3, A4, A5, A6, A7,
      S0, S1, S2, S3, S4, S5, S6, S7, S8, S9, S10, S11]"

lemma general_regs_facts [simp]:
  "distinct general_regs" "SP \<notin> set general_regs" "A0 \<in> set general_regs" "length general_regs = 30"
  by (simp_all add: general_regs_def)

lemma general_or_sp: "r \<in> set general_regs \<or> r = SP"
  by (cases r) (simp_all add: general_regs_def)

lemma TrapFrame_fields_eq: "TrapFrame_fields = general_regs @ [SP]"
  by (simp add: TrapFrame_fields_def general_regs_def)

lemma trap_code_eq:
  "trap_entry_code =
     [CSRRW SP SSCRATCH SP, ADDI SP SP (- 124)] @ save_code 0 general_regs @
     [CSRR A0 SSCRATCH, SW A0 120 SP, ADDI A0 SP 124, CSRW SSCRATCH A0, MV A0 SP, CALL ''trap_handler''] @
     restore_code 0 general_regs @ [LW SP 120 SP, SRET]"
  by (simp add: trap_entry_code_def general_regs_def)

text \<open>The address of the frame, the state handed to the handler, and the return from it.\<close>

definition frame_at :: "machine \<Rightarrow> usize" where
  "frame_at s = csrs s SSCRATCH - 124"

definition trap_call :: "machine \<Rightarrow> machine" where
  "trap_call s =
     s\<lparr>mem := store_words (mem s) (frame_at s) (map (regs s) TrapFrame_fields),
       regs := (regs s)(SP := frame_at s, A0 := frame_at s)\<rparr>"

definition trap_return :: "machine \<Rightarrow> machine" where
  "trap_return s =
     s\<lparr>regs := (upds (regs s) general_regs (load_words (mem s) (regs s SP) 30))
                 (SP := load32 (mem s) (regs s SP + 120)),
       pcv := csrs s SEPC\<rparr>"

lemma store_words_append:
  "store_words m a (vs @ ws) = store_words (store_words m a vs) (a + 4 * of_nat (length vs)) ws"
  by (induction m a vs rule: store_words.induct) (simp_all add: algebra_simps)

lemma trap_entry_eq: "trap_entry handler s = obind (handler (trap_call s)) (\<lambda>s. Ret (trap_return s))"
proof -
  define f where "f = (\<lambda>g s. if g = ''trap_handler'' then handler s else Hang)"
  have ret: "exec f (restore_code 0 general_regs @ [LW SP 120 SP, SRET]) t = Ret (trap_return t)" for t
    unfolding exec_append by (simp add: exec_restore upds_notin set_reg_def trap_return_def)
  have nil: "exec f [] = Ret" by (rule ext) simp
  have m: "map (regs s) general_regs = map ((regs s)(SP := x)) general_regs" for x
    using general_regs_facts(2) by (intro map_cong) auto
  define enter where "enter = [CSRRW SP SSCRATCH SP, ADDI SP SP (- 124)] @ save_code 0 general_regs @
     [CSRR A0 SSCRATCH, SW A0 120 SP, ADDI A0 SP 124, CSRW SSCRATCH A0, MV A0 SP, CALL ''trap_handler'']"
  have "exec f enter s = handler (trap_call s)"
    unfolding enter_def exec_append using m nil
    by (simp add: exec_save trap_call_def frame_at_def TrapFrame_fields_eq store_words_append
        set_reg_def set_csr_def f_def [THEN fun_cong])
  moreover have "trap_entry_code = enter @ restore_code 0 general_regs @ [LW SP 120 SP, SRET]"
    by (simp add: trap_code_eq enter_def)
  ultimately have "exec f trap_entry_code s =
      obind (handler (trap_call s)) (exec f (restore_code 0 general_regs @ [LW SP 120 SP, SRET]))"
    by (metis exec_append)
  then show ?thesis unfolding trap_entry_def f_def [symmetric] using ret by (simp cong: obind_cong)
qed


section \<open>Saving and restoring the interrupted program\<close>

definition trap_bytes :: "machine \<Rightarrow> nat set" where
  "trap_bytes s = {unat (csrs s SSCRATCH) - 124..<unat (csrs s SSCRATCH)}"

lemma frame_range:
  assumes "124 \<le> unat (csrs s SSCRATCH)"
  shows "unat (frame_at s) = unat (csrs s SSCRATCH) - 124" "unat (frame_at s) + 124 \<le> 2 ^ 32"
proof -
  show u: "unat (frame_at s) = unat (csrs s SSCRATCH) - 124"
    unfolding frame_at_def using assms by (subst unat_sub_ok) (simp_all add: word_le_nat_alt)
  show "unat (frame_at s) + 124 \<le> 2 ^ 32"
    using u assms unat_less_32 [of "csrs s SSCRATCH"] by simp
qed

lemma length_fields [simp]: "length TrapFrame_fields = 31"
  by (simp add: TrapFrame_fields_eq)

lemma trap_call_frame:
  assumes "124 \<le> unat (csrs s SSCRATCH)"
  shows "load_words (mem (trap_call s)) (frame_at s) 31 = map (regs s) TrapFrame_fields"
  using load_store_words [of "frame_at s" "map (regs s) TrapFrame_fields" "mem s"] frame_range [OF assms]
  by (simp add: trap_call_def)

lemma trap_call_on:
  assumes "124 \<le> unat (csrs s SSCRATCH)" "trap_bytes s \<inter> S = {}"
  shows "unchanged_on S (mem s) (mem (trap_call s))"
  unfolding trap_call_def using frame_range [OF assms(1)] assms
  by (auto intro!: store_words_on simp: trap_bytes_def)

text \<open>The frame that the handler gets a pointer to holds every register of the interrupted program.\<close>

lemma trap_frame_read:
  assumes "124 \<le> unat (csrs s SSCRATCH)"
  shows "read_TrapFrame (mem (trap_call s)) (regs (trap_call s) A0) = regs s"
proof
  fix r
  have "r \<in> set TrapFrame_fields" "distinct TrapFrame_fields"
    using general_or_sp [of r] by (auto simp: TrapFrame_fields_eq)
  moreover have "regs (trap_call s) A0 = frame_at s" by (simp add: trap_call_def)
  ultimately show "read_TrapFrame (mem (trap_call s)) (regs (trap_call s) A0) r = regs s r"
    by (simp add: read_TrapFrame_def trap_call_frame [OF assms] upds_map)
qed

lemma trap_restores:
  assumes s: "124 \<le> unat (csrs s SSCRATCH)"
    and h: "handler (trap_call s) = Ret s2" "regs s2 SP = frame_at s"
    and kept: "unchanged_on (trap_bytes s) (mem (trap_call s)) (mem s2)"
  shows "trap_entry handler s = Ret (s2\<lparr>regs := regs s, pcv := csrs s2 SEPC\<rparr>)"
proof -
  note fr = frame_range [OF s]
  have "load_words (mem s2) (frame_at s) (30 + 1) = map (regs s) general_regs @ [regs s SP]"
    using load_words_on [OF kept, of "frame_at s" 31] fr trap_call_frame [OF s] s
    by (simp add: trap_bytes_def TrapFrame_fields_eq)
  then have w: "load_words (mem s2) (frame_at s) 30 = map (regs s) general_regs"
    "load32 (mem s2) (frame_at s + 120) = regs s SP"
    unfolding load_words_append by (simp_all add: append_eq_append_conv)
  have "(upds (regs s2) general_regs (map (regs s) general_regs))(SP := regs s SP) = regs s"
  proof
    fix r
    show "((upds (regs s2) general_regs (map (regs s) general_regs))(SP := regs s SP)) r = regs s r"
      using general_or_sp [of r] by (auto simp: upds_map)
  qed
  then show ?thesis by (simp add: trap_entry_eq h trap_return_def w)
qed

lemma trap_entry_panics:
  "trap_entry trap_handler s =
     Panic (Formatted ''Oops...I'm trapped!\<newline>scause={:x}, stval={:x}, sepc=0x{:x}\<newline>''
       [csrs s SCAUSE, csrs s STVAL, csrs s SEPC])"
  by (simp add: trap_entry_eq trap_handler_def read_csr_def trap_call_def)

end
