(* ===== verification/Console.thy ===== *)
theory Console
  imports Addr Sync
begin

text \<open>
  Output: the call into the firmware (\<open>src/rust/src/sbi.rs\<close>), the writer and the macros \<open>print!\<close>,
  \<open>println!\<close> and \<open>panic!\<close> (\<open>src/rust/src/macros.rs\<close>), and the hexadecimal formatting of addresses
  (\<open>LowerHex\<close> in \<open>src/rust/src/mem.rs\<close>). A \<open>char\<close> of Rust is a Unicode code point, a \<open>str\<close> the list
  of its code points. The firmware behind \<open>ecall\<close> is a parameter: what it does with the registers
  \<open>a0\<close> to \<open>a7\<close>, on a state of its own.
\<close>

type_synonym rchar = nat
type_synonym rstr = "rchar list"
type_synonym 'f firmware = "isize list \<Rightarrow> 'f \<Rightarrow> (isize \<times> isize) \<times> 'f"

definition lit :: "string \<Rightarrow> rstr" where
  "lit s = map of_char s"


section \<open>Calls of the firmware\<close>

definition sbi_call :: "'f firmware \<Rightarrow> isize \<Rightarrow> isize \<Rightarrow> isize \<Rightarrow> isize \<Rightarrow> isize \<Rightarrow> isize \<Rightarrow> isize \<Rightarrow> isize \<Rightarrow>
    'f \<Rightarrow> (isize, isize) Result \<times> 'f" where
  "sbi_call ecall arg0 arg1 arg2 arg3 arg4 arg5 fid eid fw =
     (case ecall [arg0, arg1, arg2, arg3, arg4, arg5, fid, eid] fw of
        ((err, val), fw) \<Rightarrow> (if err = 0 then Ok val else Err err, fw))"

definition putchar :: "'f firmware \<Rightarrow> rchar \<Rightarrow> 'f \<Rightarrow> 'f" where
  "putchar ecall ch fw = snd (sbi_call ecall (int ch) 0 0 0 0 0 0 1 fw)"

fun write_str :: "'f firmware \<Rightarrow> rstr \<Rightarrow> 'f \<Rightarrow> (unit, unit) Result \<times> 'f" where
  "write_str ecall [] fw = (Ok (), fw)"
| "write_str ecall (ch # s) fw = write_str ecall s (putchar ecall ch fw)"


section \<open>Formatting\<close>

text \<open>
  The digits of a number in base \<open>b\<close>, as \<open>core::fmt\<close> writes an integer with \<open>{}\<close> and \<open>{:x}\<close>: no
  leading zeros, lower-case letters.
\<close>

function digits :: "nat \<Rightarrow> nat \<Rightarrow> nat list" where
  "digits b n = (if b < 2 \<or> n < b then [n] else digits b (n div b) @ [n mod b])"
  by pat_completeness auto
termination by (relation "measure snd") auto

declare digits.simps [simp del]

definition digit_char :: "nat \<Rightarrow> rchar" where
  "digit_char d = (if d < 10 then 48 + d else 87 + d)"

definition usize_Display :: "usize \<Rightarrow> rstr" where
  "usize_Display n = map digit_char (digits 10 (unat n))"

definition usize_LowerHex :: "usize \<Rightarrow> rstr" where
  "usize_LowerHex n = map digit_char (digits 16 (unat n))"

definition PhysAddr_LowerHex :: "PhysAddr \<Rightarrow> rstr" where
  "PhysAddr_LowerHex self = usize_LowerHex (pa_addr self)"

definition VirtAddr_LowerHex :: "VirtAddr \<Rightarrow> rstr" where
  "VirtAddr_LowerHex self = usize_LowerHex (va_addr self)"

text \<open>
  Format strings: a placeholder takes the next argument, \<open>{...:x}\<close> in hexadecimal. (The kernel uses
  no escaped braces and no other format options.)
\<close>

datatype fmt_arg = ArgStr rstr | ArgNum usize

fun arg_text :: "string \<Rightarrow> fmt_arg \<Rightarrow> rstr" where
  "arg_text spec (ArgStr s) = s"
| "arg_text spec (ArgNum n) =
     (if take 2 (rev spec) = ''x:'' then usize_LowerHex n else usize_Display n)"

fun format_from :: "string option \<Rightarrow> string \<Rightarrow> fmt_arg list \<Rightarrow> rstr" where
  "format_from None (c # cs) args =
     (if c = CHR ''{'' then format_from (Some []) cs args else of_char c # format_from None cs args)"
| "format_from (Some spec) (c # cs) (a # args) =
     (if c = CHR ''}'' then arg_text spec a @ format_from None cs args
      else format_from (Some (spec @ [c])) cs (a # args))"
| "format_from _ _ _ = []"

definition format_args :: "string \<Rightarrow> fmt_arg list \<Rightarrow> rstr" where
  "format_args fmt args = format_from None fmt args"


section \<open>The macros\<close>

definition print :: "'f firmware \<Rightarrow> string \<Rightarrow> fmt_arg list \<Rightarrow> 'f \<Rightarrow> 'f" where
  "print ecall fmt args fw = snd (write_str ecall (format_args fmt args) fw)"

definition println :: "'f firmware \<Rightarrow> string \<Rightarrow> fmt_arg list \<Rightarrow> 'f \<Rightarrow> 'f" where
  "println ecall fmt args fw = print ecall ''{}\<newline>'' [ArgStr (format_args fmt args)] fw"

text \<open>\<open>panic!\<close> prints the place and the message and waits for interrupts for ever.\<close>

definition panic_macro :: "'f firmware \<Rightarrow> string \<Rightarrow> usize \<Rightarrow> string \<Rightarrow> fmt_arg list \<Rightarrow> 'f \<Rightarrow> 'f \<times> unit outcome" where
  "panic_macro ecall file line fmt args fw =
     (print ecall ''PANIC: {}:{}: {}'' [ArgStr (lit file), ArgNum line, ArgStr (format_args fmt args)] fw,
      loop (\<lambda>_. Ret (Inl ())) ())"


section \<open>What is printed\<close>

text \<open>
  The legacy console extension of the SBI (extension 1): the call appends the character to the
  output, whatever it reports in \<open>a0\<close>. \<open>out\<close> reads the output off the state of the firmware.
\<close>

definition console_putchar :: "'f firmware \<Rightarrow> ('f \<Rightarrow> rstr) \<Rightarrow> bool" where
  "console_putchar ecall out \<longleftrightarrow>
     (\<forall>ch fw. out (snd (ecall [int ch, 0, 0, 0, 0, 0, 0, 1] fw)) = out fw @ [ch])"

lemma putchar_out: "console_putchar ecall out \<Longrightarrow> out (putchar ecall ch fw) = out fw @ [ch]"
  by (simp add: console_putchar_def putchar_def sbi_call_def split_beta)

lemma write_str_Ok: "fst (write_str ecall s fw) = Ok ()"
  by (induction s arbitrary: fw) simp_all

lemma write_str_out: "console_putchar ecall out \<Longrightarrow> out (snd (write_str ecall s fw)) = out fw @ s"
  by (induction s arbitrary: fw) (simp_all add: putchar_out)

text \<open>The formatter may hand the text to \<open>write_str\<close> in pieces.\<close>

lemma write_str_append: "write_str ecall (s @ t) fw = write_str ecall t (snd (write_str ecall s fw))"
  by (induction s arbitrary: fw) simp_all

lemma print_out: "console_putchar ecall out \<Longrightarrow> out (print ecall fmt args fw) = out fw @ format_args fmt args"
  by (simp add: print_def write_str_out)

lemma println_out:
  "console_putchar ecall out \<Longrightarrow> out (println ecall fmt args fw) = out fw @ format_args fmt args @ [10]"
  by (simp add: println_def print_out format_args_def [of "''{}\<newline>''"])

lemma panic_macro_out:
  assumes "console_putchar ecall out" "panic_macro ecall file line fmt args fw = (fw', r)"
  shows "out fw' = out fw @ lit ''PANIC: '' @ lit file @ lit '':'' @ usize_Display line @ lit '': '' @ format_args fmt args"
    "r = Hang"
proof -
  have "loop (\<lambda>_. Ret (Inl ())) () = (Hang :: unit outcome)" by (rule loop_spin) simp
  then show "r = Hang" using assms(2) by (auto simp: panic_macro_def)
  show "out fw' = out fw @ lit ''PANIC: '' @ lit file @ lit '':'' @ usize_Display line @ lit '': '' @ format_args fmt args"
    using assms by (auto simp: panic_macro_def print_out format_args_def [of "''PANIC: {}:{}: {}''"] lit_def)
qed


section \<open>Numbers in text\<close>

definition from_digits :: "nat \<Rightarrow> nat list \<Rightarrow> nat" where
  "from_digits b ds = foldl (\<lambda>a d. a * b + d) 0 ds"

definition char_digit :: "rchar \<Rightarrow> nat" where
  "char_digit c = (if c < 58 then c - 48 else c - 87)"

definition parse_hex :: "rstr \<Rightarrow> nat" where
  "parse_hex s = from_digits 16 (map char_digit s)"

lemma from_digits_snoc [simp]: "from_digits b (ds @ [d]) = from_digits b ds * b + d"
  by (simp add: from_digits_def)

lemma from_digits_digits: "from_digits b (digits b n) = n"
proof (induction b n rule: digits.induct)
  case (1 b n)
  then show ?case by (subst digits.simps) (auto simp: from_digits_def)
qed

lemma digits_less: "2 \<le> b \<Longrightarrow> d \<in> set (digits b n) \<Longrightarrow> d < b"
proof (induction b n rule: digits.induct)
  case (1 b n)
  then show ?case using digits.simps [of b n] by (auto split: if_splits)
qed

lemma digits_length: "2 \<le> b \<Longrightarrow> n < b ^ k \<Longrightarrow> 0 < k \<Longrightarrow> length (digits b n) \<le> k"
proof (induction k arbitrary: n)
  case (Suc k)
  show ?case
  proof (cases "n < b")
    case True
    then show ?thesis by (subst digits.simps) simp
  next
    case False
    then have "0 < k" using Suc.prems by (cases k) auto
    moreover have "n div b < b ^ k" using Suc.prems by (simp add: div_less_iff_less_mult mult.commute)
    ultimately have "length (digits b (n div b)) \<le> k" using Suc by blast
    then show ?thesis using False Suc.prems(1) by (subst digits.simps) simp
  qed
qed simp

lemma digits_hd: "2 \<le> b \<Longrightarrow> n \<noteq> 0 \<Longrightarrow> hd (digits b n) \<noteq> 0"
proof (induction b n rule: digits.induct)
  case (1 b n)
  have ne: "digits b (n div b) \<noteq> []" by (subst digits.simps) simp
  show ?case
  proof (cases "n < b")
    case True
    then show ?thesis using 1 by (subst digits.simps) simp
  next
    case False
    then have "n div b \<noteq> 0" using 1 by (simp add: div_eq_0_iff)
    then show ?thesis using 1 False ne by (subst digits.simps) simp
  qed
qed

lemma char_digit_char: "d < 16 \<Longrightarrow> char_digit (digit_char d) = d"
  by (simp add: char_digit_def digit_char_def)

lemma parse_LowerHex: "parse_hex (usize_LowerHex n) = unat n"
proof -
  have "map char_digit (map digit_char (digits 16 (unat n))) = digits 16 (unat n)"
    unfolding map_map by (rule map_idI) (auto intro!: char_digit_char digits_less)
  then show ?thesis by (simp add: parse_hex_def usize_LowerHex_def from_digits_digits)
qed

lemma LowerHex_length: "length (usize_LowerHex n) \<le> 8"
  using digits_length [of 16 "unat n" 8] unat_less_32 [of n] by (simp add: usize_LowerHex_def)

lemma Display_length: "length (usize_Display n) \<le> 10"
  using digits_length [of 10 "unat n" 10] unat_less_32 [of n] by (simp add: usize_Display_def)

lemma LowerHex_chars: "c \<in> set (usize_LowerHex n) \<Longrightarrow> c \<in> {48..57} \<union> {97..102}"
  using digits_less [of 16 _ "unat n"] by (force simp: usize_LowerHex_def digit_char_def)

end
