(* ===== verification/Utf8.thy ===== *)
theory Utf8
  imports Console Ram Addr
begin

text \<open>
  \<open>PhysAddr::as_str\<close> of \<open>src/rust/src/mem.rs\<close>: bytes in memory as text. The validation is that of
  \<open>core::str::from_utf8\<close>, byte by byte; \<open>utf8_encode\<close> is the encoding that it accepts, and the
  theory shows that it accepts nothing else.
\<close>

section \<open>Validation\<close>

record Utf8Error =
  valid_up_to :: nat
  error_len :: "nat option"

definition continues :: "nat \<Rightarrow> bool" where
  "continues b \<longleftrightarrow> 0x80 \<le> b \<and> b < 0xC0"

text \<open>The second byte of a sequence of three or four bytes: neither overlong nor a surrogate nor too large.\<close>

definition second_of_3 :: "nat \<Rightarrow> nat \<Rightarrow> bool" where
  "second_of_3 b0 b1 \<longleftrightarrow>
     (if b0 = 0xE0 then 0xA0 \<le> b1 \<and> b1 < 0xC0 else if b0 = 0xED then 0x80 \<le> b1 \<and> b1 < 0xA0 else continues b1)"

definition second_of_4 :: "nat \<Rightarrow> nat \<Rightarrow> bool" where
  "second_of_4 b0 b1 \<longleftrightarrow>
     (if b0 = 0xF0 then 0x90 \<le> b1 \<and> b1 < 0xC0 else if b0 = 0xF4 then 0x80 \<le> b1 \<and> b1 < 0x90 else continues b1)"

text \<open>The next byte has to satisfy \<open>ok\<close>; at the end of the input the sequence is incomplete.\<close>

fun next_byte :: "(nat \<Rightarrow> bool) \<Rightarrow> nat \<Rightarrow> (nat \<Rightarrow> nat list \<Rightarrow> ('a, nat option) Result) \<Rightarrow> nat list \<Rightarrow> ('a, nat option) Result" where
  "next_byte ok n k [] = Err None"
| "next_byte ok n k (b # bs) = (if ok b then k b bs else Err (Some n))"

definition utf8_next :: "nat \<Rightarrow> nat list \<Rightarrow> (rchar \<times> nat list, nat option) Result" where
  "utf8_next b0 bs =
     (if b0 < 0x80 then Ok (b0, bs)
      else if 0xC2 \<le> b0 \<and> b0 < 0xE0 then
        next_byte continues 1 (\<lambda>b1 bs. Ok ((b0 - 0xC0) * 64 + (b1 - 0x80), bs)) bs
      else if 0xE0 \<le> b0 \<and> b0 < 0xF0 then
        next_byte (second_of_3 b0) 1 (\<lambda>b1.
        next_byte continues 2 (\<lambda>b2 bs. Ok ((b0 - 0xE0) * 4096 + (b1 - 0x80) * 64 + (b2 - 0x80), bs))) bs
      else if 0xF0 \<le> b0 \<and> b0 < 0xF5 then
        next_byte (second_of_4 b0) 1 (\<lambda>b1.
        next_byte continues 2 (\<lambda>b2.
        next_byte continues 3 (\<lambda>b3 bs.
          Ok ((b0 - 0xF0) * 262144 + (b1 - 0x80) * 4096 + (b2 - 0x80) * 64 + (b3 - 0x80), bs)))) bs
      else Err (Some 1))"

lemma next_byte_Ok:
  "next_byte ok n k bs = Ok r \<longleftrightarrow> (\<exists>b bs'. bs = b # bs' \<and> ok b \<and> k b bs' = Ok r)"
  by (cases bs) auto

lemma utf8_next_shorter: "utf8_next b0 bs = Ok (c, r) \<Longrightarrow> length r \<le> length bs"
  by (auto simp: utf8_next_def next_byte_Ok split: if_splits)

function from_utf8_at :: "nat \<Rightarrow> nat list \<Rightarrow> (rstr, Utf8Error) Result" where
  "from_utf8_at pos [] = Ok []"
| "from_utf8_at pos (b # bs) =
     (case utf8_next b bs of
        Err e \<Rightarrow> Err \<lparr>valid_up_to = pos, error_len = e\<rparr>
      | Ok (c, r) \<Rightarrow>
          (case from_utf8_at (pos + (Suc (length bs) - length r)) r of
             Ok s \<Rightarrow> Ok (c # s)
           | Err e \<Rightarrow> Err e))"
  by pat_completeness auto
termination
  by (relation "measure (\<lambda>(_, bs). length bs)") (auto dest!: utf8_next_shorter)

definition from_utf8 :: "nat list \<Rightarrow> (rstr, Utf8Error) Result" where
  "from_utf8 bs = from_utf8_at 0 bs"

definition raw_bytes :: "ram \<Rightarrow> raw_slice \<Rightarrow> nat list" where
  "raw_bytes m s = map (\<lambda>i. unat (m (slice_ptr s + of_nat i))) [0..<unat (slice_len s)]"

definition PhysAddr_as_str :: "ram \<Rightarrow> PhysAddr \<Rightarrow> usize \<Rightarrow> (rstr, Utf8Error) Result" where
  "PhysAddr_as_str m self len = from_utf8 (raw_bytes m (RawSlice (pa_addr self) len))"


section \<open>The encoding\<close>

definition scalar :: "rchar \<Rightarrow> bool" where
  "scalar c \<longleftrightarrow> c < 0xD800 \<or> 0xE000 \<le> c \<and> c < 0x110000"

definition utf8_encode :: "rchar \<Rightarrow> nat list" where
  "utf8_encode c =
     (if c < 0x80 then [c]
      else if c < 0x800 then [0xC0 + c div 64, 0x80 + c mod 64]
      else if c < 0x10000 then [0xE0 + c div 4096, 0x80 + c div 64 mod 64, 0x80 + c mod 64]
      else [0xF0 + c div 262144, 0x80 + c div 4096 mod 64, 0x80 + c div 64 mod 64, 0x80 + c mod 64])"

definition utf8_text :: "rstr \<Rightarrow> nat list" where
  "utf8_text s = concat (map utf8_encode s)"

text \<open>A character by its digits in base 64, leading digit first.\<close>

lemma div_mod_digit:
  fixes a k r :: nat
  assumes "r < k"
  shows "(a * k + r) div k = a" "(a * k + r) mod k = r"
  using assms by simp_all

lemma digits_64:
  fixes a x y z :: nat
  assumes "x < 64" "y < 64" "z < 64"
  shows "(a * 64 + x) div 64 = a" "(a * 64 + x) mod 64 = x"
    "(a * 4096 + x * 64 + y) div 4096 = a" "(a * 4096 + x * 64 + y) div 64 mod 64 = x" "(a * 4096 + x * 64 + y) mod 64 = y"
    "(a * 262144 + x * 4096 + y * 64 + z) div 262144 = a" "(a * 262144 + x * 4096 + y * 64 + z) div 4096 mod 64 = x"
    "(a * 262144 + x * 4096 + y * 64 + z) div 64 mod 64 = y" "(a * 262144 + x * 4096 + y * 64 + z) mod 64 = z"
proof -
  show "(a * 64 + x) div 64 = a" "(a * 64 + x) mod 64 = x" using assms by simp_all
  have 3: "a * 4096 + x * 64 + y = a * 4096 + (x * 64 + y)" "a * 4096 + x * 64 + y = (a * 64 + x) * 64 + y" by simp_all
  have 4: "a * 262144 + x * 4096 + y * 64 + z = a * 262144 + (x * 4096 + y * 64 + z)"
    "a * 262144 + x * 4096 + y * 64 + z = (a * 64 + x) * 4096 + (y * 64 + z)"
    "a * 262144 + x * 4096 + y * 64 + z = (a * 4096 + x * 64 + y) * 64 + z" by simp_all
  show "(a * 4096 + x * 64 + y) div 4096 = a" unfolding 3(1) using assms by (intro div_mod_digit) simp
  show "(a * 4096 + x * 64 + y) div 64 mod 64 = x" unfolding 3(2) div_mod_digit [OF assms(2)] using assms by simp
  show m: "(a * 4096 + x * 64 + y) mod 64 = y" unfolding 3(2) by (rule div_mod_digit [OF assms(2)])
  show "(a * 262144 + x * 4096 + y * 64 + z) div 262144 = a" unfolding 4(1) using assms by (intro div_mod_digit) simp
  have "(a * 262144 + x * 4096 + y * 64 + z) div 4096 = a * 64 + x" unfolding 4(2) using assms by (intro div_mod_digit) simp
  then show "(a * 262144 + x * 4096 + y * 64 + z) div 4096 mod 64 = x" using assms by simp
  show "(a * 262144 + x * 4096 + y * 64 + z) div 64 mod 64 = y" unfolding 4(3) div_mod_digit [OF assms(3)] by (rule m)
  show "(a * 262144 + x * 4096 + y * 64 + z) mod 64 = z" unfolding 4(3) by (rule div_mod_digit [OF assms(3)])
qed

lemma encode_digits:
  assumes "x < 64" "y < 64" "z < 64"
  shows "2 \<le> a \<Longrightarrow> a < 32 \<Longrightarrow> utf8_encode (a * 64 + x) = [0xC0 + a, 0x80 + x]"
    "a < 16 \<Longrightarrow> a \<noteq> 0 \<or> 32 \<le> x \<Longrightarrow> utf8_encode (a * 4096 + x * 64 + y) = [0xE0 + a, 0x80 + x, 0x80 + y]"
    "a \<noteq> 0 \<or> 16 \<le> x \<Longrightarrow>
      utf8_encode (a * 262144 + x * 4096 + y * 64 + z) = [0xF0 + a, 0x80 + x, 0x80 + y, 0x80 + z]"
  using assms by (auto simp: utf8_encode_def digits_64)

lemma scalar_digits:
  assumes "x < 64" "y < 64" "z < 64"
  shows "a < 32 \<Longrightarrow> scalar (a * 64 + x)"
    "a < 16 \<Longrightarrow> scalar (a * 4096 + x * 64 + y) \<longleftrightarrow> \<not> (a = 13 \<and> 32 \<le> x)"
    "a \<noteq> 0 \<or> 16 \<le> x \<Longrightarrow> scalar (a * 262144 + x * 4096 + y * 64 + z) \<longleftrightarrow> a < 4 \<or> a = 4 \<and> x < 16"
proof -
  show "scalar (a * 4096 + x * 64 + y) \<longleftrightarrow> \<not> (a = 13 \<and> 32 \<le> x)" if "a < 16"
  proof (cases "a = 13")
    case False
    then have "a < 13 \<or> 14 \<le> a" by linarith
    then show ?thesis using assms that False by (auto simp: scalar_def)
  qed (use assms in \<open>auto simp: scalar_def\<close>)
qed (use assms in \<open>auto simp: scalar_def\<close>)

lemma next_digits:
  assumes "x < 64" "y < 64" "z < 64"
  shows "2 \<le> a \<Longrightarrow> a < 32 \<Longrightarrow> utf8_next (0xC0 + a) ((0x80 + x) # bs) = Ok (a * 64 + x, bs)"
    "a < 16 \<Longrightarrow> a \<noteq> 0 \<or> 32 \<le> x \<Longrightarrow> \<not> (a = 13 \<and> 32 \<le> x) \<Longrightarrow>
      utf8_next (0xE0 + a) ((0x80 + x) # (0x80 + y) # bs) = Ok (a * 4096 + x * 64 + y, bs)"
    "a \<noteq> 0 \<or> 16 \<le> x \<Longrightarrow> a < 4 \<or> a = 4 \<and> x < 16 \<Longrightarrow>
      utf8_next (0xF0 + a) ((0x80 + x) # (0x80 + y) # (0x80 + z) # bs) = Ok (a * 262144 + x * 4096 + y * 64 + z, bs)"
  using assms by (auto simp: utf8_next_def continues_def second_of_3_def second_of_4_def)

text \<open>Every character beyond ASCII has its digits.\<close>

lemma digit_cases:
  fixes c :: nat
  obtains "c < 0x80"
  | a x where "c = a * 64 + x" "x < 64" "2 \<le> a" "a < 32"
  | a x y where "c = a * 4096 + x * 64 + y" "x < 64" "y < 64" "a < 16" "a \<noteq> 0 \<or> 32 \<le> x"
  | a x y z where "c = a * 262144 + x * 4096 + y * 64 + z" "x < 64" "y < 64" "z < 64" "a \<noteq> 0 \<or> 16 \<le> x"
proof -
  define d1 d2 d3 where "d1 = c div 64" and "d2 = d1 div 64" and "d3 = d2 div 64"
  have c: "c = d1 * 64 + c mod 64" "d1 = d2 * 64 + d1 mod 64" "d2 = d3 * 64 + d2 mod 64"
    by (simp_all add: d1_def d2_def d3_def)
  have l: "c mod 64 < 64" "d1 mod 64 < 64" "d2 mod 64 < 64" by simp_all
  consider "c < 0x80" | "0x80 \<le> c" "c < 0x800" | "0x800 \<le> c" "c < 0x10000" | "0x10000 \<le> c" by linarith
  then show ?thesis
  proof cases
    case 2
    then have "2 \<le> d1" "d1 < 32" using c(1) l(1) by linarith+
    then show ?thesis using that(2) c(1) l(1) by blast
  next
    case 3
    have e: "c = d2 * 4096 + d1 mod 64 * 64 + c mod 64" using c(1,2) by linarith
    have "d2 < 16" "d2 \<noteq> 0 \<or> 32 \<le> d1 mod 64" using e 3 l by linarith+
    then show ?thesis using that(3) [OF e l(2,1)] by blast
  next
    case 4
    have e: "c = d3 * 262144 + d2 mod 64 * 4096 + d1 mod 64 * 64 + c mod 64" using c by linarith
    have "d3 \<noteq> 0 \<or> 16 \<le> d2 mod 64" using e 4 l by linarith
    then show ?thesis using that(4) [OF e l(3,2,1)] by blast
  qed (rule that(1))
qed

lemma encode_next:
  assumes "scalar c"
  shows "\<exists>b r. utf8_encode c = b # r \<and> utf8_next b (r @ bs) = Ok (c, bs)"
proof (cases c rule: digit_cases)
  case 1
  then show ?thesis by (simp add: utf8_encode_def utf8_next_def)
next
  case (2 a x)
  then show ?thesis using encode_digits(1) [of x x x a] next_digits(1) [of x x x a] by simp
next
  case (3 a x y)
  then show ?thesis
    using encode_digits(2) [of x y x a] next_digits(2) [of x y x a] scalar_digits(2) [of x y x a] assms by auto
next
  case (4 a x y z)
  then show ?thesis
    using encode_digits(3) [of x y z a] next_digits(3) [of x y z a] scalar_digits(3) [of x y z a] assms by auto
qed

lemma next_encode:
  assumes "utf8_next b bs = Ok (c, r)"
  shows "scalar c \<and> b # bs = utf8_encode c @ r"
proof -
  consider "b < 0x80" | "0xC2 \<le> b" "b < 0xE0" | "0xE0 \<le> b" "b < 0xF0" | "0xF0 \<le> b" "b < 0xF5"
    using assms by (auto simp: utf8_next_def split: if_splits)
  then show ?thesis
  proof cases
    case 1
    then show ?thesis using assms by (auto simp: utf8_next_def utf8_encode_def scalar_def)
  next
    case 2
    then obtain b1 where b1: "continues b1" "bs = b1 # r" "c = (b - 0xC0) * 64 + (b1 - 0x80)"
      using assms by (auto simp: utf8_next_def next_byte_Ok)
    then show ?thesis
      using 2 encode_digits(1) [of "b1 - 0x80" 0 0 "b - 0xC0"] scalar_digits(1) [of "b1 - 0x80" 0 0 "b - 0xC0"]
      by (auto simp: continues_def)
  next
    case 3
    then obtain b1 b2 where b: "second_of_3 b b1" "continues b2" "bs = b1 # b2 # r"
        "c = (b - 0xE0) * 4096 + (b1 - 0x80) * 64 + (b2 - 0x80)"
      using assms by (auto simp: utf8_next_def next_byte_Ok)
    have "b1 - 0x80 < 64" "0x80 \<le> b1" "b - 0xE0 \<noteq> 0 \<or> 32 \<le> b1 - 0x80" "\<not> (b - 0xE0 = 13 \<and> 32 \<le> b1 - 0x80)"
      using b(1) 3 by (auto simp: second_of_3_def continues_def split: if_splits)
    then show ?thesis
      using 3 b encode_digits(2) [of "b1 - 0x80" "b2 - 0x80" 0 "b - 0xE0"] scalar_digits(2) [of "b1 - 0x80" "b2 - 0x80" 0 "b - 0xE0"]
      by (auto simp: continues_def)
  next
    case 4
    then obtain b1 b2 b3 where b: "second_of_4 b b1" "continues b2" "continues b3" "bs = b1 # b2 # b3 # r"
        "c = (b - 0xF0) * 262144 + (b1 - 0x80) * 4096 + (b2 - 0x80) * 64 + (b3 - 0x80)"
      using assms by (auto simp: utf8_next_def next_byte_Ok)
    have "b1 - 0x80 < 64" "0x80 \<le> b1" "b - 0xF0 \<noteq> 0 \<or> 16 \<le> b1 - 0x80" "b - 0xF0 < 4 \<or> b - 0xF0 = 4 \<and> b1 - 0x80 < 16"
      using b(1) 4 by (auto simp: second_of_4_def continues_def split: if_splits)
    then show ?thesis
      using 4 b encode_digits(3) [of "b1 - 0x80" "b2 - 0x80" "b3 - 0x80" "b - 0xF0"]
        scalar_digits(3) [of "b1 - 0x80" "b2 - 0x80" "b3 - 0x80" "b - 0xF0"]
      by (auto simp: continues_def)
  qed
qed


section \<open>Text\<close>

lemma from_utf8_text: "(\<forall>c\<in>set s. scalar c) \<Longrightarrow> from_utf8_at pos (utf8_text s) = Ok s"
proof (induction s arbitrary: pos)
  case (Cons c s)
  then obtain b r where br: "utf8_encode c = b # r" "utf8_next b (r @ utf8_text s) = Ok (c, utf8_text s)"
    using encode_next [of c "utf8_text s"] by auto
  have "utf8_text (c # s) = b # r @ utf8_text s" by (simp add: utf8_text_def br(1))
  then show ?case using br(2) Cons by simp
qed (simp add: utf8_text_def)

lemma from_utf8_Ok: "from_utf8_at pos bs = Ok s \<Longrightarrow> (\<forall>c\<in>set s. scalar c) \<and> bs = utf8_text s"
proof (induction pos bs arbitrary: s rule: from_utf8_at.induct)
  case (2 pos b bs)
  from 2(2) obtain c r s' where c: "utf8_next b bs = Ok (c, r)" "s = c # s'"
      "from_utf8_at (pos + (Suc (length bs) - length r)) r = Ok s'"
    by (auto split: Result.splits)
  have "(\<forall>c\<in>set s'. scalar c) \<and> r = utf8_text s'" using 2(1) c by blast
  then show ?case using next_encode [OF c(1)] c(2) by (simp add: utf8_text_def)
qed (simp add: utf8_text_def)

text \<open>Where validation stops no character starts.\<close>

lemma next_Err:
  assumes "utf8_next b bs = Err e" "scalar c"
  shows "b # bs \<noteq> utf8_encode c @ r"
  using assms encode_next [OF assms(2), of r] by auto

lemma from_utf8_Err:
  "from_utf8_at pos bs = Err e \<Longrightarrow>
     \<exists>s rest. (\<forall>c\<in>set s. scalar c) \<and> bs = utf8_text s @ rest \<and> rest \<noteq> [] \<and>
       (\<forall>c r. scalar c \<longrightarrow> rest \<noteq> utf8_encode c @ r) \<and> valid_up_to e = pos + length (utf8_text s)"
proof (induction pos bs rule: from_utf8_at.induct)
  case (2 pos b bs)
  show ?case
  proof (cases "utf8_next b bs")
    case (Ok cr)
    then obtain c r where c: "utf8_next b bs = Ok (c, r)" by (cases cr) auto
    then have "from_utf8_at (pos + (Suc (length bs) - length r)) r = Err e"
      using 2(2) by (auto split: Result.splits)
    then obtain s rest where s: "\<forall>c\<in>set s. scalar c" "r = utf8_text s @ rest" "rest \<noteq> []"
        "\<forall>c r. scalar c \<longrightarrow> rest \<noteq> utf8_encode c @ r"
        "valid_up_to e = pos + (Suc (length bs) - length r) + length (utf8_text s)"
      using 2(1) c by blast
    note n = next_encode [OF c]
    have "Suc (length bs) - length r = length (utf8_encode c)" using arg_cong [OF conjunct2 [OF n], of length] by simp
    then show ?thesis using s n by (intro exI [of _ "c # s"] exI [of _ rest]) (simp add: utf8_text_def)
  next
    case (Err x)
    then have "valid_up_to e = pos" using 2(2) by auto
    then show ?thesis using next_Err [OF Err] by (intro exI [of _ "[]"] exI [of _ "b # bs"]) (simp add: utf8_text_def)
  qed
qed simp

end
