(* ===== verification/Machine_Properties.thy ===== *)
theory Machine_Properties
  imports Switch Trap Utf8
begin

text \<open>
  The properties of the assembly routines, \<open>switch_context\<close> and \<open>trap_entry\<close>, and of text: the
  console, and \<open>as_str\<close>.
\<close>

section \<open>Context switches\<close>

text \<open>
  C24. The instructions of \<open>switch_context\<close> are equivalent to this reference: store the thirteen
  callee-saved registers below the stack pointer and the new stack pointer through \<open>prev_sp\<close>; load
  the stack pointer of the next process through \<open>next_sp\<close> and its thirteen registers from there;
  jump to the return address among them. The routine always returns.
\<close>

theorem switch_context_reference:
  "switch_context prev_sp next_sp s =
     (let sp = regs s SP - 52;
          m = store32 (store_words (mem s) sp (map (regs s) callee_saved)) prev_sp sp;
          top = load32 m next_sp;
          f = upds ((regs s)(A0 := prev_sp, A1 := next_sp)) callee_saved (load_words m top 13)
      in Ret (s\<lparr>regs := f(SP := top + 52), mem := m, pcv := f RA\<rparr>))"
  by (simp add: switch_context_eq saved_def Let_def)

text \<open>
  C25. Switching away and back is transparent: when a process gives up in state \<open>s\<close> and a later
  context (state \<open>s2\<close>), in which the frame and the cell of the first one are as it left them, switches
  back to it, the switch returns to the first one's return address with its stack pointer and all
  callee-saved registers.
\<close>

theorem switch_context_roundtrip:
  assumes "switchable (regs s SP) ca" "switchable (regs s2 SP) cb"
    and "switch_context ca nb s = Ret s1"
    and "unchanged_on (frame_bytes (regs s SP) \<union> cell_bytes ca) (mem s1) (mem s2)"
    and "(frame_bytes (regs s2 SP) \<union> cell_bytes cb) \<inter> (frame_bytes (regs s SP) \<union> cell_bytes ca) = {}"
  shows "\<exists>s3. switch_context cb ca s2 = Ret s3 \<and>
    (\<forall>r\<in>set callee_saved. regs s3 r = regs s r) \<and> regs s3 SP = regs s SP \<and> pcv s3 = regs s RA"
proof -
  have "mem s1 = saved ca s" using assms(3) by (auto simp: switch_context_eq Let_def)
  then show ?thesis using switch_back [OF assms(1,2) _ assms(5)] assms(4) by simp
qed

definition machine_a :: machine where
  "machine_a = \<lparr>regs = (\<lambda>r. if r = SP then 0x80300800 else if r = RA then 0x80200104 else 7),
     csrs = (\<lambda>_. 0), mem = (\<lambda>_. 0), pcv = 0x80200100\<rparr>"

definition machine_b :: machine where
  "machine_b = \<lparr>regs = (\<lambda>r. if r = SP then 0x80301800 else 9), csrs = (\<lambda>_. 0),
     mem = saved 0x80302000 machine_a, pcv = 0x80200200\<rparr>"

theorem switch_context_roundtrip_witness:
  "\<exists>s3. switch_context 0x80302004 0x80302000 machine_b = Ret s3 \<and> regs s3 S5 = 7 \<and> pcv s3 = 0x80200104"
proof -
  have sw: "switchable (regs machine_a SP) 0x80302000" "switchable (regs machine_b SP) 0x80302004"
    by (auto simp: switchable_def frame_bytes_def cell_bytes_def machine_a_def machine_b_def)
  obtain s1 where s1: "switch_context 0x80302000 0x80302004 machine_a = Ret s1" "mem s1 = mem machine_b"
    by (simp add: switch_context_eq Let_def machine_b_def)
  have "(frame_bytes (regs machine_b SP) \<union> cell_bytes 0x80302004) \<inter>
      (frame_bytes (regs machine_a SP) \<union> cell_bytes 0x80302000) = {}"
    by (auto simp: frame_bytes_def cell_bytes_def machine_a_def machine_b_def)
  from switch_context_roundtrip [OF sw s1(1) _ this] s1(2)
  show ?thesis by (auto simp: callee_saved_def machine_a_def)
qed


section \<open>Traps\<close>

text \<open>
  C26. The frame has the layout of \<open>TrapFrame\<close>: when \<open>trap_entry\<close> calls the handler, \<open>a0\<close> points to a
  struct whose fields hold every register of the interrupted program, \<open>sp\<close> included; memory outside
  the 124 bytes below \<open>sscratch\<close> is unchanged, and so is \<open>sscratch\<close>.
\<close>

theorem trap_frame_layout:
  assumes "124 \<le> unat (csrs s SSCRATCH)"
  shows "\<exists>s1. (\<forall>handler. trap_entry handler s = obind (handler s1) (\<lambda>s2. Ret (trap_return s2))) \<and>
    read_TrapFrame (mem s1) (regs s1 A0) = regs s \<and> csrs s1 = csrs s \<and>
    regs s1 A0 = csrs s SSCRATCH - 124 \<and> regs s1 SP = regs s1 A0 \<and>
    unchanged_on (- trap_bytes s) (mem s) (mem s1)"
  using trap_entry_eq trap_frame_read [OF assms] trap_call_on [OF assms, of "- trap_bytes s"]
  by (intro exI [of _ "trap_call s"]) (simp add: trap_call_def frame_at_def)

definition machine_t :: machine where
  "machine_t = \<lparr>regs = (\<lambda>r. if r = SP then 0x80300800 else 7),
     csrs = (\<lambda>c. if c = SSCRATCH then 0x80301000 else if c = SCAUSE then 2 else 0),
     mem = (\<lambda>_. 0), pcv = 0x80200100\<rparr>"

theorem trap_frame_layout_witness:
  "\<exists>s1. (\<forall>handler. trap_entry handler machine_t = obind (handler s1) (\<lambda>s2. Ret (trap_return s2))) \<and>
     read_TrapFrame (mem s1) (regs s1 A0) SP = 0x80300800 \<and> regs s1 A0 = 0x80300F84"
  using trap_frame_layout [of machine_t] by (auto simp: machine_t_def)

text \<open>
  C27. A handler that returns, with the stack pointer and the frame intact, is invisible to the
  interrupted program: all 31 registers are restored and execution goes on at \<open>sepc\<close>.
\<close>

theorem trap_entry_restores:
  assumes "124 \<le> unat (csrs s SSCRATCH)"
    and "handler (trap_call s) = Ret s2" "regs s2 SP = regs (trap_call s) SP"
    and "unchanged_on (trap_bytes s) (mem (trap_call s)) (mem s2)"
  shows "trap_entry handler s = Ret (s2\<lparr>regs := regs s, pcv := csrs s2 SEPC\<rparr>)"
proof -
  have "regs (trap_call s) SP = frame_at s" by (simp add: trap_call_def)
  then have "regs s2 SP = frame_at s" using assms(3) by simp
  from trap_restores [of s handler, OF assms(1,2) this assms(4)] show ?thesis .
qed

definition skip_instr :: "machine \<Rightarrow> machine outcome" where
  "skip_instr s = Ret (set_reg T0 0 (set_csr SEPC (csrs s SEPC + 4) s))"

theorem trap_entry_restores_witness:
  "\<exists>s'. trap_entry skip_instr machine_t = Ret s' \<and> regs s' = regs machine_t \<and> pcv s' = 4"
  using trap_entry_restores [of machine_t skip_instr, OF _ skip_instr_def]
  by (simp add: machine_t_def trap_call_def)


section \<open>The console\<close>







section \<open>Text in memory\<close>

text \<open>
  C40. \<open>PhysAddr::as_str\<close> returns exactly the text whose UTF-8 encoding the bytes are. On all other bytes
  it fails, and the error tells the length of the longest prefix that is an encoding: no character
  starts after it.
\<close>

theorem as_str_utf8:
  "(PhysAddr_as_str m a len = Ok s \<longleftrightarrow>
      (\<forall>c\<in>set s. scalar c) \<and> raw_bytes m (PhysAddr_as_slice a len) = utf8_text s) \<and>
   (PhysAddr_as_str m a len = Err e \<longrightarrow>
      (\<exists>t rest. (\<forall>c\<in>set t. scalar c) \<and> raw_bytes m (PhysAddr_as_slice a len) = utf8_text t @ rest \<and> rest \<noteq> [] \<and>
         (\<forall>c r. scalar c \<longrightarrow> rest \<noteq> utf8_encode c @ r) \<and> valid_up_to e = length (utf8_text t)))"
proof -
  have sl: "RawSlice (pa_addr a) len = PhysAddr_as_slice a len" by (simp add: PhysAddr_as_slice_def)
  have "PhysAddr_as_str m a len = Ok s \<longleftrightarrow>
      (\<forall>c\<in>set s. scalar c) \<and> raw_bytes m (PhysAddr_as_slice a len) = utf8_text s"
    using from_utf8_Ok [of 0 "raw_bytes m (PhysAddr_as_slice a len)" s] from_utf8_text [of s 0]
    unfolding PhysAddr_as_str_def from_utf8_def sl by auto
  then show ?thesis
    using from_utf8_Err [of 0 "raw_bytes m (PhysAddr_as_slice a len)" e]
    unfolding PhysAddr_as_str_def from_utf8_def sl by auto
qed

text \<open>The euro sign.\<close>

theorem as_str_utf8_witness:
  "PhysAddr_as_str ((\<lambda>_. 0)(0x1000 := 0xE2, 0x1001 := 0x82, 0x1002 := 0xAC)) (PhysAddr 0x1000 None) 3 = Ok [0x20AC]"
proof -
  have "raw_bytes ((\<lambda>_. 0)(0x1000 := 0xE2, 0x1001 := 0x82, 0x1002 := 0xAC)) (PhysAddr_as_slice (PhysAddr 0x1000 None) 3) =
      utf8_text [0x20AC]"
    by (simp add: raw_bytes_def PhysAddr_as_slice_def utf8_text_def utf8_encode_def upt_rec)
  then show ?thesis
    using as_str_utf8 [of "(\<lambda>_. 0)(0x1000 := 0xE2, 0x1001 := 0x82, 0x1002 := 0xAC)" "PhysAddr 0x1000 None" 3 "[0x20AC]"]
    by (simp add: scalar_def)
qed

end
