(* ===== verification/Proc.thy ===== *)
theory Proc
  imports Vm Switch
begin

text \<open>
  Processes (\<open>src/rust/src/proc.rs\<close>): the process table, a \<open>FixedVec<Process>\<close> behind a global
  \<open>OnceCell\<close> and a \<open>Mutex\<close>; the creation of a process, with its first stack frame and its page table;
  and the scheduler \<open>give_up\<close>. A \<open>Process\<close> lies in memory; the order of its fields is up to the
  compiler, so the layout is a parameter, as is the layout of the \<open>FixedVec\<close>s in its page table.
\<close>

definition PROC_STACK_SIZE :: usize where
  "PROC_STACK_SIZE = 8 * 1024 div 4"

definition PROC_MAX :: usize where
  "PROC_MAX = 8"

datatype ProcState = Unused | Runnable

fun ProcState_as_u8 :: "ProcState \<Rightarrow> u8" where
  "ProcState_as_u8 Unused = 0"
| "ProcState_as_u8 Runnable = 1"

text \<open>The fields of \<open>Process\<close>: its size and their offsets. \<open>page_table\<close> has two fields of its own.\<close>

record Process_layout =
  proc_size :: usize
  off_stack :: usize
  off_sp :: usize
  off_pid :: usize
  off_root :: usize
  off_second :: usize
  off_state :: usize

definition load_page_table :: "fv_layout \<Rightarrow> Process_layout \<Rightarrow> ram \<Rightarrow> usize \<Rightarrow> PageTable" where
  "load_page_table L Q m proc =
     \<lparr>root_pt = load_fv L m (proc + off_root Q), second_pts = load_fv L m (proc + off_second Q)\<rparr>"

definition store_page_table :: "fv_layout \<Rightarrow> Process_layout \<Rightarrow> ram \<Rightarrow> usize \<Rightarrow> PageTable \<Rightarrow> ram" where
  "store_page_table L Q m proc pt =
     store_fv L (store_fv L m (proc + off_root Q) (root_pt pt)) (proc + off_second Q) (second_pts pt)"

definition sp_as_mut_ptr :: "Process_layout \<Rightarrow> usize \<Rightarrow> usize" where
  "sp_as_mut_ptr Q self = self + off_sp Q"

record ProcTable =
  table :: FixedVec
  curr_proc_idx :: usize

text \<open>
  The state of the kernel: the memory with its allocator, the global process table, and the
  registers of the processor.
\<close>

record proc_state = mem_state +
  PROC_TABLE :: "ProcTable Mutex OnceCell"
  cpu_regs :: "reg \<Rightarrow> usize"
  cpu_csrs :: "csr \<Rightarrow> usize"
  cpu_pc :: usize

definition machine_of :: "'z proc_state_scheme \<Rightarrow> machine" where
  "machine_of w = \<lparr>regs = cpu_regs w, csrs = cpu_csrs w, mem = mram w, pcv = cpu_pc w\<rparr>"

definition set_machine :: "machine \<Rightarrow> 'z proc_state_scheme \<Rightarrow> 'z proc_state_scheme" where
  "set_machine s w = w\<lparr>cpu_regs := regs s, cpu_csrs := csrs s, mram := mem s, cpu_pc := pcv s\<rparr>"


section \<open>The process table\<close>

definition ProcTable_new :: "profile \<Rightarrow> Process_layout \<Rightarrow> 'z mem_state_scheme \<Rightarrow>
    (ProcTable \<times> 'z mem_state_scheme) outcome" where
  "ProcTable_new p Q w =
     obind (FixedVec_new p (proc_size Q) PROC_MAX w) (\<lambda>(t, w).
     Ret (\<lparr>table = t, curr_proc_idx = 0\<rparr>, w))"

text \<open>\<open>for i in from..to\<close> over \<open>usize\<close>.\<close>

definition usize_range :: "usize \<Rightarrow> usize \<Rightarrow> usize list" where
  "usize_range from to = map of_nat [unat from..<unat to]"

definition proc_in_state :: "Process_layout \<Rightarrow> ram \<Rightarrow> usize \<Rightarrow> ProcState \<Rightarrow> bool" where
  "proc_in_state Q m proc s \<longleftrightarrow> m (proc + off_state Q) = ProcState_as_u8 s"

fun next_unused_in :: "Process_layout \<Rightarrow> ProcTable \<Rightarrow> ram \<Rightarrow> usize list \<Rightarrow> usize option outcome" where
  "next_unused_in Q self m [] = Ret None"
| "next_unused_in Q self m (i # is) =
     obind (FixedVec_index (proc_size Q) (table self) i) (\<lambda>proc.
     if proc_in_state Q m proc Unused then Ret (Some i) else next_unused_in Q self m is)"

definition next_unused :: "Process_layout \<Rightarrow> ProcTable \<Rightarrow> ram \<Rightarrow> usize option outcome" where
  "next_unused Q self m = next_unused_in Q self m (usize_range 0 (FixedVec_cap (table self)))"

definition get_proc :: "Process_layout \<Rightarrow> ProcTable \<Rightarrow> usize \<Rightarrow> usize outcome" where
  "get_proc Q self i = FixedVec_index_mut (proc_size Q) (table self) i"


section \<open>Creating a process\<close>

text \<open>The first frame: the entry point where the return address is restored from, and zeros.\<close>

definition first_frame :: "Process_layout \<Rightarrow> usize \<Rightarrow> usize \<Rightarrow> ram \<Rightarrow> usize \<times> ram" where
  "first_frame Q proc start_pc m =
     (let sp = proc + off_stack Q + (PROC_STACK_SIZE - 4);
          sp = sp - 12 * 4;
          m = store32 m sp start_pc;
          m = fold (\<lambda>i m. store32 m (sp + i * 4) 0) (usize_range 1 13) m
      in (sp, m))"

text \<open>Dropping a \<open>PageTable\<close>: its fields in order, the second one with the vectors it owns.\<close>

definition FixedVec_drop_at :: "profile \<Rightarrow> fv_layout \<Rightarrow> usize \<Rightarrow> 'z mem_state_scheme \<Rightarrow>
    'z mem_state_scheme outcome" where
  "FixedVec_drop_at p L a w = FixedVec_drop p usize_drop 4 (load_fv L (mram w) a) w"

definition PageTable_drop :: "profile \<Rightarrow> fv_layout \<Rightarrow> PageTable \<Rightarrow> 'z mem_state_scheme \<Rightarrow>
    'z mem_state_scheme outcome" where
  "PageTable_drop p L self w =
     obind (FixedVec_drop p usize_drop 4 (root_pt self) w) (\<lambda>w.
     FixedVec_drop p (FixedVec_drop_at p L) (fv_size L) (second_pts self) w)"

text \<open>\<open>proc.page_table = PageTable::new()\<close>: the old value is dropped once the new one exists.\<close>

definition new_page_table :: "profile \<Rightarrow> fv_layout \<Rightarrow> Process_layout \<Rightarrow> usize \<Rightarrow> 'z mem_state_scheme \<Rightarrow>
    'z mem_state_scheme outcome" where
  "new_page_table p L Q proc w =
     obind (PageTable_new p L w) (\<lambda>(pt, w).
     obind (PageTable_drop p L (load_page_table L Q (mram w) proc) w) (\<lambda>w.
     Ret (w\<lparr>mram := store_page_table L Q (mram w) proc pt\<rparr>)))"

text \<open>The loop that maps the pages from the kernel's base to the end of the memory to themselves.\<close>

definition map_body :: "profile \<Rightarrow> fv_layout \<Rightarrow> Process_layout \<Rightarrow> usize \<Rightarrow> usize \<Rightarrow>
    usize \<times> 'z mem_state_scheme \<Rightarrow> ((usize \<times> 'z mem_state_scheme) + 'z mem_state_scheme) outcome" where
  "map_body p L Q proc end_addr = (\<lambda>(base, w).
     if base < end_addr then
       obind (map_page p L (load_page_table L Q (mram w) proc) base base (PAGE_R OR PAGE_W OR PAGE_X) w) (\<lambda>w.
       obind (u_add p base PAGE_SIZE) (\<lambda>base.
       Ret (Inl (base, w))))
     else Ret (Inr w))"

text \<open>The symbols \<open>__kernel_base\<close> and \<open>__free_ram_end\<close> of the linker script are parameters.\<close>

definition create_process :: "profile \<Rightarrow> fv_layout \<Rightarrow> Process_layout \<Rightarrow> usize \<Rightarrow> usize \<Rightarrow> ProcTable \<Rightarrow> usize \<Rightarrow>
    'z mem_state_scheme \<Rightarrow> (usize \<times> 'z mem_state_scheme) outcome" where
  "create_process p L Q kernel_base free_ram_end self start_pc w =
     obind (next_unused Q self (mram w)) (\<lambda>r.
     obind (expect r ''no free process slots.'') (\<lambda>proc_index.
     obind (FixedVec_index_mut (proc_size Q) (table self) proc_index) (\<lambda>proc.
     let w = w\<lparr>mram := store32 (mram w) (proc + off_pid Q) proc_index\<rparr>;
         w = w\<lparr>mram := (mram w)(proc + off_state Q := ProcState_as_u8 Runnable)\<rparr>;
         (sp, m) = first_frame Q proc start_pc (mram w);
         w = w\<lparr>mram := store32 m (sp_as_mut_ptr Q proc) sp\<rparr> in
     obind (new_page_table p L Q proc w) (\<lambda>w.
     obind (loop (map_body p L Q proc free_ram_end) (kernel_base, w)) (\<lambda>w.
     Ret (proc_index, w))))))"


section \<open>The global table\<close>

definition proc_get :: "profile \<Rightarrow> Process_layout \<Rightarrow> 'z proc_state_scheme \<Rightarrow>
    (ProcTable Mutex \<times> ProcTable Mutex OnceCell \<times> 'z proc_state_scheme) outcome" where
  "proc_get p Q w =
     get_or_init (PROC_TABLE w) (\<lambda>w. obind (ProcTable_new p Q w) (\<lambda>(t, w). Ret (Mutex_new t, w))) w"

definition proc_init :: "profile \<Rightarrow> Process_layout \<Rightarrow> 'z proc_state_scheme \<Rightarrow> 'z proc_state_scheme outcome" where
  "proc_init p Q w = obind (proc_get p Q w) (\<lambda>(_, c, w). Ret (w\<lparr>PROC_TABLE := c\<rparr>))"

definition proc_new :: "profile \<Rightarrow> fv_layout \<Rightarrow> Process_layout \<Rightarrow> usize \<Rightarrow> usize \<Rightarrow> usize \<Rightarrow> 'z proc_state_scheme \<Rightarrow>
    'z proc_state_scheme outcome" where
  "proc_new p L Q kernel_base free_ram_end start_pc w =
     obind (proc_get p Q w) (\<lambda>(mx, c, w).
     obind (Mutex_lock mx) (\<lambda>g.
     obind (create_process p L Q kernel_base free_ram_end (guard_deref g) start_pc w) (\<lambda>(_, w).
     Ret (w\<lparr>PROC_TABLE := OnceCell_store c (guard_drop g)\<rparr>))))"


section \<open>The scheduler\<close>

fun find_runnable :: "Process_layout \<Rightarrow> ProcTable \<Rightarrow> ram \<Rightarrow> usize list \<Rightarrow> usize outcome" where
  "find_runnable Q self m [] = Ret 0"
| "find_runnable Q self m (i # is) =
     obind (FixedVec_index (proc_size Q) (table self) i) (\<lambda>proc.
     if proc_in_state Q m proc Runnable \<and> i \<noteq> curr_proc_idx self then Ret i
     else find_runnable Q self m is)"

text \<open>The inline assembly of \<open>give_up\<close>; the compiler picks the registers of the operands.\<close>

definition switch_space :: "usize \<Rightarrow> usize \<Rightarrow> machine \<Rightarrow> machine outcome" where
  "switch_space satp sscratch s =
     exec no_calls [SFENCE_VMA, CSRW SATP A0, SFENCE_VMA, CSRW SSCRATCH A1]
       (set_reg A1 sscratch (set_reg A0 satp s))"

text \<open>
  The registers in the state are those at the call of \<open>switch_context\<close>; in particular \<open>sp\<close> points
  into the stack of the running process. The state that is returned is the one in which the next
  process goes on, at the address in \<open>cpu_pc\<close>.
\<close>

definition give_up :: "profile \<Rightarrow> fv_layout \<Rightarrow> Process_layout \<Rightarrow> 'z proc_state_scheme \<Rightarrow>
    'z proc_state_scheme outcome" where
  "give_up p L Q w =
     obind (proc_get p Q w) (\<lambda>(mx, c, w).
     obind (Mutex_lock mx) (\<lambda>proc_guard.
     let curr = curr_proc_idx (guard_deref proc_guard) in
     obind (find_runnable Q (guard_deref proc_guard) (mram w)
       (usize_range 1 (FixedVec_cap (table (guard_deref proc_guard))))) (\<lambda>next_runnable_idx.
     obind (get_proc Q (guard_deref proc_guard) curr) (\<lambda>prev.
     obind (get_proc Q (guard_deref proc_guard) next_runnable_idx) (\<lambda>nxt.
     let prev_sp = sp_as_mut_ptr Q prev;
         next_sp = sp_as_mut_ptr Q nxt;
         next_stack = nxt + off_stack Q + (PROC_STACK_SIZE - 1) + 1 in
     obind (u_div (root_pt_addr (load_page_table L Q (mram w) nxt)) PAGE_SIZE) (\<lambda>ppn.
     obind (switch_space (SATP_SV32 OR ppn) next_stack (machine_of w)) (\<lambda>s.
     let proc_guard = guard_deref_mut proc_guard
           ((guard_deref proc_guard)\<lparr>curr_proc_idx := next_runnable_idx\<rparr>);
         w = w\<lparr>PROC_TABLE := OnceCell_store c (guard_drop proc_guard)\<rparr> in
     obind (switch_context prev_sp next_sp s) (\<lambda>s.
     Ret (set_machine s w)))))))))"

end
