(* ===== verification/Room.thy ===== *)
theory Room
  imports Fixed_Vec
begin

text \<open>
  When an allocation cannot fail: as long as all live blocks are small (at most 32 KB, the largest
  size the kernel asks for after boot) and few, one of the aligned 32 KB chunks of the memory has
  no live block in it, and the search of the allocator finds it.
\<close>

lemma finite_blocks: "finite (blocks a d t)"
  by (induction a d t rule: blocks.induct) simp_all

lemma finite_live [simp]: "finite (live m)"
  by (simp add: live_def finite_blocks)

text \<open>A block of at most the size of a chunk, aligned to its size, meets one chunk only.\<close>

lemma one_chunk:
  fixes s r c i :: nat
  assumes "i \<le> 15" "extent (s + r * 2 ^ i, i) \<inter> extent (s + c * 2 ^ 15, 15) \<noteq> {}"
  shows "c = r div 2 ^ (15 - i)"
proof -
  obtain y where y: "s + r * 2 ^ i \<le> y" "y < s + r * 2 ^ i + 2 ^ i" "s + c * 2 ^ 15 \<le> y" "y < s + c * 2 ^ 15 + 2 ^ 15"
    using assms(2) unfolding extent_def ex_in_conv [symmetric] split_conv Int_iff atLeastLessThan_iff by blast
  define z where "z = y - s"
  have z: "r * 2 ^ i \<le> z" "z < r * 2 ^ i + 2 ^ i" "c * 2 ^ 15 \<le> z" "z < c * 2 ^ 15 + 2 ^ 15"
    using y by (auto simp: z_def)
  have ri: "z div 2 ^ i = r"
    using z(1,2) by (intro div_nat_eqI) (simp_all add: algebra_simps)
  have c: "z div 2 ^ 15 = c" using z(3,4) by (intro div_nat_eqI) simp_all
  have "(2::nat) ^ 15 = 2 ^ i * 2 ^ (15 - i)" using assms(1) by (simp flip: power_add)
  then have "z div 2 ^ 15 = z div 2 ^ i div 2 ^ (15 - i)" by (simp only: div_mult2_eq)
  then show ?thesis using c ri by simp
qed

lemma alloc_room:
  assumes ok: "mem_ok m" and n: "n \<noteq> 0" "unat n \<le> 2 ^ 15"
    and small: "\<And>x j. (x, j) \<in> live m \<Longrightarrow> j \<le> 15" and few: "card (live m) < capacity m div 2 ^ 15"
  shows "Memory_buddy_alloc p m n \<noteq> Ret (Err e, m')"
proof
  assume r: "Memory_buddy_alloc p m n = Ret (Err e, m')"
  let ?N = "capacity m div 2 ^ 15" and ?j = "order_of n" and ?s = "unat (pa_addr (m_start m))"
  have j: "?j \<le> 15" using order_of_bounds(2) [of n 15] n(2) by simp
  have N: "?N * 2 ^ 15 \<le> capacity m" by simp
  have "0 < ?N" using few by linarith
  then have cap: "unat n \<le> capacity m" using N n(2) by (cases ?N) auto
  have "\<exists>b\<in>live m. extent b \<inter> extent (?s + c * 2 ^ 15, 15) \<noteq> {}" if c: "c < ?N" for c
  proof -
    let ?q = "c * 2 ^ (15 - ?j)"
    have pw: "(2::nat) ^ (15 - ?j) * 2 ^ ?j = 2 ^ 15" using j by (simp flip: power_add)
    have q: "?q * 2 ^ ?j = c * 2 ^ 15" by (simp only: mult.assoc pw)
    have le: "(2::nat) ^ ?j \<le> 2 ^ 15" using j by (intro power_increasing) simp_all
    have "(c + 1) * 2 ^ 15 \<le> ?N * 2 ^ 15" using c by (intro mult_le_mono1) simp
    then have "c * 2 ^ 15 + 2 ^ 15 \<le> capacity m" using N by (simp only: add_mult_distrib mult_1)
    then have "(?q + 1) * 2 ^ ?j \<le> capacity m" using q le unfolding add_mult_distrib mult_1 by linarith
    from alloc_fails_full [OF ok n(1) cap r this] obtain b where
      "b \<in> live m" "extent b \<inter> extent (?s + ?q * 2 ^ ?j, ?j) \<noteq> {}" by blast
    moreover have "extent (?s + ?q * 2 ^ ?j, ?j) \<subseteq> extent (?s + c * 2 ^ 15, 15)"
      using le by (auto simp: extent_def q)
    ultimately show ?thesis by blast
  qed
  then obtain f where f: "\<And>c. c < ?N \<Longrightarrow> f c \<in> live m \<and> extent (f c) \<inter> extent (?s + c * 2 ^ 15, 15) \<noteq> {}"
    by metis
  have "inj_on f {..<?N}"
  proof (rule inj_onI)
    fix c d assume cd: "c \<in> {..<?N}" "d \<in> {..<?N}" "f c = f d"
    obtain x i where xi: "f c = (x, i)" by (cases "f c")
    have l: "(x, i) \<in> live m" using f [of c] cd xi by simp
    have "0 < (2::nat) ^ i" by simp
    then have "x < 2 ^ 32" using buddy.live_bound [OF ok l] by linarith
    then have u: "unat (of_nat x :: usize) = x" by (rule unat_of_nat_ok)
    obtain k q where "i = levels m + 12 - k" "x = ?s + q * 2 ^ (levels m + 12 - k)"
      using live_position [OF ok, of "of_nat x" i] l unfolding u by metis
    then have x: "x = ?s + q * 2 ^ i" by simp
    show "c = d"
      using one_chunk [OF small [OF l], of ?s q c] one_chunk [OF small [OF l], of ?s q d] f [of c] f [of d] cd xi x
      by simp
  qed
  then have "card {..<?N} \<le> card (live m)" using f by (intro card_inj_on_le [where f = f]) auto
  then show False using few by simp
qed


section \<open>Room for a number of allocations\<close>

definition room :: "'z mem_state_scheme \<Rightarrow> nat \<Rightarrow> bool" where
  "room w n \<longleftrightarrow>
     card (glive w) + n \<le> gcapacity w div 2 ^ 15 \<and> (\<forall>(x, j)\<in>glive w. j \<le> 15) \<and> 0 \<notin> gregion w"

lemma room_mono: "room w n \<Longrightarrow> k \<le> n \<Longrightarrow> room w k"
  by (auto simp: room_def)

lemma phalloc_room:
  assumes w: "kmem_ok w" and n: "n \<noteq> 0" "unat n \<le> 2 ^ 15" and rm: "room w (Suc r)"
  shows "\<exists>a k w'. phalloc p w n = Ret (Ok (PhysAddr a (Some (2 ^ k))), w') \<and>
     new_block w (unat a, k) w' \<and> unat n \<le> 2 ^ k \<and> a \<noteq> 0 \<and> room w' r"
proof -
  have mi: "memory_is w (gmem w)" and mo: "mem_ok (gmem w)" using w by (auto simp: kmem_ok_def gmem_ok_def)
  have few: "card (live (gmem w)) < capacity (gmem w) div 2 ^ 15"
    and small: "\<And>x j. (x, j) \<in> live (gmem w) \<Longrightarrow> j \<le> 15" and nz: "0 \<notin> gregion w"
    using rm by (auto simp: room_def glive_def gcapacity_def)
  have "0 < capacity (gmem w) div 2 ^ 15" using few by linarith
  then have "2 ^ 15 \<le> capacity (gmem w)" by (metis div_less not_less less_irrefl)
  then have cap: "unat n \<le> gcapacity w" using n(2) by (simp add: gcapacity_def)
  from phalloc_cases [OF w n(1) cap, of p] show ?thesis
  proof (elim disjE exE conjE)
    fix w' assume "phalloc p w n = Ret (Err OutOfMemory, w')"
    then have "\<exists>m'. Memory_buddy_alloc p (gmem w) n = Ret (Err OutOfMemory, m')"
      by (auto simp: phalloc_def buddy_alloc_eq [OF mi] obind_eq_Ret)
    then show ?thesis using alloc_room [OF mo n _ few] small by blast
  next
    fix a k w'
    assume r: "phalloc p w n = Ret (Ok (PhysAddr a (Some (2 ^ k))), w')" and nb: "new_block w (unat a, k) w'"
      and k: "unat n \<le> 2 ^ k"
    have "\<exists>q. block_addr (gmem w) (levels (gmem w)) (levels (gmem w) + 12 - order_of n) q = PhysAddr a (Some (2 ^ k))"
      using buddy_alloc_cases [OF mo n(1), of p] cap r
      by (auto simp: phalloc_def buddy_alloc_eq [OF mi] obind_eq_Ret gcapacity_def)
    then have e: "(2::usize) ^ (levels (gmem w) + 12 - (levels (gmem w) + 12 - order_of n)) = 2 ^ k"
      by (auto simp: block_addr_def)
    have o: "order_of n \<le> levels (gmem w) + 12" "order_of n \<le> 15"
      using order_of_bounds(2) [of n "levels (gmem w) + 12"] cap order_of_bounds(2) [of n 15] n(2)
      by (auto simp: gcapacity_def capacity_def)
    have "k < 32" using nb by (simp add: new_block_def)
    then have k15: "k \<le> 15" using e o pow2_usize_inj [of "order_of n" k] by simp
    have w': "gmem_ok w'" "glive w' = insert (unat a, k) (glive w)" "(unat a, k) \<notin> glive w" "gregion w' = gregion w"
      "gcapacity w' = gcapacity w" using nb by (auto simp: new_block_def kmem_ok_def)
    have "extent (unat a, k) \<subseteq> gregion w" using live_in_region [OF w'(1), of "(unat a, k)"] w' by simp
    then have "unat a \<in> gregion w" by (auto simp: extent_def)
    then have a0: "a \<noteq> 0" using nz by auto
    have "finite (glive w)" by (simp add: glive_def)
    then have "room w' r" using rm w' k15 by (auto simp: room_def)
    then show ?thesis using r nb k a0 by blast
  qed
qed

lemma FixedVec_new_room:
  assumes w: "kmem_ok w" and sz: "sz \<noteq> 0" and cap: "cap \<noteq> 0" "unat cap * unat sz \<le> 2 ^ 15" and rm: "room w (Suc r)"
  shows "\<exists>a k w'. FixedVec_new p sz cap w =
        Ret (\<lparr>fv_ptr = a, fv_cap = cap, fv_addr = PhysAddr a (Some (2 ^ k))\<rparr>, w') \<and>
       new_block w (unat a, k) w' \<and> unat cap * unat sz \<le> 2 ^ k \<and> room w' r"
proof -
  have u: "unat (cap * sz) = unat cap * unat sz" "u_mul p cap sz = Ret (cap * sz)"
    using cap(2) by (auto intro: unat_mul_ok u_mul_ok)
  have "unat cap * unat sz \<noteq> 0" using cap(1) sz by (simp add: unat_eq_0)
  then have "unat (cap * sz) \<noteq> 0" using u(1) by linarith
  then have n: "cap * sz \<noteq> 0" "unat (cap * sz) \<le> 2 ^ 15" "cap * sz \<le> 0x7FFFFFFF"
    using u(1) cap by (auto simp: word_le_nat_alt)
  from phalloc_room [OF w n(1,2) rm, of p] show ?thesis
    using sz u n(3) by (fastforce simp: FixedVec_new_def NonNull_unwrap_def PhysAddr_as_mut_ptr_def)
qed

end
