(* ===== verification/Proc_Map.thy ===== *)
theory Proc_Map
  imports Proc Vm_Map Room
begin

text \<open>
  A process in memory, and the loop of \<open>create_process\<close> that maps the kernel's pages to themselves:
  it ends, the translation is the identity on the range and unchanged elsewhere, and it allocates
  one second-level table for each entry of the root it needs.
\<close>

section \<open>The layout of a process\<close>

definition proc_fields :: "fv_layout \<Rightarrow> Process_layout \<Rightarrow> (usize \<times> nat) list" where
  "proc_fields L Q =
     [(off_stack Q, 2048), (off_sp Q, 4), (off_pid Q, 4), (off_root Q, unat (fv_size L)),
      (off_second Q, unat (fv_size L)), (off_state Q, 1)]"

text \<open>What every layout satisfies: the fields are inside the struct and apart from one another.\<close>

definition Process_layout_ok :: "fv_layout \<Rightarrow> Process_layout \<Rightarrow> bool" where
  "Process_layout_ok L Q \<longleftrightarrow>
     (\<forall>(o1, n)\<in>set (proc_fields L Q). unat o1 + n \<le> unat (proc_size Q)) \<and>
     sorted_wrt (\<lambda>(o1, n) (o2, k). unat o1 + n \<le> unat o2 \<or> unat o2 + k \<le> unat o1) (proc_fields L Q) \<and>
     unat (proc_size Q) \<le> 4096"

definition proc_bytes :: "Process_layout \<Rightarrow> usize \<Rightarrow> nat set" where
  "proc_bytes Q proc = {unat proc..<unat proc + unat (proc_size Q)}"

definition field :: "usize \<Rightarrow> usize \<times> nat \<Rightarrow> nat set" where
  "field proc = (\<lambda>(o1, n). {unat proc + unat o1..<unat proc + unat o1 + n})"

lemma field_range:
  assumes "Process_layout_ok L Q" "unat proc + unat (proc_size Q) \<le> 2 ^ 32" "(o1, n) \<in> set (proc_fields L Q)" "0 < n"
  shows "unat (proc + o1) = unat proc + unat o1" "unat (proc + o1) + n \<le> 2 ^ 32" "field proc (o1, n) \<subseteq> proc_bytes Q proc"
proof -
  have o1: "unat o1 + n \<le> unat (proc_size Q)" using assms(1,3) by (auto simp: Process_layout_ok_def)
  then show u: "unat (proc + o1) = unat proc + unat o1" using assms(2,4) by (intro unat_add_ok) linarith
  then show "unat (proc + o1) + n \<le> 2 ^ 32" using o1 assms(2) by linarith
  show "field proc (o1, n) \<subseteq> proc_bytes Q proc" using o1 by (auto simp: field_def proc_bytes_def)
qed

lemma load_page_table_on:
  assumes L: "fv_layout_ok L" and Q: "Process_layout_ok L Q" and a: "unat proc + unat (proc_size Q) \<le> 2 ^ 32"
    and u: "unchanged_on S m m'"
    and S: "field proc (off_root Q, unat (fv_size L)) \<union> field proc (off_second Q, unat (fv_size L)) \<subseteq> S"
  shows "load_page_table L Q m' proc = load_page_table L Q m proc"
proof -
  have sz: "0 < unat (fv_size L)" using L by (auto simp: fv_layout_ok_def word_le_nat_alt)
  have "load_fv L m' (proc + o1) = load_fv L m (proc + o1)" if o1: "o1 \<in> {off_root Q, off_second Q}" for o1
  proof -
    have "(o1, unat (fv_size L)) \<in> set (proc_fields L Q)" using o1 by (auto simp: proc_fields_def)
    note r = field_range [OF Q a this sz]
    show ?thesis using r S o1 by (intro load_fv_on [OF L _ u]) (auto simp: field_def)
  qed
  then show ?thesis by (simp add: load_page_table_def)
qed


section \<open>Pages of a range\<close>

definition page_of :: "usize \<Rightarrow> usize" where
  "page_of va = push_bit 12 (drop_bit 12 va)"

lemma unat_page_of: "unat (page_of va) = unat va div 4096 * 4096"
proof -
  have u: "unat (drop_bit 12 va) = unat va div 4096" by (simp add: drop_bit_eq_div unat_div)
  have "unat va div 4096 * 4096 \<le> unat va" by simp
  then have "unat (drop_bit 12 va * 4096) = unat va div 4096 * 4096"
    using u unat_less_32 [of va] by (subst unat_mul_ok) simp_all
  then show ?thesis by (simp add: page_of_def push_bit_eq_mult)
qed

lemma same_page:
  fixes base va :: usize
  assumes "4096 dvd unat base"
  shows "drop_bit 12 va = drop_bit 12 base \<longleftrightarrow> unat base \<le> unat va \<and> unat va < unat base + 4096"
proof -
  obtain b where b: "unat base = 4096 * b" using assms by blast
  have "drop_bit 12 va = drop_bit 12 base \<longleftrightarrow> unat va div 4096 = b"
    unfolding word_unat_eq_iff by (simp add: drop_bit_eq_div unat_div b)
  also have "\<dots> \<longleftrightarrow> unat base \<le> unat va \<and> unat va < unat base + 4096"
    unfolding b by (auto simp: div_nat_eqI)
  finally show ?thesis .
qed

lemma page_of_base:
  assumes "4096 dvd unat base" "drop_bit 12 va = drop_bit 12 base"
  shows "page_of va = base"
proof -
  have "unat (page_of base) = unat base" using assms(1) by (simp add: unat_page_of)
  then have "page_of base = base" by (simp add: word_unat_eq_iff)
  then show ?thesis using assms(2) by (simp add: page_of_def)
qed

definition vpn1 :: "usize \<Rightarrow> usize" where
  "vpn1 va = drop_bit 22 va AND 0x3FF"

text \<open>The entries of the root that a range of addresses needs and that are not there yet.\<close>

definition missing :: "'z mem_state_scheme \<Rightarrow> PageTable \<Rightarrow> usize \<Rightarrow> usize \<Rightarrow> usize set" where
  "missing w pt base end_addr =
     {i. i < 1024 \<and> \<not> valid w pt i \<and> (\<exists>va. base \<le> va \<and> va < end_addr \<and> vpn1 va = i)}"

lemma finite_missing [simp]: "finite (missing w pt base end_addr)"
  by (rule finite_subset [of _ UNIV]) simp_all

lemma missing_step:
  assumes v: "\<And>j. j < 1024 \<Longrightarrow> valid w' pt j \<longleftrightarrow> valid w pt j \<or> j = vpn1 base" and le: "base \<le> base'" "base < end_addr"
  shows "card (missing w' pt base' end_addr) + (if valid w pt (vpn1 base) then 0 else 1) \<le> card (missing w pt base end_addr)"
proof (cases "valid w pt (vpn1 base)")
  case True
  have "missing w' pt base' end_addr \<subseteq> missing w pt base end_addr"
    using v le order.trans [OF le(1)] by (auto simp: missing_def)
  then show ?thesis using True by (simp add: card_mono)
next
  case False
  have "vpn1 base < 1024" unfolding vpn1_def by (rule vpn_less)
  then have "insert (vpn1 base) (missing w' pt base' end_addr) \<subseteq> missing w pt base end_addr"
    using v le False order.trans [OF le(1)] by (auto simp: missing_def)
  moreover have "vpn1 base \<notin> missing w' pt base' end_addr" using v by (auto simp: missing_def)
  ultimately have "Suc (card (missing w' pt base' end_addr)) \<le> card (missing w pt base end_addr)"
    by (metis card_insert_disjoint card_mono finite_missing)
  then show ?thesis using False by simp
qed


section \<open>The loop\<close>

lemma map_flags: "PAGE_R OR PAGE_W OR PAGE_X = (0xE :: usize)"
  by (simp add: PAGE_R_def PAGE_W_def PAGE_X_def)

lemma map_page_missing:
  assumes L: "fv_layout_ok L" and w: "kmem_ok w" and ok: "pt_ok L w pt k" and cap: "4096 \<le> gcapacity w"
    and al: "4096 dvd unat base" and lt: "base < end_addr" "base \<le> base'"
  shows "map_page p L pt base base 0xE w = Panic UnwrapNone \<and> \<not> room w (card (missing w pt base end_addr)) \<or>
    (\<exists>w'. map_page p L pt base base 0xE w = Ret w' \<and> pt_step L pt k w w' \<and>
       (\<forall>va. vm_lookup w' pt va =
          (if drop_bit 12 va = drop_bit 12 base then Some (base, 0xF) else vm_lookup w pt va)) \<and>
       (\<forall>r. room w (card (missing w pt base end_addr) + r) \<longrightarrow> room w' (card (missing w' pt base' end_addr) + r)))"
proof -
  have i: "vpn1 base < 1024" unfolding vpn1_def by (rule vpn_less)
  have new: "\<exists>q kq w1. FixedVec_new p 4 1024 w = Ret (second_vec q kq, w1) \<and> room w1 r"
    if "room w (Suc r)" for r
    using FixedVec_new_room [OF w, of 4 1024 r p] that by (auto simp: second_vec_def)
  have same: "vm_lookup w' pt va = vm_lookup w' pt base" if "drop_bit 12 va = drop_bit 12 base" for w' va
  proof -
    have "drop_bit 10 (drop_bit 12 va) = drop_bit 10 (drop_bit 12 base)" by (rule arg_cong [OF that])
    then have "drop_bit 22 va = drop_bit 22 base" by simp
    then show ?thesis using that by (simp only: vm_lookup_def sv32_walk_def)
  qed
  from map_page_ok [OF L w ok cap al al, of "0xE" p, simplified] show ?thesis
  proof (elim disjE exE conjE)
    assume p: "map_page p L pt base base 0xE w = Panic UnwrapNone" "FixedVec_new p 4 1024 w = Panic UnwrapNone"
      "\<not> valid w pt (drop_bit 22 base AND 0x3FF)"
    then have "vpn1 base \<in> missing w pt base end_addr" using i lt by (auto simp: missing_def vpn1_def)
    then have "0 < card (missing w pt base end_addr)" by (auto simp: card_gt_0_iff)
    then show ?thesis using new [of "card (missing w pt base end_addr) - 1"] p by auto
  next
    fix w'
    assume r: "map_page p L pt base base 0xE w = Ret w'" and st: "pt_step L pt k w w'"
      and l: "vm_lookup w' pt base = Some (base, 0xF)"
        "\<forall>va'. drop_bit 12 va' \<noteq> drop_bit 12 base \<longrightarrow> vm_lookup w' pt va' = vm_lookup w pt va'"
    note ef = map_page_effect [OF L w ok cap al al r, folded vpn1_def]
    note ms = missing_step [OF ef(1) lt(2,1)]
    have "room w' (card (missing w' pt base' end_addr) + x)" if rm: "room w (card (missing w pt base end_addr) + x)" for x
    proof (cases "valid w pt (vpn1 base)")
      case True
      then have "room w' (card (missing w pt base end_addr) + x)"
        using rm ef(2) st by (simp add: room_def pt_step_def)
      then show ?thesis by (rule room_mono) (use ms True in simp)
    next
      case False
      let ?n = "card (missing w' pt base' end_addr) + x"
      have "room w (Suc ?n)" using rm by (rule room_mono) (use ms False in simp)
      then obtain q kq w1 where "FixedVec_new p 4 1024 w = Ret (second_vec q kq, w1)" "room w1 ?n"
        using new by blast
      moreover obtain q' k' w1' where "FixedVec_new p 4 1024 w = Ret (second_vec q' k', w1')" "new_block w (unat q', k') w1'"
          "glive w' = glive w1'" using ef(3) [OF False] by blast
      ultimately show ?thesis using st by (auto simp: room_def pt_step_def new_block_def)
    qed
    moreover have "vm_lookup w' pt va =
        (if drop_bit 12 va = drop_bit 12 base then Some (base, 0xF) else vm_lookup w pt va)" for va
      using l same [of va w'] by simp
    ultimately show ?thesis using r st by blast
  qed
qed

text \<open>One iteration below the end: it maps a page and goes on at the next one, or the memory is exhausted.\<close>

lemma map_step:
  assumes L: "fv_layout_ok L" and Q: "Process_layout_ok L Q" and a: "unat proc + unat (proc_size Q) \<le> 2 ^ 32"
    and w: "kmem_ok w" and ok: "pt_ok L w pt k" and cap: "4096 \<le> gcapacity w" and pt: "load_page_table L Q (mram w) proc = pt"
    and apart: "proc_bytes Q proc \<subseteq> live_bytes w - pt_bytes L w pt k"
    and base: "4096 dvd unat base" "base < end_addr" "unat (base + 4096) = unat base + 4096"
  shows "loop (map_body p L Q proc end_addr) (base, w) = Panic UnwrapNone \<and> \<not> room w (card (missing w pt base end_addr)) \<or>
    (\<exists>w1. loop (map_body p L Q proc end_addr) (base, w) = loop (map_body p L Q proc end_addr) (base + 4096, w1) \<and>
       pt_step L pt k w w1 \<and> load_page_table L Q (mram w1) proc = pt \<and>
       proc_bytes Q proc \<subseteq> live_bytes w1 - pt_bytes L w1 pt k \<and>
       (\<forall>va. vm_lookup w1 pt va = (if drop_bit 12 va = drop_bit 12 base then Some (base, 0xF) else vm_lookup w pt va)) \<and>
       (\<forall>r. room w (card (missing w pt base end_addr) + r) \<longrightarrow> room w1 (card (missing w1 pt (base + 4096) end_addr) + r)))"
proof -
  have "u_add p base PAGE_SIZE = Ret (base + 4096)"
    using base(3) unat_less_32 [of "base + 4096"] by (auto intro!: u_add_ok simp: PAGE_SIZE_def)
  then have body: "map_body p L Q proc end_addr (base, w) =
      obind (map_page p L pt base base 0xE w) (\<lambda>w. Ret (Inl (base + 4096, w)))"
    using base(2) pt by (simp add: map_body_def map_flags)
  have le: "base \<le> base + 4096" using base(3) by (simp add: word_le_nat_alt)
  from map_page_missing [OF L w ok cap base(1,2) le, of p] show ?thesis
  proof (elim disjE exE conjE)
    assume "map_page p L pt base base 0xE w = Panic UnwrapNone" "\<not> room w (card (missing w pt base end_addr))"
    then show ?thesis using body loop_panic [of "map_body p L Q proc end_addr" "(base, w)"] by simp
  next
    fix w1
    assume r: "map_page p L pt base base 0xE w = Ret w1" and st: "pt_step L pt k w w1"
      and lk: "\<forall>va. vm_lookup w1 pt va =
        (if drop_bit 12 va = drop_bit 12 base then Some (base, 0xF) else vm_lookup w pt va)"
      and rm: "\<forall>r. room w (card (missing w pt base end_addr) + r) \<longrightarrow> room w1 (card (missing w1 pt (base + 4096) end_addr) + r)"
    have "live_bytes w \<subseteq> live_bytes w1" using st by (auto simp: pt_step_def live_bytes_def)
    then have ap: "proc_bytes Q proc \<subseteq> live_bytes w1 - pt_bytes L w1 pt k" using apart st unfolding pt_step_def by blast
    have "0 < unat (fv_size L)" using L by (auto simp: fv_layout_ok_def word_le_nat_alt)
    then have "field proc (off_root Q, unat (fv_size L)) \<union> field proc (off_second Q, unat (fv_size L)) \<subseteq> proc_bytes Q proc"
      using field_range(3) [OF Q a] by (auto simp: proc_fields_def)
    then have "load_page_table L Q (mram w1) proc = load_page_table L Q (mram w) proc"
      using st apart by (intro load_page_table_on [OF L Q a unchanged_on_mono]) (auto simp: pt_step_def)
    moreover have "loop (map_body p L Q proc end_addr) (base, w) = loop (map_body p L Q proc end_addr) (base + 4096, w1)"
      using body r by (intro loop_continue) simp
    ultimately show ?thesis using st lk rm ap pt by blast
  qed
qed

lemma map_loop:
  assumes L: "fv_layout_ok L" and Q: "Process_layout_ok L Q" and a: "unat proc + unat (proc_size Q) \<le> 2 ^ 32"
    and "kmem_ok w" "pt_ok L w pt k" "4096 \<le> gcapacity w" "load_page_table L Q (mram w) proc = pt"
    and "proc_bytes Q proc \<subseteq> live_bytes w - pt_bytes L w pt k"
    and "4096 dvd unat base" "4096 dvd unat end_addr" "base \<le> end_addr"
  shows "loop (map_body p L Q proc end_addr) (base, w) = Panic UnwrapNone \<and>
      \<not> room w (card (missing w pt base end_addr)) \<or>
    (\<exists>w'. loop (map_body p L Q proc end_addr) (base, w) = Ret w' \<and> pt_step L pt k w w' \<and>
       (\<forall>va. vm_lookup w' pt va =
          (if base \<le> va \<and> va < end_addr then Some (page_of va, 0xF) else vm_lookup w pt va)) \<and>
       (\<forall>r. room w (card (missing w pt base end_addr) + r) \<longrightarrow> room w' r))"
  using assms(4-)
proof (induction "unat end_addr - unat base" arbitrary: base w rule: less_induct)
  case less
  note w = less.prems(1) and ok = less.prems(2) and cap = less.prems(3) and pt = less.prems(4)
    and apart = less.prems(5) and al = less.prems(6) and al' = less.prems(7)
  let ?loop = "loop (map_body p L Q proc end_addr)"
  show ?case
  proof (cases "base < end_addr")
    case False
    have "?loop (base, w) = Ret w" using False by (intro loop_exit) (simp add: map_body_def)
    moreover have "vm_lookup w pt va =
        (if base \<le> va \<and> va < end_addr then Some (page_of va, 0xF) else vm_lookup w pt va)" for va
      using False by (auto simp: not_less)
    moreover have "room w r" if "room w (card (missing w pt base end_addr) + r)" for r
      using that by (rule room_mono) simp
    ultimately show ?thesis using pt_step_refl [OF w ok] by blast
  next
    case True
    let ?base = "base + 4096"
    have lt: "unat base < unat end_addr" using True by (simp add: word_less_nat_alt)
    then have le: "unat base + 4096 \<le> unat end_addr" using al al' by (auto elim!: dvdE)
    then have u: "unat ?base = unat base + 4096" using unat_less_32 [of end_addr] by (simp add: unat_add_ok)
    have b: "?base \<le> end_addr" "4096 dvd unat ?base" using u le al by (auto simp: word_le_nat_alt)
    from map_step [OF L Q a w ok cap pt apart al True u, of p] show ?thesis
    proof (elim disjE exE conjE)
      fix w1
      assume step: "?loop (base, w) = ?loop (?base, w1)" and st: "pt_step L pt k w w1"
        and pt': "load_page_table L Q (mram w1) proc = pt" and ap: "proc_bytes Q proc \<subseteq> live_bytes w1 - pt_bytes L w1 pt k"
        and lk: "\<forall>va. vm_lookup w1 pt va =
          (if drop_bit 12 va = drop_bit 12 base then Some (base, 0xF) else vm_lookup w pt va)"
        and rm: "\<forall>r. room w (card (missing w pt base end_addr) + r) \<longrightarrow> room w1 (card (missing w1 pt ?base end_addr) + r)"
      have pre: "kmem_ok w1" "pt_ok L w1 pt k" "4096 \<le> gcapacity w1" using st cap by (auto simp: pt_step_def)
      have "unat end_addr - unat ?base < unat end_addr - unat base" using u lt by simp
      from less.hyps [OF this pre pt' ap b(2) al' b(1)] show ?thesis
      proof (elim disjE exE conjE)
        assume "?loop (?base, w1) = Panic UnwrapNone" "\<not> room w1 (card (missing w1 pt ?base end_addr))"
        then show ?thesis using step spec [OF rm, of 0] by auto
      next
        fix w'
        assume r': "?loop (?base, w1) = Ret w'" and st': "pt_step L pt k w1 w'"
          and lk': "\<forall>va. vm_lookup w' pt va =
            (if ?base \<le> va \<and> va < end_addr then Some (page_of va, 0xF) else vm_lookup w1 pt va)"
          and rm': "\<forall>r. room w1 (card (missing w1 pt ?base end_addr) + r) \<longrightarrow> room w' r"
        have "vm_lookup w' pt va = (if base \<le> va \<and> va < end_addr then Some (page_of va, 0xF) else vm_lookup w pt va)" for va
          using lk lk' same_page [OF al, of va] page_of_base [OF al, of va] u le
          by (auto simp: word_le_nat_alt word_less_nat_alt)
        then show ?thesis using step r' pt_step_trans [OF st st'] rm rm' by auto
      qed
    qed blast
  qed
qed

end
