(* ===== verification/Proc_Create.thy ===== *)
theory Proc_Create
  imports Proc_Map
begin

text \<open>
  \<open>create_process\<close>: what the process looks like in memory afterwards, what else changes, and that it
  returns whenever a slot is free and the memory has room.
\<close>

section \<open>Fields\<close>

abbreviation stack_field :: "Process_layout \<Rightarrow> usize \<Rightarrow> nat set" where
  "stack_field Q proc \<equiv> field proc (off_stack Q, 2048)"

abbreviation sp_field :: "Process_layout \<Rightarrow> usize \<Rightarrow> nat set" where
  "sp_field Q proc \<equiv> field proc (off_sp Q, 4)"

abbreviation pid_field :: "Process_layout \<Rightarrow> usize \<Rightarrow> nat set" where
  "pid_field Q proc \<equiv> field proc (off_pid Q, 4)"

abbreviation state_field :: "Process_layout \<Rightarrow> usize \<Rightarrow> nat set" where
  "state_field Q proc \<equiv> field proc (off_state Q, 1)"

abbreviation table_fields :: "fv_layout \<Rightarrow> Process_layout \<Rightarrow> usize \<Rightarrow> nat set" where
  "table_fields L Q proc \<equiv>
     field proc (off_root Q, unat (fv_size L)) \<union> field proc (off_second Q, unat (fv_size L))"

lemma fields_disjoint:
  assumes "Process_layout_ok L Q"
  shows "stack_field Q proc \<inter> sp_field Q proc = {}" "stack_field Q proc \<inter> pid_field Q proc = {}"
    "stack_field Q proc \<inter> state_field Q proc = {}" "stack_field Q proc \<inter> table_fields L Q proc = {}"
    "sp_field Q proc \<inter> pid_field Q proc = {}" "sp_field Q proc \<inter> state_field Q proc = {}"
    "sp_field Q proc \<inter> table_fields L Q proc = {}" "pid_field Q proc \<inter> state_field Q proc = {}"
    "pid_field Q proc \<inter> table_fields L Q proc = {}" "state_field Q proc \<inter> table_fields L Q proc = {}"
    "field proc (off_root Q, unat (fv_size L)) \<inter> field proc (off_second Q, unat (fv_size L)) = {}"
proof -
  have d: "field proc (o1, n) \<inter> field proc (o2, k) = {}" if "unat o1 + n \<le> unat o2 \<or> unat o2 + k \<le> unat o1" for o1 o2 n k
    using that by (auto simp: field_def)
  note sw = assms [unfolded Process_layout_ok_def proc_fields_def sorted_wrt.simps, THEN conjunct2, THEN conjunct1]
  show "stack_field Q proc \<inter> sp_field Q proc = {}" "stack_field Q proc \<inter> pid_field Q proc = {}"
    "stack_field Q proc \<inter> state_field Q proc = {}" "sp_field Q proc \<inter> pid_field Q proc = {}"
    "sp_field Q proc \<inter> state_field Q proc = {}" "pid_field Q proc \<inter> state_field Q proc = {}"
    "field proc (off_root Q, unat (fv_size L)) \<inter> field proc (off_second Q, unat (fv_size L)) = {}"
    by (rule d, use sw in simp)+
  show "stack_field Q proc \<inter> table_fields L Q proc = {}" "sp_field Q proc \<inter> table_fields L Q proc = {}"
    "pid_field Q proc \<inter> table_fields L Q proc = {}" "state_field Q proc \<inter> table_fields L Q proc = {}"
    unfolding Int_Un_distrib Un_empty by (rule conjI; rule d; use sw in fastforce)+
qed

lemma fv_size_pos: "fv_layout_ok L \<Longrightarrow> 0 < unat (fv_size L)"
  by (auto simp: fv_layout_ok_def word_le_nat_alt)

lemma fields_sub:
  assumes L: "fv_layout_ok L" and Q: "Process_layout_ok L Q" and a: "unat proc + unat (proc_size Q) \<le> 2 ^ 32"
  shows "stack_field Q proc \<subseteq> proc_bytes Q proc" "sp_field Q proc \<subseteq> proc_bytes Q proc"
    "pid_field Q proc \<subseteq> proc_bytes Q proc" "state_field Q proc \<subseteq> proc_bytes Q proc"
    "table_fields L Q proc \<subseteq> proc_bytes Q proc"
proof -
  have sz: "0 < unat (fv_size L)" using fv_size_pos [OF L] .
  note r = field_range(3) [OF Q a]
  show "stack_field Q proc \<subseteq> proc_bytes Q proc" "sp_field Q proc \<subseteq> proc_bytes Q proc"
    "pid_field Q proc \<subseteq> proc_bytes Q proc" "state_field Q proc \<subseteq> proc_bytes Q proc"
    by (rule r; simp add: proc_fields_def)+
  show "table_fields L Q proc \<subseteq> proc_bytes Q proc"
    using r [OF _ sz, of "off_root Q"] r [OF _ sz, of "off_second Q"] by (simp add: proc_fields_def)
qed

lemma word_field:
  assumes Q: "Process_layout_ok L Q" and a: "unat proc + unat (proc_size Q) \<le> 2 ^ 32"
    and o1: "o1 \<in> {off_sp Q, off_pid Q}"
  shows "unat (proc + o1) + 4 \<le> 2 ^ 32" "{unat (proc + o1)..<unat (proc + o1) + 4} = field proc (o1, 4)"
proof -
  have "(o1, 4) \<in> set (proc_fields L Q)" using o1 by (auto simp: proc_fields_def)
  note r = field_range [OF Q a this]
  show "unat (proc + o1) + 4 \<le> 2 ^ 32" using r by simp
  show "{unat (proc + o1)..<unat (proc + o1) + 4} = field proc (o1, 4)" using r by (simp add: field_def)
qed

lemma state_unat:
  assumes "Process_layout_ok L Q" "unat proc + unat (proc_size Q) \<le> 2 ^ 32"
  shows "state_field Q proc = {unat (proc + off_state Q)}"
  using field_range(1) [OF assms, of "off_state Q" 1] by (auto simp: proc_fields_def field_def)


section \<open>The first frame\<close>

definition first_sp :: "Process_layout \<Rightarrow> usize \<Rightarrow> usize" where
  "first_sp Q proc = proc + off_stack Q + 1996"

definition stack_top :: "Process_layout \<Rightarrow> usize \<Rightarrow> usize" where
  "stack_top Q proc = proc + off_stack Q + 2048"

lemma first_frame_eq:
  "first_frame Q proc start_pc m =
     (first_sp Q proc, store_words m (first_sp Q proc) (start_pc # replicate 12 0))"
proof -
  have r: "usize_range 1 13 = [1, 2, 3, 4, 5, 6, 7, 8, 9, 10, 11, 12]"
    by (simp add: usize_range_def upt_rec)
  have "replicate 12 (0::usize) = [0, 0, 0, 0, 0, 0, 0, 0, 0, 0, 0, 0]"
    by (simp add: numeral_eq_Suc)
  moreover have "proc + off_stack Q + (PROC_STACK_SIZE - 4) - 12 * 4 = first_sp Q proc"
    by (simp add: PROC_STACK_SIZE_def first_sp_def)
  ultimately show ?thesis
    unfolding first_frame_def Let_def r by (simp add: add.assoc)
qed

lemma first_frame_range:
  assumes "Process_layout_ok L Q" "unat proc + unat (proc_size Q) \<le> 2 ^ 32"
  shows "unat (first_sp Q proc) + 52 \<le> 2 ^ 32" "{unat (first_sp Q proc)..<unat (first_sp Q proc) + 52} \<subseteq> stack_field Q proc"
    "first_sp Q proc + 52 = stack_top Q proc"
proof -
  have m: "(off_stack Q, 2048) \<in> set (proc_fields L Q)" by (simp add: proc_fields_def)
  note r = field_range [OF assms m]
  have u: "unat (first_sp Q proc) = unat proc + unat (off_stack Q) + 1996"
    unfolding first_sp_def using r(1,2) by (subst unat_add_ok) simp_all
  show "unat (first_sp Q proc) + 52 \<le> 2 ^ 32" using u r(1,2) by simp
  show "{unat (first_sp Q proc)..<unat (first_sp Q proc) + 52} \<subseteq> stack_field Q proc" using u by (auto simp: field_def)
  show "first_sp Q proc + 52 = stack_top Q proc" by (simp add: first_sp_def stack_top_def)
qed

text \<open>The memory once the fields of process \<open>i\<close> but the page table are written.\<close>

definition init_fields :: "Process_layout \<Rightarrow> usize \<Rightarrow> usize \<Rightarrow> usize \<Rightarrow> ram \<Rightarrow> ram" where
  "init_fields Q proc i start_pc m =
     (let m = store32 m (proc + off_pid Q) i;
          m = m(proc + off_state Q := 1);
          m = store_words m (first_sp Q proc) (start_pc # replicate 12 0)
      in store32 m (proc + off_sp Q) (first_sp Q proc))"

text \<open>A process that is ready for its first switch.\<close>

definition proc_started :: "Process_layout \<Rightarrow> ram \<Rightarrow> usize \<Rightarrow> usize \<Rightarrow> usize \<Rightarrow> bool" where
  "proc_started Q m proc i start_pc \<longleftrightarrow>
     load32 m (proc + off_pid Q) = i \<and> proc_in_state Q m proc Runnable \<and>
     load32 m (proc + off_sp Q) = first_sp Q proc \<and>
     load_words m (first_sp Q proc) 13 = start_pc # replicate 12 0"

definition head_fields :: "Process_layout \<Rightarrow> usize \<Rightarrow> nat set" where
  "head_fields Q proc = stack_field Q proc \<union> sp_field Q proc \<union> pid_field Q proc \<union> state_field Q proc"

lemma init_fields_on:
  assumes Q: "Process_layout_ok L Q" and a: "unat proc + unat (proc_size Q) \<le> 2 ^ 32"
    and S: "head_fields Q proc \<inter> S = {}"
  shows "unchanged_on S m (init_fields Q proc i start_pc m)"
proof -
  note wp = word_field [OF Q a, of "off_pid Q", simplified] and ws = word_field [OF Q a, of "off_sp Q", simplified]
    and fr = first_frame_range [OF Q a] and su = state_unat [OF Q a]
  let ?m1 = "store32 m (proc + off_pid Q) i"
  let ?m2 = "?m1(proc + off_state Q := 1)"
  let ?m3 = "store_words ?m2 (first_sp Q proc) (start_pc # replicate 12 0)"
  have "unchanged_on S m ?m1" using wp S by (intro store32_on) (auto simp: head_fields_def)
  moreover have "unchanged_on S ?m1 ?m2" using su S by (auto simp: unchanged_on_def head_fields_def)
  moreover have "unchanged_on S ?m2 ?m3"
    using fr S by (intro store_words_on) (auto simp: head_fields_def)
  moreover have "unchanged_on S ?m3 (store32 ?m3 (proc + off_sp Q) (first_sp Q proc))"
    using ws S by (intro store32_on) (auto simp: head_fields_def)
  ultimately show ?thesis unfolding init_fields_def Let_def by (meson unchanged_on_trans)
qed

lemma init_fields_started:
  assumes Q: "Process_layout_ok L Q" and a: "unat proc + unat (proc_size Q) \<le> 2 ^ 32"
  shows "proc_started Q (init_fields Q proc i start_pc m) proc i start_pc"
proof -
  note wp = word_field [OF Q a, of "off_pid Q", simplified] and ws = word_field [OF Q a, of "off_sp Q", simplified]
    and fr = first_frame_range [OF Q a] and su = state_unat [OF Q a] and dj = fields_disjoint [OF Q, of proc]
  let ?fr = "start_pc # replicate 12 0"
  let ?m1 = "store32 m (proc + off_pid Q) i"
  let ?m2 = "?m1(proc + off_state Q := 1)"
  let ?m3 = "store_words ?m2 (first_sp Q proc) ?fr"
  let ?m4 = "store32 ?m3 (proc + off_sp Q) (first_sp Q proc)"
  have e: "init_fields Q proc i start_pc m = ?m4" by (simp only: init_fields_def Let_def)
  have u3: "unchanged_on S ?m2 ?m3" if "stack_field Q proc \<inter> S = {}" for S
    using fr that by (intro store_words_on) auto
  have u4: "unchanged_on S ?m3 ?m4" if "sp_field Q proc \<inter> S = {}" for S
    using ws that by (intro store32_on) auto
  have u34: "unchanged_on S ?m2 ?m4" if "stack_field Q proc \<inter> S = {}" "sp_field Q proc \<inter> S = {}" for S
    using unchanged_on_trans [OF u3 [OF that(1)] u4 [OF that(2)]] .
  have "unchanged_on (pid_field Q proc) ?m1 ?m2" using su dj(8) by (auto simp: unchanged_on_def)
  then have "unchanged_on (pid_field Q proc) ?m1 ?m4"
    using u34 [OF dj(2,5)] by (rule unchanged_on_trans)
  then have "load32 ?m4 (proc + off_pid Q) = load32 ?m1 (proc + off_pid Q)"
    using wp by (intro load32_on) auto
  moreover have "?m4 (proc + off_state Q) = ?m2 (proc + off_state Q)"
    using u34 [OF dj(3,6)] su by (simp add: unchanged_on_def)
  moreover have "load_words ?m4 (first_sp Q proc) 13 = load_words ?m3 (first_sp Q proc) 13"
    using u4 [of "stack_field Q proc"] dj(1) fr by (intro load_words_on [of "stack_field Q proc"]) auto
  moreover have "load_words ?m3 (first_sp Q proc) 13 = ?fr"
    using load_store_words [of "first_sp Q proc" ?fr ?m2] fr(1) by simp
  ultimately show ?thesis unfolding e by (simp add: proc_started_def proc_in_state_def)
qed

text \<open>It depends on these fields only.\<close>

lemma proc_started_on:
  assumes Q: "Process_layout_ok L Q" and a: "unat proc + unat (proc_size Q) \<le> 2 ^ 32"
    and u: "unchanged_on S m m'" "head_fields Q proc \<subseteq> S" and st: "proc_started Q m proc i start_pc"
  shows "proc_started Q m' proc i start_pc"
proof -
  note wp = word_field [OF Q a, of "off_pid Q", simplified] and ws = word_field [OF Q a, of "off_sp Q", simplified]
    and fr = first_frame_range [OF Q a] and su = state_unat [OF Q a]
  have "load32 m' (proc + off_pid Q) = load32 m (proc + off_pid Q)"
    "load32 m' (proc + off_sp Q) = load32 m (proc + off_sp Q)"
    using wp ws u(2) by (auto intro!: load32_on [OF u(1)] simp: head_fields_def)
  moreover have "m' (proc + off_state Q) = m (proc + off_state Q)"
    using u su by (auto simp: unchanged_on_def head_fields_def)
  moreover have "load_words m' (first_sp Q proc) 13 = load_words m (first_sp Q proc) 13"
    using fr u(2) by (intro load_words_on [OF u(1)]) (auto simp: head_fields_def)
  ultimately show ?thesis using st by (simp add: proc_started_def proc_in_state_def)
qed


section \<open>The table in memory\<close>

definition proc_at :: "Process_layout \<Rightarrow> ProcTable \<Rightarrow> usize \<Rightarrow> usize" where
  "proc_at Q t i = fv_ptr (table t) + i * proc_size Q"

definition table_ok :: "Process_layout \<Rightarrow> 'z mem_state_scheme \<Rightarrow> ProcTable \<Rightarrow> bool" where
  "table_ok Q w t \<longleftrightarrow>
     fv_cap (table t) = PROC_MAX \<and>
     (\<exists>k. (unat (fv_ptr (table t)), k) \<in> glive w \<and> 8 * unat (proc_size Q) \<le> 2 ^ k)"

lemma proc_range:
  assumes "gmem_ok w" "table_ok Q w t" "i < PROC_MAX"
  shows "unat (proc_at Q t i) + unat (proc_size Q) \<le> 2 ^ 32" "proc_bytes Q (proc_at Q t i) \<subseteq> live_bytes w"
proof -
  obtain k where k: "(unat (fv_ptr (table t)), k) \<in> glive w" "8 * unat (proc_size Q) \<le> 2 ^ k"
    using assms(2) by (auto simp: table_ok_def)
  have bd: "unat (fv_ptr (table t)) + 2 ^ k \<le> 2 ^ 32" using gbuddy.live_bound [OF assms(1) k(1)] .
  have i: "unat i < unat (8::usize)" using assms(3) by (simp add: PROC_MAX_def word_less_nat_alt)
  have k8: "unat (8::usize) * unat (proc_size Q) \<le> 2 ^ k" using k(2) by simp
  note el = elem_inside [OF i k8 bd]
  show "unat (proc_at Q t i) + unat (proc_size Q) \<le> 2 ^ 32" using el(2) by (simp add: proc_at_def)
  show "proc_bytes Q (proc_at Q t i) \<subseteq> live_bytes w"
    using el(1) k(1) by (auto simp: proc_at_def proc_bytes_def live_bytes_def)
qed

lemma procs_disjoint:
  assumes "gmem_ok w" "table_ok Q w t" "i < PROC_MAX" "j < PROC_MAX" "i \<noteq> j"
  shows "proc_bytes Q (proc_at Q t i) \<inter> proc_bytes Q (proc_at Q t j) = {}"
proof -
  obtain k where k: "(unat (fv_ptr (table t)), k) \<in> glive w" "8 * unat (proc_size Q) \<le> 2 ^ k"
    using assms(2) by (auto simp: table_ok_def)
  have bd: "unat (fv_ptr (table t)) + 2 ^ k \<le> 2 ^ 32" using gbuddy.live_bound [OF assms(1) k(1)] .
  have i: "unat i < unat (8::usize)" "unat j < unat (8::usize)" using assms(3,4) by (simp_all add: PROC_MAX_def word_less_nat_alt)
  have k8: "unat (8::usize) * unat (proc_size Q) \<le> 2 ^ k" using k(2) by simp
  show ?thesis using elems_disjoint [OF i assms(5) k8 bd] by (simp add: proc_at_def proc_bytes_def)
qed

lemma table_index:
  assumes "table_ok Q w t" "i < PROC_MAX"
  shows "FixedVec_index (proc_size Q) (table t) i = Ret (proc_at Q t i)"
    "FixedVec_index_mut (proc_size Q) (table t) i = Ret (proc_at Q t i)"
  using assms by (simp_all add: table_ok_def FixedVec_index_def FixedVec_index_mut_def proc_at_def)

text \<open>The search for a free slot returns the first one, if there is one.\<close>

lemma range_8: "usize_range 0 PROC_MAX = [0, 1, 2, 3, 4, 5, 6, 7]" "usize_range 1 PROC_MAX = [1, 2, 3, 4, 5, 6, 7]"
  by (simp_all add: usize_range_def PROC_MAX_def upt_rec)

lemma range_set: "set (usize_range a b) = {i. a \<le> i \<and> i < b}"
proof -
  have "i \<in> set (usize_range a b)" if "a \<le> i" "i < b" for i
    using that by (auto simp: usize_range_def image_iff word_le_nat_alt word_less_nat_alt intro!: bexI [of _ "unat i"])
  moreover have "a \<le> i \<and> i < b" if el: "i \<in> set (usize_range a b)" for i
  proof -
    obtain n where n: "i = of_nat n" "unat a \<le> n" "n < unat b" using el by (auto simp: usize_range_def)
    then have "unat i = n" using unat_less_32 [of b] by (simp add: unat_of_nat_ok)
    then show ?thesis using n by (simp add: word_le_nat_alt word_less_nat_alt)
  qed
  ultimately show ?thesis by blast
qed

lemma next_unused_find:
  assumes "table_ok Q w t"
  shows "next_unused Q t m =
    Ret (List.find (\<lambda>i. proc_in_state Q m (proc_at Q t i) Unused) (usize_range 0 PROC_MAX))"
proof -
  have "next_unused_in Q t m is = Ret (List.find (\<lambda>i. proc_in_state Q m (proc_at Q t i) Unused) is)"
    if "\<forall>i\<in>set is. i < PROC_MAX" for "is"
    using that by (induction "is") (simp_all add: table_index(1) [OF assms])
  then show ?thesis
    using assms by (simp add: next_unused_def FixedVec_cap_def table_ok_def range_set)
qed

lemma find_first_Some:
  assumes "a \<le> i" "i < b" "P i" "\<And>j. a \<le> j \<Longrightarrow> j < i \<Longrightarrow> \<not> P j"
  shows "List.find P (usize_range a b) = Some i"
proof -
  have split: "[unat a..<unat b] = [unat a..<unat i] @ unat i # [Suc (unat i)..<unat b]"
    using assms(1,2) upt_add_eq_append [of "unat a" "unat i" "unat b - unat i"] upt_conv_Cons [of "unat i" "unat b"]
    by (simp add: word_le_nat_alt word_less_nat_alt)
  have "\<not> P (of_nat n)" if "n \<in> set [unat a..<unat i]" for n
  proof -
    have n: "unat a \<le> n" "n < unat i" using that by auto
    then have "unat (of_nat n :: usize) = n" using unat_less_32 [of i] by (simp add: unat_of_nat_ok)
    then show ?thesis using n by (intro assms(4)) (simp_all add: word_le_nat_alt word_less_nat_alt)
  qed
  then have none: "\<forall>x\<in>set (map of_nat [unat a..<unat i]). \<not> P x" by simp
  have "List.find P (xs @ y # ys) = Some y" if "\<forall>x\<in>set xs. \<not> P x" "P y" for xs y ys
    using that by (induction xs) simp_all
  from this [OF none assms(3)] show ?thesis
    unfolding usize_range_def split by simp
qed


lemma find_least:
  assumes "List.find P (usize_range a b) = Some i" "a \<le> j" "j < i"
  shows "\<not> P j"
proof -
  have ab: "\<And>k. k < unat b - unat a \<Longrightarrow> unat (of_nat (unat a + k) :: usize) = unat a + k"
    using unat_less_32 [of b] by (intro unat_of_nat_ok) linarith
  obtain k where k: "k < unat b - unat a" "i = of_nat (unat a + k)" "\<And>m. m < k \<Longrightarrow> \<not> P (of_nat (unat a + m))"
    using assms(1) by (auto simp: find_Some_iff usize_range_def)
  have ui: "unat i = unat a + k" using ab [OF k(1)] k(2) by simp
  let ?m = "unat j - unat a"
  have m: "?m < k" "unat a + ?m = unat j" using assms(2,3) ui by (auto simp: word_le_nat_alt word_less_nat_alt)
  then show ?thesis using k(3) [OF m(1)] unfolding m(2) by simp
qed

end
