(* ===== verification/Proc_Space.thy ===== *)
theory Proc_Space
  imports Proc_Create
begin

text \<open>
  \<open>create_process\<close>, the page table: the assignment of a fresh table to the process, the identity
  mapping of the kernel, and the whole function.
\<close>

definition nil_vec :: FixedVec where
  "nil_vec = \<lparr>fv_ptr = 0, fv_cap = 0, fv_addr = PhysAddr 0 None\<rparr>"

definition nil_table :: PageTable where
  "nil_table = \<lparr>root_pt = nil_vec, second_pts = nil_vec\<rparr>"

lemma table_field_range:
  assumes L: "fv_layout_ok L" and Q: "Process_layout_ok L Q" and a: "unat proc + unat (proc_size Q) \<le> 2 ^ 32"
    and o1: "o1 \<in> {off_root Q, off_second Q}"
  shows "unat (proc + o1) + unat (fv_size L) \<le> 2 ^ 32"
    "{unat (proc + o1)..<unat (proc + o1) + unat (fv_size L)} = field proc (o1, unat (fv_size L))"
proof -
  have "(o1, unat (fv_size L)) \<in> set (proc_fields L Q)" using o1 by (auto simp: proc_fields_def)
  note r = field_range [OF Q a this fv_size_pos [OF L]]
  show "unat (proc + o1) + unat (fv_size L) \<le> 2 ^ 32" using r by simp
  show "{unat (proc + o1)..<unat (proc + o1) + unat (fv_size L)} = field proc (o1, unat (fv_size L))"
    using r by (simp add: field_def)
qed

lemma zeroed_page_table:
  assumes L: "fv_layout_ok L" and Q: "Process_layout_ok L Q" and a: "unat proc + unat (proc_size Q) \<le> 2 ^ 32"
    and z: "\<And>x. unat x \<in> table_fields L Q proc \<Longrightarrow> m x = 0"
  shows "load_page_table L Q m proc = nil_table"
proof -
  have "load_fv L m (proc + o1) = nil_vec" if o1: "o1 \<in> {off_root Q, off_second Q}" for o1
    unfolding nil_vec_def
  proof (rule load_fv_zero [OF L table_field_range(1) [OF L Q a o1]])
    fix x :: usize assume "unat (proc + o1) \<le> unat x" "unat x < unat (proc + o1) + unat (fv_size L)"
    then have "unat x \<in> field proc (o1, unat (fv_size L))"
      unfolding table_field_range(2) [OF L Q a o1, symmetric] by simp
    then have "unat x \<in> table_fields L Q proc" using o1 by blast
    then show "m x = 0" by (rule z)
  qed
  from this [of "off_root Q"] this [of "off_second Q"] show ?thesis
    by (simp add: load_page_table_def nil_table_def)
qed

lemma store_page_table_on:
  assumes L: "fv_layout_ok L" and Q: "Process_layout_ok L Q" and a: "unat proc + unat (proc_size Q) \<le> 2 ^ 32"
    and S: "table_fields L Q proc \<inter> S = {}"
  shows "unchanged_on S m (store_page_table L Q m proc pt)"
proof -
  have w: "unchanged_on S m' (store_fv L m' (proc + o1) v)" if "o1 \<in> {off_root Q, off_second Q}" for o1 m' v
    using table_field_range [OF L Q a that] S that by (intro store_fv_on [OF L]) auto
  show ?thesis unfolding store_page_table_def using unchanged_on_trans [OF w w] by simp
qed

lemma load_store_page_table:
  assumes L: "fv_layout_ok L" and Q: "Process_layout_ok L Q" and a: "unat proc + unat (proc_size Q) \<le> 2 ^ 32"
  shows "load_page_table L Q (store_page_table L Q m proc pt) proc = pt"
proof -
  note r = table_field_range [OF L Q a, of "off_root Q", simplified] table_field_range [OF L Q a, of "off_second Q", simplified]
  let ?m = "store_fv L m (proc + off_root Q) (root_pt pt)"
  have "unchanged_on (field proc (off_root Q, unat (fv_size L))) ?m (store_fv L ?m (proc + off_second Q) (second_pts pt))"
    using r fields_disjoint(11) [OF Q, of proc] by (intro store_fv_on [OF L]) auto
  then have "load_fv L (store_fv L ?m (proc + off_second Q) (second_pts pt)) (proc + off_root Q) = load_fv L ?m (proc + off_root Q)"
    using r by (intro load_fv_on [OF L]) auto
  then show ?thesis using r by (simp add: load_page_table_def store_page_table_def load_store_fv [OF L])
qed

text \<open>Dropping a table that owns nothing does nothing.\<close>

lemma drop_nil_table:
  assumes "gmem_ok w"
  shows "PageTable_drop p L nil_table w = Ret w"
  using gbuddy.free_unsized [OF assms, of p 0]
  by (simp add: PageTable_drop_def FixedVec_drop_def nil_table_def nil_vec_def phree_def)

lemma PageTable_new_room:
  assumes L: "fv_layout_ok L" and w: "kmem_ok w" and rm: "room w (2 + r)"
  shows "\<exists>pt w'. PageTable_new p L w = Ret (pt, w') \<and> room w' r"
proof -
  have "unat (fv_size L) \<le> 32" using L unfolding fv_layout_ok_def word_le_nat_alt by simp
  then have sz: "fv_size L \<noteq> 0" "unat (1024::usize) * unat (fv_size L) \<le> 2 ^ 15"
    using fv_size_pos [OF L] by auto
  have rm': "room w (Suc (Suc r))" using rm by simp
  obtain a k w1 where r1: "FixedVec_new p 4 1024 w = Ret (\<lparr>fv_ptr = a, fv_cap = 1024, fv_addr = PhysAddr a (Some (2 ^ k))\<rparr>, w1)"
      "kmem_ok w1" "room w1 (Suc r)"
    using FixedVec_new_room [OF w _ _ _ rm', of 4 1024 p] unfolding new_block_def by fastforce
  obtain a' k' w2 where "FixedVec_new p (fv_size L) 1024 w1 = Ret (\<lparr>fv_ptr = a', fv_cap = 1024, fv_addr = PhysAddr a' (Some (2 ^ k'))\<rparr>, w2)"
      "room w2 r"
    using FixedVec_new_room [OF r1(2) sz(1) _ sz(2) r1(3), of p] by auto
  with r1 show ?thesis by (simp add: PageTable_new_def)
qed

lemma new_page_table_ok:
  assumes L: "fv_layout_ok L" and Q: "Process_layout_ok L Q" and w: "kmem_ok w" and cap: "32768 \<le> gcapacity w"
    and a: "unat proc + unat (proc_size Q) \<le> 2 ^ 32" and live: "proc_bytes Q proc \<subseteq> live_bytes w"
    and nil: "load_page_table L Q (mram w) proc = nil_table"
  shows "new_page_table p L Q proc w = Panic UnwrapNone \<and> \<not> room w 2 \<or>
    (\<exists>pt k w'. new_page_table p L Q proc w = Ret w' \<and> kmem_ok w' \<and> load_page_table L Q (mram w') proc = pt \<and>
       pt_ok L w' pt k \<and> (\<forall>va. vm_lookup w' pt va = None) \<and> pt_bytes L w' pt k \<inter> live_bytes w = {} \<and>
       glive w \<subseteq> glive w' \<and> gregion w' = gregion w \<and> gcapacity w' = gcapacity w \<and>
       mem_state.more w' = mem_state.more w \<and> unchanged_on (- table_fields L Q proc) (mram w) (mram w') \<and>
       (\<forall>r. room w (2 + r) \<longrightarrow> room w' r))"
  using PageTable_new_cases [OF L w cap, of p]
proof (elim disjE exE conjE)
  assume "PageTable_new p L w = Panic UnwrapNone"
  moreover have "\<not> room w 2" using PageTable_new_room [OF L w, of 0 p] calculation by auto
  ultimately show ?thesis by (simp add: new_page_table_def)
next
  fix pt w1 k
  assume r: "PageTable_new p L w = Ret (pt, w1)" and w1: "kmem_ok w1" and ok: "pt_ok L w1 pt k"
    and lk: "\<forall>va. vm_lookup w1 pt va = None" and same: "mram w1 = mram w" "glive w \<subseteq> glive w1"
      "gregion w1 = gregion w" "gcapacity w1 = gcapacity w" "mem_state.more w1 = mem_state.more w"
    and ap: "pt_bytes L w1 pt k \<inter> live_bytes w = {}"
  let ?m = "store_page_table L Q (mram w1) proc pt"
  let ?w = "w1\<lparr>mram := ?m\<rparr>"
  have g: "gmem_ok w1" "zero_free w1" using w1 by (auto simp: kmem_ok_def)
  have ret: "new_page_table p L Q proc w = Ret ?w"
    using drop_nil_table [OF g(1), of p L] nil same(1) by (simp add: new_page_table_def r)
  have sub: "table_fields L Q proc \<subseteq> proc_bytes Q proc" by (rule fields_sub(5) [OF L Q a])
  have on: "unchanged_on S (mram w1) ?m" if "table_fields L Q proc \<inter> S = {}" for S
    using that by (rule store_page_table_on [OF L Q a])
  have lw: "live_bytes w \<subseteq> live_bytes w1" using same(2) by (auto simp: live_bytes_def)
  have "pt_tables pt k \<subseteq> pt_bytes L w1 pt k" by (auto simp: pt_bytes_def)
  then have u: "unchanged_on (pt_tables pt k) (mram w1) (mram ?w)"
    using sub live ap by (simp, intro on) blast
  note ok' = pt_ok_unchanged [OF L g(1) ok u, simplified]
  have "unchanged_on (- live_bytes w1) (mram w1) ?m" using sub live lw by (intro on) blast
  then have k': "kmem_ok ?w" using zero_free_update [OF g(2)] g(1) by (simp add: kmem_ok_def)
  have "unchanged_on (pt_bytes L w1 pt k) (mram w1) (mram ?w)" using sub live ap by (simp, intro on) blast
  then have lk': "vm_lookup ?w pt va = None" for va
    using lookup_unchanged [OF L g(1) _ ok, of ?w va] lk g(1) by simp
  have "unchanged_on (- table_fields L Q proc) (mram w) ?m" using on same(1) by (metis Compl_disjoint)
  moreover have "room ?w r" if "room w (2 + r)" for r
    using PageTable_new_room [OF L w that, of p] r by (simp add: room_def)
  moreover have "load_page_table L Q (mram ?w) proc = pt" using load_store_page_table [OF L Q a] by simp
  ultimately show ?thesis using ret k' ok' lk' same ap by (intro disjI2 exI [of _ pt] exI [of _ k] exI [of _ ?w]) simp
qed


section \<open>The whole function\<close>

text \<open>The entries of the root table that the kernel's range of addresses needs.\<close>

definition roots :: "usize \<Rightarrow> usize \<Rightarrow> nat" where
  "roots base end_addr = card {i. i < 1024 \<and> (\<exists>va. base \<le> va \<and> va < end_addr \<and> vpn1 va = i)}"

lemma roots_le: "roots base end_addr \<le> unat end_addr div 2 ^ 22 - unat base div 2 ^ 22 + 1"
proof -
  have v: "unat (vpn1 va) = unat va div 2 ^ 22" for va
  proof -
    have "unat va div 2 ^ 22 < 2 ^ 10" using unat_less_32 [of va] by (simp add: div_less_iff_less_mult)
    then have "take_bit 10 (unat va div 2 ^ 22) = unat va div 2 ^ 22" by (rule take_bit_nat_eq_self)
    moreover have "unat (drop_bit 22 va) = unat va div 2 ^ 22" by (simp add: drop_bit_eq_div unat_div)
    ultimately show ?thesis by (simp add: vpn1_def vpn_take_bit unsigned_take_bit_eq)
  qed
  have "{i. i < 1024 \<and> (\<exists>va. base \<le> va \<and> va < end_addr \<and> vpn1 va = i)} \<subseteq>
      of_nat ` {unat base div 2 ^ 22..unat end_addr div 2 ^ 22}"
  proof (clarsimp)
    fix va assume "base \<le> va" "va < end_addr"
    then have "unat base div 2 ^ 22 \<le> unat (vpn1 va)" "unat (vpn1 va) \<le> unat end_addr div 2 ^ 22"
      unfolding v by (auto simp: word_le_nat_alt word_less_nat_alt intro!: div_le_mono)
    then show "vpn1 va \<in> word_of_nat ` {unat base div 4194304..unat end_addr div 4194304}"
      by (intro image_eqI [of _ _ "unat (vpn1 va)"]) simp_all
  qed
  then have "roots base end_addr \<le> card (of_nat ` {unat base div 2 ^ 22..unat end_addr div 2 ^ 22} :: usize set)"
    unfolding roots_def by (intro card_mono) simp_all
  also have "\<dots> \<le> card {unat base div 2 ^ 22..unat end_addr div 2 ^ 22}" by (rule card_image_le) simp
  also have "\<dots> \<le> unat end_addr div 2 ^ 22 - unat base div 2 ^ 22 + 1" unfolding card_atLeastAtMost by linarith
  finally show ?thesis .
qed

text \<open>The address space of a process: the kernel's pages, mapped to themselves, and nothing else.\<close>

definition proc_space :: "fv_layout \<Rightarrow> Process_layout \<Rightarrow> usize \<Rightarrow> usize \<Rightarrow> 'z mem_state_scheme \<Rightarrow> usize \<Rightarrow> nat \<Rightarrow> bool" where
  "proc_space L Q base end_addr w proc k \<longleftrightarrow>
     pt_ok L w (load_page_table L Q (mram w) proc) k \<and>
     (\<forall>va. vm_lookup w (load_page_table L Q (mram w) proc) va =
        (if base \<le> va \<and> va < end_addr then Some (page_of va, 0xF) else None))"

definition space_bytes :: "fv_layout \<Rightarrow> Process_layout \<Rightarrow> 'z mem_state_scheme \<Rightarrow> usize \<Rightarrow> nat \<Rightarrow> nat set" where
  "space_bytes L Q w proc k = pt_bytes L w (load_page_table L Q (mram w) proc) k"

text \<open>What an allocation step of the kernel keeps.\<close>

definition grows :: "'z mem_state_scheme \<Rightarrow> 'z mem_state_scheme \<Rightarrow> bool" where
  "grows w w' \<longleftrightarrow>
     kmem_ok w' \<and> glive w \<subseteq> glive w' \<and> gregion w' = gregion w \<and> gcapacity w' = gcapacity w \<and>
     mem_state.more w' = mem_state.more w"

lemma map_space:
  fixes p :: profile
  assumes L: "fv_layout_ok L" and Q: "Process_layout_ok L Q" and w: "kmem_ok w" and cap: "32768 \<le> gcapacity w"
    and a: "unat proc + unat (proc_size Q) \<le> 2 ^ 32" and live: "proc_bytes Q proc \<subseteq> live_bytes w"
    and nil: "load_page_table L Q (mram w) proc = nil_table"
    and al: "4096 dvd unat base" "4096 dvd unat end_addr" "base \<le> end_addr"
  defines "f \<equiv> obind (new_page_table p L Q proc w) (\<lambda>w. loop (map_body p L Q proc end_addr) (base, w))"
  shows "f = Panic UnwrapNone \<and> \<not> room w (2 + roots base end_addr) \<or>
    (\<exists>w' k. f = Ret w' \<and> grows w w' \<and> proc_space L Q base end_addr w' proc k \<and>
       space_bytes L Q w' proc k \<inter> live_bytes w = {} \<and>
       unchanged_on (live_bytes w - table_fields L Q proc) (mram w) (mram w') \<and>
       (\<forall>r. room w (2 + roots base end_addr + r) \<longrightarrow> room w' r))"
  using new_page_table_ok [OF L Q w cap a live nil, of p]
proof (elim disjE exE conjE)
  assume "new_page_table p L Q proc w = Panic UnwrapNone" "\<not> room w 2"
  then show ?thesis using room_mono [of w "2 + roots base end_addr" 2] by (auto simp: f_def)
next
  fix pt k w1
  assume r: "new_page_table p L Q proc w = Ret w1" and w1: "kmem_ok w1" and pt: "load_page_table L Q (mram w1) proc = pt"
    and ok: "pt_ok L w1 pt k" and lk: "\<forall>va. vm_lookup w1 pt va = None" and ap: "pt_bytes L w1 pt k \<inter> live_bytes w = {}"
    and same: "glive w \<subseteq> glive w1" "gregion w1 = gregion w" "gcapacity w1 = gcapacity w" "mem_state.more w1 = mem_state.more w"
    and on: "unchanged_on (- table_fields L Q proc) (mram w) (mram w1)" and rm: "\<forall>r. room w (2 + r) \<longrightarrow> room w1 r"
  have lw: "live_bytes w \<subseteq> live_bytes w1" using same(1) by (auto simp: live_bytes_def)
  have pb: "proc_bytes Q proc \<subseteq> live_bytes w1 - pt_bytes L w1 pt k" using live lw ap by blast
  have cap': "4096 \<le> gcapacity w1" using cap same(3) by simp
  have "card (missing w1 pt base end_addr) \<le> roots base end_addr"
    unfolding roots_def missing_def by (intro card_mono) auto
  then have rm': "room w1 (card (missing w1 pt base end_addr) + x)" if "room w (2 + roots base end_addr + x)" for x
    using rm that room_mono [of w1 "roots base end_addr + x"] by (simp add: add.assoc)
  from map_loop [OF L Q a w1 ok cap' pt pb al, of p] show ?thesis
  proof (elim disjE exE conjE)
    assume "loop (map_body p L Q proc end_addr) (base, w1) = Panic UnwrapNone" "\<not> room w1 (card (missing w1 pt base end_addr))"
    then show ?thesis using r rm' [of 0] by (auto simp: f_def)
  next
    fix w'
    assume r': "loop (map_body p L Q proc end_addr) (base, w1) = Ret w'" and st: "pt_step L pt k w1 w'"
      and lk': "\<forall>va. vm_lookup w' pt va =
          (if base \<le> va \<and> va < end_addr then Some (page_of va, 0xF) else vm_lookup w1 pt va)"
      and rml: "\<forall>r. room w1 (card (missing w1 pt base end_addr) + r) \<longrightarrow> room w' r"
    have u: "unchanged_on (live_bytes w1 - pt_bytes L w1 pt k) (mram w1) (mram w')" using st by (simp add: pt_step_def)
    have pt': "load_page_table L Q (mram w') proc = pt"
      using load_page_table_on [OF L Q a u order.trans [OF fields_sub(5) [OF L Q a] pb]] pt by simp
    have u': "unchanged_on (live_bytes w - table_fields L Q proc) (mram w1) (mram w')"
      using u by (rule unchanged_on_mono) (use lw ap in blast)
    have "unchanged_on (live_bytes w - table_fields L Q proc) (mram w) (mram w1)"
      using on by (rule unchanged_on_mono) blast
    from this u' have "unchanged_on (live_bytes w - table_fields L Q proc) (mram w) (mram w')"
      by (rule unchanged_on_trans)
    moreover have "space_bytes L Q w' proc k \<inter> live_bytes w = {}"
      using st lw ap unfolding space_bytes_def pt' pt_step_def by blast
    moreover have "grows w w'" using st same by (auto simp: grows_def pt_step_def)
    moreover have "proc_space L Q base end_addr w' proc k" using st lk lk' by (simp add: proc_space_def pt' pt_step_def)
    moreover have "f = Ret w'" using r r' by (simp add: f_def)
    ultimately show ?thesis using rm' rml by blast
  qed
qed

text \<open>The first free slot.\<close>

definition free_slot :: "Process_layout \<Rightarrow> ProcTable \<Rightarrow> ram \<Rightarrow> usize \<Rightarrow> bool" where
  "free_slot Q t m i \<longleftrightarrow> i < PROC_MAX \<and> proc_in_state Q m (proc_at Q t i) Unused \<and>
     (\<forall>j<i. \<not> proc_in_state Q m (proc_at Q t j) Unused)"

lemma next_unused_free:
  assumes "table_ok Q w t" "free_slot Q t m i"
  shows "next_unused Q t m = Ret (Some i)"
  unfolding next_unused_find [OF assms(1)] using assms(2)
  by (simp, intro find_first_Some) (auto simp: free_slot_def)

lemma next_unused_full:
  assumes "table_ok Q w t" "\<And>i. i < PROC_MAX \<Longrightarrow> \<not> proc_in_state Q m (proc_at Q t i) Unused"
  shows "next_unused Q t m = Ret None"
  unfolding next_unused_find [OF assms(1)] using assms(2) by (simp add: find_None_iff range_set)

lemma create_process_ok:
  fixes p :: profile and start_pc :: usize
  assumes L: "fv_layout_ok L" and Q: "Process_layout_ok L Q" and w: "kmem_ok w" and cap: "32768 \<le> gcapacity w"
    and t: "table_ok Q w t" and i: "free_slot Q t (mram w) i"
    and nil: "load_page_table L Q (mram w) (proc_at Q t i) = nil_table"
    and al: "4096 dvd unat base" "4096 dvd unat end_addr" "base \<le> end_addr"
  defines "proc \<equiv> proc_at Q t i"
  defines "f \<equiv> create_process p L Q base end_addr t start_pc w"
  shows "f = Panic UnwrapNone \<and> \<not> room w (2 + roots base end_addr) \<or>
    (\<exists>w' k. f = Ret (i, w') \<and> grows w w' \<and> proc_started Q (mram w') proc i start_pc \<and>
       proc_space L Q base end_addr w' proc k \<and> space_bytes L Q w' proc k \<inter> live_bytes w = {} \<and>
       unchanged_on (live_bytes w - proc_bytes Q proc) (mram w) (mram w') \<and>
       (\<forall>r. room w (2 + roots base end_addr + r) \<longrightarrow> room w' r))"
proof -
  have g: "gmem_ok w" "zero_free w" using w by (auto simp: kmem_ok_def)
  have i8: "i < PROC_MAX" using i by (simp add: free_slot_def)
  note pr = proc_range [OF g(1) t i8, folded proc_def]
  note fs = fields_sub [OF L Q pr(1)] and dj = fields_disjoint [OF Q, of proc]
  let ?m = "init_fields Q proc i start_pc (mram w)"
  let ?w = "w\<lparr>mram := ?m\<rparr>"
  have hd: "head_fields Q proc \<subseteq> proc_bytes Q proc" using fs by (auto simp: head_fields_def)
  have ht: "head_fields Q proc \<inter> table_fields L Q proc = {}" using dj by (auto simp: head_fields_def)
  note on = init_fields_on [OF Q pr(1), where m = "mram w" and i = i and start_pc = start_pc]
  have "unchanged_on (- live_bytes w) (mram w) ?m" using hd pr(2) by (intro on) blast
  then have w1: "kmem_ok ?w" using zero_free_update [OF g(2)] g(1) by (simp add: kmem_ok_def)
  have lb: "live_bytes ?w = live_bytes w" by (simp add: live_bytes_def)
  have "load_page_table L Q ?m proc = load_page_table L Q (mram w) proc"
    using load_page_table_on [OF L Q pr(1) on order.refl] ht by blast
  then have nil': "load_page_table L Q (mram ?w) proc = nil_table" using nil by (simp add: proc_def)
  have cap': "32768 \<le> gcapacity ?w" using cap by simp
  have rm: "room ?w n = room w n" for n by (simp add: room_def)
  let ?f = "obind (new_page_table p L Q proc ?w) (\<lambda>w. loop (map_body p L Q proc end_addr) (base, w))"
  have f: "f = obind ?f (\<lambda>w. Ret (i, w))"
    unfolding f_def create_process_def next_unused_free [OF t i]
    by (simp add: table_index [OF t i8] proc_def first_frame_eq init_fields_def sp_as_mut_ptr_def Let_def obind_assoc)
  from map_space [OF L Q w1 cap' pr(1) pr(2) [folded lb] nil' al, of p] show ?thesis
  proof (elim disjE exE conjE)
    fix w' k
    assume r: "?f = Ret w'" and gr: "grows ?w w'" and sp: "proc_space L Q base end_addr w' proc k"
      and ap: "space_bytes L Q w' proc k \<inter> live_bytes ?w = {}"
      and un: "unchanged_on (live_bytes ?w - table_fields L Q proc) (mram ?w) (mram w')"
      and rml: "\<forall>r. room ?w (2 + roots base end_addr + r) \<longrightarrow> room w' r"
    have st: "proc_started Q (mram ?w) proc i start_pc" using init_fields_started [OF Q pr(1)] by simp
    have "proc_started Q (mram w') proc i start_pc"
      using proc_started_on [OF Q pr(1) un _ st] hd ht pr(2) lb by blast
    moreover have "unchanged_on (live_bytes w - proc_bytes Q proc) (mram w) ?m" using hd by (intro on) blast
    moreover have "unchanged_on (live_bytes w - proc_bytes Q proc) ?m (mram w')"
      using un unfolding lb by (simp, elim unchanged_on_mono) (use fs(5) in blast)
    moreover have "grows w w'" using gr by (simp add: grows_def)
    ultimately show ?thesis using f r sp ap rml unfolding rm lb by (auto intro: unchanged_on_trans)
  qed (simp add: f rm)
qed

end
