(* ===== verification/Proc_Sched.thy ===== *)
theory Proc_Sched
  imports Proc_Space
begin

text \<open>
  The scheduler: \<open>give_up\<close> picks the first other runnable process, makes its address space and trap
  stack current, releases the lock and switches contexts. The abstract scheduler is a function of
  the set of runnable processes and the current one.
\<close>

section \<open>Which process runs next\<close>

definition pick :: "(usize \<Rightarrow> bool) \<Rightarrow> usize \<Rightarrow> usize" where
  "pick runnable cur =
     (case List.find (\<lambda>i. runnable i \<and> i \<noteq> cur) (usize_range 1 PROC_MAX) of Some i \<Rightarrow> i | None \<Rightarrow> 0)"

lemma pick_first:
  assumes "1 \<le> i" "i < PROC_MAX" "runnable i" "i \<noteq> cur" "\<And>j. 1 \<le> j \<Longrightarrow> j < i \<Longrightarrow> runnable j \<Longrightarrow> j = cur"
  shows "pick runnable cur = i"
  using find_first_Some [of 1 i PROC_MAX "\<lambda>i. runnable i \<and> i \<noteq> cur"] assms by (auto simp: pick_def)

lemma pick_none:
  assumes "\<And>i. 1 \<le> i \<Longrightarrow> i < PROC_MAX \<Longrightarrow> runnable i \<Longrightarrow> i = cur"
  shows "pick runnable cur = 0"
proof -
  have "List.find (\<lambda>i. runnable i \<and> i \<noteq> cur) (usize_range 1 PROC_MAX) = None"
    using assms by (auto simp: find_None_iff range_set)
  then show ?thesis by (simp add: pick_def)
qed

lemma pick_cases:
  "pick runnable cur = 0 \<and> (\<forall>i. 1 \<le> i \<longrightarrow> i < PROC_MAX \<longrightarrow> runnable i \<longrightarrow> i = cur) \<or>
   1 \<le> pick runnable cur \<and> pick runnable cur < PROC_MAX \<and> runnable (pick runnable cur) \<and> pick runnable cur \<noteq> cur"
proof (cases "List.find (\<lambda>i. runnable i \<and> i \<noteq> cur) (usize_range 1 PROC_MAX)")
  case None
  then have "pick runnable cur = 0" by (simp add: pick_def)
  moreover have "\<forall>i. 1 \<le> i \<longrightarrow> i < PROC_MAX \<longrightarrow> runnable i \<longrightarrow> i = cur"
    using None by (auto simp: find_None_iff range_set)
  ultimately show ?thesis by blast
next
  case (Some i)
  then have "i \<in> set (usize_range 1 PROC_MAX)" "runnable i" "i \<noteq> cur"
    by (auto simp: find_Some_iff)
  then show ?thesis using Some by (auto simp: pick_def range_set)
qed

lemma pick_least: "1 \<le> j \<Longrightarrow> j < pick runnable cur \<Longrightarrow> runnable j \<Longrightarrow> j = cur"
  using find_least [of "\<lambda>i. runnable i \<and> i \<noteq> cur" 1 PROC_MAX "pick runnable cur" j]
  by (cases "List.find (\<lambda>i. runnable i \<and> i \<noteq> cur) (usize_range 1 PROC_MAX)") (auto simp: pick_def)

lemma pick_less: "pick runnable cur < PROC_MAX"
  using pick_cases [of runnable cur] by (auto simp: PROC_MAX_def)

text \<open>With processes 1 and 2 runnable they alternate, whatever else is runnable.\<close>

lemma pick_two:
  assumes "runnable 1" "runnable 2"
  shows "pick runnable cur = (if cur = 1 then 2 else 1)"
proof (cases "cur = 1")
  case True
  have "j = cur" if "1 \<le> j" "j < 2" for j :: usize
    using that True by (simp add: word_le_nat_alt word_less_nat_alt word_unat_eq_iff)
  then have "pick runnable cur = 2" using assms True by (intro pick_first) (simp_all add: PROC_MAX_def)
  then show ?thesis using True by simp
next
  case False
  have "j = cur" if "1 \<le> j" "j < 1" for j :: usize using that by simp
  then have "pick runnable cur = 1" using assms False by (intro pick_first) (simp_all add: PROC_MAX_def)
  then show ?thesis using False by simp
qed


section \<open>What \<open>give_up\<close> does\<close>

definition runnable :: "Process_layout \<Rightarrow> ProcTable \<Rightarrow> ram \<Rightarrow> usize \<Rightarrow> bool" where
  "runnable Q t m i \<longleftrightarrow> proc_in_state Q m (proc_at Q t i) Runnable"

lemma find_runnable_pick:
  assumes "table_ok Q w t"
  shows "find_runnable Q t m (usize_range 1 (FixedVec_cap (table t))) = Ret (pick (runnable Q t m) (curr_proc_idx t))"
proof -
  have "find_runnable Q t m is =
      Ret (case List.find (\<lambda>i. runnable Q t m i \<and> i \<noteq> curr_proc_idx t) is of Some i \<Rightarrow> i | None \<Rightarrow> 0)"
    if "\<forall>i\<in>set is. i < PROC_MAX" for "is"
    using that by (induction "is") (simp_all add: table_index(1) [OF assms] runnable_def)
  then show ?thesis
    using assms by (simp add: pick_def FixedVec_cap_def table_ok_def range_set)
qed

text \<open>The global table holds \<open>t\<close> and nobody has the lock.\<close>

definition procs_are :: "'z proc_state_scheme \<Rightarrow> ProcTable \<Rightarrow> bool" where
  "procs_are w t \<longleftrightarrow> completed (PROC_TABLE w) \<lparr>lock = 0, data = t\<rparr>"

definition set_procs :: "ProcTable \<Rightarrow> 'z proc_state_scheme \<Rightarrow> 'z proc_state_scheme" where
  "set_procs t w = w\<lparr>PROC_TABLE := OnceCell_store (PROC_TABLE w) \<lparr>lock = 0, data = t\<rparr>\<rparr>"

lemma procs_are_set [simp]: "procs_are w t \<Longrightarrow> procs_are (set_procs t' w) t'"
  by (simp add: procs_are_def set_procs_def completed_store)

lemma set_procs_same: "procs_are w t \<Longrightarrow> set_procs t w = w"
  by (simp add: set_procs_def OnceCell_store_def procs_are_def completed_def)

definition satp_of :: "fv_layout \<Rightarrow> Process_layout \<Rightarrow> ram \<Rightarrow> usize \<Rightarrow> usize" where
  "satp_of L Q m proc = SATP_SV32 OR root_pt_addr (load_page_table L Q m proc) div 4096"

text \<open>The processor when \<open>switch_context\<close> is called: the address space and the trap stack are set.\<close>

definition entering :: "fv_layout \<Rightarrow> Process_layout \<Rightarrow> usize \<Rightarrow> machine \<Rightarrow> machine" where
  "entering L Q proc s =
     s\<lparr>regs := (regs s)(A0 := satp_of L Q (mem s) proc, A1 := stack_top Q proc),
       csrs := (csrs s)(SATP := satp_of L Q (mem s) proc, SSCRATCH := stack_top Q proc)\<rparr>"

lemma give_up_eq:
  assumes t: "procs_are w t" "table_ok Q w t" "curr_proc_idx t < PROC_MAX"
  defines "n \<equiv> pick (runnable Q t (mram w)) (curr_proc_idx t)"
  defines "prev \<equiv> proc_at Q t (curr_proc_idx t)" and "nxt \<equiv> proc_at Q t n"
  shows "give_up p L Q w =
    obind (switch_context (prev + off_sp Q) (nxt + off_sp Q) (entering L Q nxt (machine_of w)))
      (\<lambda>s. Ret (set_machine s (set_procs (t\<lparr>curr_proc_idx := n\<rparr>) w)))"
proof -
  have n: "n < PROC_MAX" unfolding n_def by (rule pick_less)
  have get: "proc_get p Q w = Ret (\<lparr>lock = 0, data = t\<rparr>, PROC_TABLE w, w)"
    using t(1) by (simp add: proc_get_def procs_are_def get_or_init_completed)
  have lk: "Mutex_lock \<lparr>lock = 0, data = t\<rparr> = Ret \<lparr>lock = 1, data = t\<rparr>"
    by (subst Mutex_lock_free) simp_all
  have top: "nxt + (off_stack Q + PROC_STACK_SIZE) = stack_top Q nxt"
    by (simp add: stack_top_def PROC_STACK_SIZE_def)
  have sp: "switch_space satp top s =
      Ret (s\<lparr>regs := (regs s)(A0 := satp, A1 := top), csrs := (csrs s)(SATP := satp, SSCRATCH := top)\<rparr>)" for satp top s
    by (simp add: switch_space_def set_reg_def set_csr_def)
  show ?thesis
    unfolding give_up_def
    by (simp add: get lk find_runnable_pick [OF t(2)] n_def [symmetric] get_proc_def table_index(2) [OF t(2,3)]
        table_index(2) [OF t(2) n] u_div_ok PAGE_SIZE_def sp top prev_def [symmetric] nxt_def [symmetric]
        sp_as_mut_ptr_def guard_simps Let_def entering_def satp_of_def machine_of_def set_procs_def)
qed

lemma give_up_state:
  assumes t: "procs_are w t" "table_ok Q w t" "curr_proc_idx t < PROC_MAX"
  defines "n \<equiv> pick (runnable Q t (mram w)) (curr_proc_idx t)"
  defines "nxt \<equiv> proc_at Q t n"
  shows "\<exists>w'. give_up p L Q w = Ret w' \<and> procs_are w' (t\<lparr>curr_proc_idx := n\<rparr>) \<and>
    cpu_csrs w' SATP = satp_of L Q (mram w) nxt \<and> cpu_csrs w' SSCRATCH = stack_top Q nxt \<and>
    (\<forall>c. c \<notin> {SATP, SSCRATCH} \<longrightarrow> cpu_csrs w' c = cpu_csrs w c) \<and>
    MEMORY w' = MEMORY w \<and> proc_state.more w' = proc_state.more w"
  unfolding give_up_eq [OF t, folded n_def, folded nxt_def] switch_context_eq Let_def
  using procs_are_set [OF t(1), of "t\<lparr>curr_proc_idx := n\<rparr>"]
  by (auto simp: set_machine_def procs_are_def set_procs_def entering_def machine_of_def)


section \<open>Memory and control after the switch\<close>

lemma switch_keeps:
  assumes "switch_context prev_sp next_sp s = Ret s'"
  shows "mem s' = saved prev_sp s" "csrs s' = csrs s"
  using assms by (auto simp: switch_context_eq Let_def)

lemma sp_cell:
  assumes "Process_layout_ok L Q" "unat proc + unat (proc_size Q) \<le> 2 ^ 32"
  shows "cell_bytes (proc + off_sp Q) = sp_field Q proc" "unat (proc + off_sp Q) + 4 \<le> 2 ^ 32"
  using word_field [OF assms, of "off_sp Q"] by (simp_all add: cell_bytes_def)

text \<open>
  The stack pointer of the process that gives up: there is room for a frame below it, and the frame
  does not run into the cell where the stack pointer is stored.
\<close>

definition stack_ok :: "Process_layout \<Rightarrow> ProcTable \<Rightarrow> 'z proc_state_scheme \<Rightarrow> bool" where
  "stack_ok Q t w \<longleftrightarrow> switchable (cpu_regs w SP) (proc_at Q t (curr_proc_idx t) + off_sp Q)"

definition switch_bytes :: "Process_layout \<Rightarrow> ProcTable \<Rightarrow> 'z proc_state_scheme \<Rightarrow> nat set" where
  "switch_bytes Q t w = frame_bytes (cpu_regs w SP) \<union> cell_bytes (proc_at Q t (curr_proc_idx t) + off_sp Q)"

lemma saved_cong: "regs s = (regs s')(A0 := x, A1 := y) \<Longrightarrow> mem s = mem s' \<Longrightarrow> saved c s = saved c s'"
  by (simp add: saved_def callee_saved_def)

lemma entering_simps [simp]:
  "mem (entering L Q proc s) = mem s" "regs (entering L Q proc s) SP = regs s SP"
  "saved c (entering L Q proc s) = saved c s" "r \<in> set callee_saved \<Longrightarrow> regs (entering L Q proc s) r = regs s r"
  by (auto simp: entering_def saved_cong [of "entering L Q proc s" s] intro: saved_cong)

lemma machine_of_simps [simp]:
  "regs (machine_of w) = cpu_regs w" "csrs (machine_of w) = cpu_csrs w" "mem (machine_of w) = mram w"
  by (simp_all add: machine_of_def)

lemma give_up_memory:
  assumes t: "procs_are w t" "table_ok Q w t" "curr_proc_idx t < PROC_MAX" and sp: "stack_ok Q t w"
    and ret: "give_up p L Q w = Ret w'"
  shows "mram w' = saved (proc_at Q t (curr_proc_idx t) + off_sp Q) (machine_of w)"
    "switch_bytes Q t w \<inter> S = {} \<Longrightarrow> unchanged_on S (mram w) (mram w')"
proof -
  show m: "mram w' = saved (proc_at Q t (curr_proc_idx t) + off_sp Q) (machine_of w)"
    using ret unfolding give_up_eq [OF t] by (auto simp: obind_eq_Ret set_machine_def dest: switch_keeps(1))
  show "unchanged_on S (mram w) (mram w')" if "switch_bytes Q t w \<inter> S = {}"
    using saved_on [of "machine_of w" "proc_at Q t (curr_proc_idx t) + off_sp Q" S] sp that m
    by (auto simp: stack_ok_def switch_bytes_def Int_Un_distrib2)
qed

text \<open>The first switch to a new process starts it at its entry point, on an empty stack.\<close>

lemma give_up_starts:
  assumes Q: "Process_layout_ok L Q" and g: "gmem_ok w"
    and t: "procs_are w t" "table_ok Q w t" "curr_proc_idx t < PROC_MAX" and sp: "stack_ok Q t w"
  defines "n \<equiv> pick (runnable Q t (mram w)) (curr_proc_idx t)"
  assumes st: "proc_started Q (mram w) (proc_at Q t n) i start_pc"
    and ap: "switch_bytes Q t w \<inter> proc_bytes Q (proc_at Q t n) = {}"
  shows "\<exists>w'. give_up p L Q w = Ret w' \<and> cpu_pc w' = start_pc \<and> cpu_regs w' SP = stack_top Q (proc_at Q t n) \<and>
    (\<forall>r\<in>set callee_saved - {RA}. cpu_regs w' r = 0)"
proof -
  let ?nxt = "proc_at Q t n" and ?cb = "proc_at Q t (curr_proc_idx t) + off_sp Q"
  let ?s = "entering L Q ?nxt (machine_of w)"
  have n: "n < PROC_MAX" unfolding n_def by (rule pick_less)
  note pr = proc_range [OF g t(2) n] and fr = first_frame_range [OF Q pr(1)]
  note sc = sp_cell [OF Q pr(1)]
  have sub: "sp_field Q ?nxt \<subseteq> proc_bytes Q ?nxt" "stack_field Q ?nxt \<subseteq> proc_bytes Q ?nxt"
    by (rule field_range(3) [OF Q pr(1)]; simp add: proc_fields_def)+
  have b: "switchable (regs ?s SP) ?cb" using sp by (simp add: stack_ok_def)
  have d: "(frame_bytes (regs ?s SP) \<union> cell_bytes ?cb) \<inter>
      ({unat (first_sp Q ?nxt)..<unat (first_sp Q ?nxt) + 52} \<union> cell_bytes (?nxt + off_sp Q)) = {}"
    using ap fr(2) sub unfolding sc(1) switch_bytes_def by (simp, blast)
  have f: "load32 (mem ?s) (?nxt + off_sp Q) = first_sp Q ?nxt"
    "load_words (mem ?s) (first_sp Q ?nxt) 13 = start_pc # replicate 12 0"
    using st by (simp_all add: proc_started_def)
  obtain s' where s': "switch_context ?cb (?nxt + off_sp Q) ?s = Ret s'"
      "\<forall>i<13. regs s' (callee_saved ! i) = (start_pc # replicate 12 0) ! i"
      "regs s' SP = first_sp Q ?nxt + 52" "pcv s' = (start_pc # replicate 12 0) ! 0"
    using switch_to_frame [OF b fr(1) sc(2) d f] by blast
  have "regs s' r = 0" if r: "r \<in> set callee_saved - {RA}" for r
  proof -
    obtain i where i: "i < 13" "callee_saved ! i = r" using r by (auto simp: in_set_conv_nth)
    then have "i \<noteq> 0" using r by (cases i) (auto simp: callee_saved_def)
    then have "(start_pc # replicate 12 0) ! i = (0::usize)" using i(1) by (cases i) simp_all
    then show ?thesis using s'(2) i by auto
  qed
  then show ?thesis
    using s' fr(3) unfolding give_up_eq [OF t, folded n_def] by (simp add: set_machine_def)
qed

text \<open>A process that gave up and is picked again goes on where it was.\<close>

lemma give_up_resumes:
  assumes t: "procs_are w t" "table_ok Q w t" "curr_proc_idx t < PROC_MAX" and sp: "stack_ok Q t w"
    and w1: "give_up p L Q w = Ret w1"
    and t': "procs_are w2 t'" "table_ok Q w2 t'" "curr_proc_idx t' < PROC_MAX" and sp': "stack_ok Q t' w2"
    and same: "table t' = table t" and again: "pick (runnable Q t' (mram w2)) (curr_proc_idx t') = curr_proc_idx t"
    and kept: "unchanged_on (switch_bytes Q t w) (mram w1) (mram w2)"
    and ap: "switch_bytes Q t' w2 \<inter> switch_bytes Q t w = {}"
  shows "\<exists>w3. give_up p L Q w2 = Ret w3 \<and> (\<forall>r\<in>set callee_saved. cpu_regs w3 r = cpu_regs w r) \<and>
    cpu_regs w3 SP = cpu_regs w SP \<and> cpu_pc w3 = cpu_regs w RA"
proof -
  let ?ca = "proc_at Q t (curr_proc_idx t) + off_sp Q" and ?cb = "proc_at Q t' (curr_proc_idx t') + off_sp Q"
  let ?i = "proc_at Q t' (curr_proc_idx t)"
  let ?s2 = "entering L Q ?i (machine_of w2)"
  have at: "proc_at Q t' (curr_proc_idx t) = proc_at Q t (curr_proc_idx t)" using same by (simp add: proc_at_def)
  have "\<exists>s3. switch_context ?cb ?ca ?s2 = Ret s3 \<and> (\<forall>r\<in>set callee_saved. regs s3 r = regs (machine_of w) r) \<and>
      regs s3 SP = regs (machine_of w) SP \<and> pcv s3 = regs (machine_of w) RA"
    using sp sp' kept ap give_up_memory(1) [OF t sp w1]
    by (intro switch_back) (simp_all add: stack_ok_def switch_bytes_def)
  then obtain s3 where s3: "switch_context ?cb ?ca ?s2 = Ret s3" "\<forall>r\<in>set callee_saved. regs s3 r = cpu_regs w r"
      "regs s3 SP = cpu_regs w SP" "pcv s3 = cpu_regs w RA" by auto
  have "give_up p L Q w2 = Ret (set_machine s3 (set_procs (t'\<lparr>curr_proc_idx := curr_proc_idx t\<rparr>) w2))"
    unfolding give_up_eq [OF t'] again using s3(1) by (simp add: at)
  then show ?thesis using s3 by (simp add: set_machine_def)
qed

end
