(* ===== verification/Proc_System.thy ===== *)
theory Proc_System
  imports Proc_Sched
begin

text \<open>
  The process subsystem as a whole: the invariant that ties the process table, the page tables and
  the allocator together, that \<open>proc::init\<close> establishes and every \<open>proc::new\<close> keeps; and runs of the
  scheduler.
\<close>

section \<open>The invariant\<close>

definition table_bytes :: "Process_layout \<Rightarrow> ProcTable \<Rightarrow> nat set" where
  "table_bytes Q t = (\<Union>i\<in>{i. i < PROC_MAX}. proc_bytes Q (proc_at Q t i))"

text \<open>
  Process \<open>i\<close> is set up: it is runnable, knows its index and has an address space of its own, in
  memory that belongs to no process record.
\<close>

definition proc_inv :: "fv_layout \<Rightarrow> Process_layout \<Rightarrow> usize \<Rightarrow> usize \<Rightarrow> 'z mem_state_scheme \<Rightarrow> ProcTable \<Rightarrow> nat \<Rightarrow>
    usize \<Rightarrow> bool" where
  "proc_inv L Q base end_addr w t k i \<longleftrightarrow>
     runnable Q t (mram w) i \<and> load32 (mram w) (proc_at Q t i + off_pid Q) = i \<and>
     proc_space L Q base end_addr w (proc_at Q t i) k \<and>
     space_bytes L Q w (proc_at Q t i) k \<subseteq> live_bytes w - table_bytes Q t"

text \<open>The first \<open>n\<close> slots are in use, with address spaces apart from one another; the others are zero.\<close>

definition procs_inv :: "fv_layout \<Rightarrow> Process_layout \<Rightarrow> usize \<Rightarrow> usize \<Rightarrow> 'z mem_state_scheme \<Rightarrow> ProcTable \<Rightarrow>
    (usize \<Rightarrow> nat) \<Rightarrow> usize \<Rightarrow> bool" where
  "procs_inv L Q base end_addr w t ks n \<longleftrightarrow>
     kmem_ok w \<and> 32768 \<le> gcapacity w \<and> table_ok Q w t \<and> n \<le> PROC_MAX \<and>
     (\<forall>i<n. proc_inv L Q base end_addr w t (ks i) i) \<and>
     (\<forall>i<n. \<forall>j<n. i \<noteq> j \<longrightarrow>
        space_bytes L Q w (proc_at Q t i) (ks i) \<inter> space_bytes L Q w (proc_at Q t j) (ks j) = {}) \<and>
     (\<forall>i. n \<le> i \<longrightarrow> i < PROC_MAX \<longrightarrow> (\<forall>x. unat x \<in> proc_bytes Q (proc_at Q t i) \<longrightarrow> mram w x = 0))"

lemma table_bytes_live: "gmem_ok w \<Longrightarrow> table_ok Q w t \<Longrightarrow> table_bytes Q t \<subseteq> live_bytes w"
  using proc_range(2) by (fastforce simp: table_bytes_def)

text \<open>A set-up process survives every change outside its record and its page tables.\<close>

lemma proc_inv_unchanged:
  assumes L: "fv_layout_ok L" and Q: "Process_layout_ok L Q" and g: "gmem_ok w" "gmem_ok w'" and t: "table_ok Q w t"
    and i: "i < PROC_MAX" and inv: "proc_inv L Q base end_addr w t k i" and l: "glive w \<subseteq> glive w'"
    and u: "unchanged_on (proc_bytes Q (proc_at Q t i) \<union> space_bytes L Q w (proc_at Q t i) k) (mram w) (mram w')"
  shows "proc_inv L Q base end_addr w' t k i" "space_bytes L Q w' (proc_at Q t i) k = space_bytes L Q w (proc_at Q t i) k"
proof -
  let ?p = "proc_at Q t i" and ?pt = "load_page_table L Q (mram w) (proc_at Q t i)"
  note pr = proc_range [OF g(1) t i] and wf = word_field [OF Q pr(1), of "off_pid Q", simplified]
  note fs = fields_sub [OF L Q pr(1)]
  have pt: "load_page_table L Q (mram w') ?p = ?pt"
    using fs(5) by (intro load_page_table_on [OF L Q pr(1) u]) blast
  have ok: "pt_ok L w ?pt k" using inv by (simp add: proc_inv_def proc_space_def)
  have ub: "unchanged_on (pt_bytes L w ?pt k) (mram w) (mram w')"
    using u by (rule unchanged_on_mono) (simp add: space_bytes_def)
  then have ut: "unchanged_on (pt_tables ?pt k) (mram w) (mram w')"
    by (rule unchanged_on_mono) (auto simp: pt_bytes_def)
  note po = pt_ok_unchanged [OF L g(1) ok ut l] and lk = lookup_unchanged [OF L g ok ub l]
  show sb: "space_bytes L Q w' ?p k = space_bytes L Q w ?p k" using po(2) by (simp add: space_bytes_def pt)
  have "unat (?p + off_state Q) \<in> proc_bytes Q ?p" using fs(4) state_unat [OF Q pr(1)] by simp
  then have "runnable Q t (mram w') i = runnable Q t (mram w) i"
    using u by (simp add: runnable_def proc_in_state_def unchanged_on_def)
  moreover have "load32 (mram w') (?p + off_pid Q) = load32 (mram w) (?p + off_pid Q)"
    using wf fs(3) by (intro load32_on [OF u]) auto
  moreover have "live_bytes w \<subseteq> live_bytes w'" using l by (auto simp: live_bytes_def)
  moreover have "proc_space L Q base end_addr w' ?p k"
    using inv po(1) lk by (simp add: proc_inv_def proc_space_def pt)
  ultimately show "proc_inv L Q base end_addr w' t k i" using inv sb by (auto simp: proc_inv_def)
qed


section \<open>Adding a process\<close>

lemma more_simps:
  fixes w :: "'z proc_state_scheme"
  assumes "mem_state.more w' = mem_state.more w"
  shows "PROC_TABLE w' = PROC_TABLE w" "cpu_regs w' = cpu_regs w" "cpu_csrs w' = cpu_csrs w" "cpu_pc w' = cpu_pc w"
    "proc_state.more w' = proc_state.more w"
  using assms by (cases w; cases w'; simp)+

lemma free_slot_next:
  assumes Q: "Process_layout_ok L Q" and inv: "procs_inv L Q base end_addr w t ks n" and n: "n < PROC_MAX"
  shows "free_slot Q t (mram w) n"
proof -
  have g: "gmem_ok w" and t: "table_ok Q w t" using inv by (auto simp: procs_inv_def kmem_ok_def)
  note pr = proc_range [OF g t n]
  have "unat (proc_at Q t n + off_state Q) \<in> proc_bytes Q (proc_at Q t n)"
    using field_range(3) [OF Q pr(1), of "off_state Q" 1] state_unat [OF Q pr(1)] by (simp add: proc_fields_def)
  then have "mram w (proc_at Q t n + off_state Q) = 0"
    using inv n unfolding procs_inv_def by blast
  moreover have "\<not> proc_in_state Q (mram w) (proc_at Q t j) Unused" if "j < n" for j
    using inv that by (simp add: procs_inv_def proc_inv_def runnable_def proc_in_state_def)
  ultimately show ?thesis using n by (simp add: free_slot_def proc_in_state_def)
qed

lemma less_next:
  assumes "n < PROC_MAX"
  shows "i < n + 1 \<longleftrightarrow> i < n \<or> i = n"
proof -
  have "unat (n + 1) = unat n + 1"
    using assms unat_add_ok [of n 1] by (simp add: PROC_MAX_def word_less_nat_alt)
  then show ?thesis by (auto simp: word_less_nat_alt word_unat_eq_iff)
qed

text \<open>Setting up process \<open>n\<close> leaves the records of the others alone, and the processes before it as they were.\<close>

lemma other_slot:
  assumes "gmem_ok w" "table_ok Q w t" "n < PROC_MAX" "i < PROC_MAX" "i \<noteq> n"
  shows "proc_bytes Q (proc_at Q t i) \<subseteq> live_bytes w - proc_bytes Q (proc_at Q t n)"
  using procs_disjoint [OF assms(1,2,4,3,5)] proc_range(2) [OF assms(1,2,4)] by blast

lemma procs_keep:
  assumes L: "fv_layout_ok L" and Q: "Process_layout_ok L Q" and inv: "procs_inv L Q base end_addr w t ks n"
    and n: "n < PROC_MAX" and gr: "grows w w'" and i: "i < n"
    and u: "unchanged_on (live_bytes w - proc_bytes Q (proc_at Q t n)) (mram w) (mram w')"
  shows "proc_inv L Q base end_addr w' t (ks i) i" "unchanged_on (proc_bytes Q (proc_at Q t i)) (mram w) (mram w')"
    "space_bytes L Q w' (proc_at Q t i) (ks i) = space_bytes L Q w (proc_at Q t i) (ks i)"
    "space_bytes L Q w (proc_at Q t i) (ks i) \<subseteq> live_bytes w - table_bytes Q t"
proof -
  have w: "gmem_ok w" "gmem_ok w'" "table_ok Q w t" "glive w \<subseteq> glive w'"
    using inv gr by (auto simp: procs_inv_def kmem_ok_def grows_def)
  have less: "i < PROC_MAX" "i \<noteq> n" using i n by auto
  note other = other_slot [OF w(1,3) n less]
  show "unchanged_on (proc_bytes Q (proc_at Q t i)) (mram w) (mram w')" using other by (rule unchanged_on_mono [OF u])
  have old: "proc_inv L Q base end_addr w t (ks i) i" using inv i by (simp add: procs_inv_def)
  then show sb: "space_bytes L Q w (proc_at Q t i) (ks i) \<subseteq> live_bytes w - table_bytes Q t" by (simp add: proc_inv_def)
  have "proc_bytes Q (proc_at Q t n) \<subseteq> table_bytes Q t" using n by (auto simp: table_bytes_def)
  then have "unchanged_on (proc_bytes Q (proc_at Q t i) \<union> space_bytes L Q w (proc_at Q t i) (ks i)) (mram w) (mram w')"
    using other sb by (intro unchanged_on_mono [OF u]) auto
  from proc_inv_unchanged [OF L Q w(1-3) less(1) old w(4) this]
  show "proc_inv L Q base end_addr w' t (ks i) i"
    "space_bytes L Q w' (proc_at Q t i) (ks i) = space_bytes L Q w (proc_at Q t i) (ks i)" by blast+
qed

lemma procs_inv_add:
  assumes L: "fv_layout_ok L" and Q: "Process_layout_ok L Q" and inv: "procs_inv L Q base end_addr w t ks n"
    and n: "n < PROC_MAX" and gr: "grows w w'" and st: "proc_started Q (mram w') (proc_at Q t n) n start_pc"
    and sp: "proc_space L Q base end_addr w' (proc_at Q t n) k" "space_bytes L Q w' (proc_at Q t n) k \<inter> live_bytes w = {}"
    and u: "unchanged_on (live_bytes w - proc_bytes Q (proc_at Q t n)) (mram w) (mram w')"
  shows "procs_inv L Q base end_addr w' t (ks(n := k)) (n + 1)"
    and "\<And>i. i < n \<Longrightarrow> unchanged_on (proc_bytes Q (proc_at Q t i)) (mram w) (mram w')"
proof -
  note keep = procs_keep [OF L Q inv n gr _ u]
  show "unchanged_on (proc_bytes Q (proc_at Q t i)) (mram w) (mram w')" if "i < n" for i by (rule keep(2) [OF that])
  have w: "gmem_ok w" "table_ok Q w t" using inv by (auto simp: procs_inv_def kmem_ok_def)
  have w': "kmem_ok w'" "gmem_ok w'" "glive w \<subseteq> glive w'" "gcapacity w' = gcapacity w"
    using gr by (auto simp: grows_def kmem_ok_def)
  have t': "table_ok Q w' t" using w(2) w'(3) by (auto simp: table_ok_def)
  have pt: "pt_ok L w' (load_page_table L Q (mram w') (proc_at Q t n)) k" using sp(1) by (simp add: proc_space_def)
  have "space_bytes L Q w' (proc_at Q t n) k \<subseteq> live_bytes w'"
    using space_live [OF w'(2) pt] by (simp add: space_bytes_def)
  moreover have "space_bytes L Q w' (proc_at Q t n) k \<inter> table_bytes Q t = {}"
    using sp(2) table_bytes_live [OF w] by blast
  ultimately have new: "proc_inv L Q base end_addr w' t k n"
    using st sp(1) by (auto simp: proc_inv_def runnable_def proc_started_def)
  note n1 = less_next [OF n]
  let ?ks = "ks(n := k)" and ?S = "\<lambda>i. space_bytes L Q w' (proc_at Q t i) ((ks(n := k)) i)"
  have "?S i \<inter> ?S j = {}" if "i < n + 1" "j < n + 1" "i \<noteq> j" for i j
  proof -
    have "?S i \<inter> ?S j = {}" if "i < n" "j < n" using that keep(3) inv \<open>i \<noteq> j\<close> by (auto simp: procs_inv_def)
    moreover have "?S i \<inter> ?S n = {}" if "i < n" for i using keep(3,4) [OF that] sp(2) that by auto
    ultimately show ?thesis using that n1 by blast
  qed
  moreover have "\<forall>i<n + 1. proc_inv L Q base end_addr w' t (?ks i) i" using keep(1) new by (auto simp: n1)
  moreover have "mram w' x = 0" if i: "n + 1 \<le> i" "i < PROC_MAX" and x: "unat x \<in> proc_bytes Q (proc_at Q t i)" for i x
  proof -
    have "\<not> i < n + 1" using i(1) by simp
    then have ni: "n \<le> i" "i \<noteq> n" unfolding n1 by auto
    have "mram w x = 0" using inv ni(1) i(2) x unfolding procs_inv_def by blast
    moreover have "mram w' x = mram w x" using u other_slot [OF w n i(2) ni(2)] x by (auto simp: unchanged_on_def)
    ultimately show ?thesis by simp
  qed
  moreover have "n + 1 \<le> PROC_MAX" using n by (rule inc_le)
  ultimately show "procs_inv L Q base end_addr w' t ?ks (n + 1)"
    using inv w' t' unfolding procs_inv_def by auto
qed


lemma procs_are_more: "mem_state.more w' = mem_state.more w \<Longrightarrow> procs_are w' t \<longleftrightarrow> procs_are w t"
  unfolding procs_are_def by (subst more_simps(1)) simp_all

lemma proc_get_ready: "procs_are w t \<Longrightarrow> proc_get p Q w = Ret (\<lparr>lock = 0, data = t\<rparr>, PROC_TABLE w, w)"
  by (simp add: proc_get_def procs_are_def get_or_init_completed)

lemma proc_new_eq:
  assumes "procs_are w t"
  shows "proc_new p L Q base end_addr start_pc w =
    obind (create_process p L Q base end_addr t start_pc w)
      (\<lambda>(i, w'). Ret (w'\<lparr>PROC_TABLE := OnceCell_store (PROC_TABLE w) \<lparr>lock = 0, data = t\<rparr>\<rparr>))"
proof -
  have lk: "Mutex_lock \<lparr>lock = 0, data = t\<rparr> = Ret \<lparr>lock = 1, data = t\<rparr>"
    by (subst Mutex_lock_free) simp_all
  show ?thesis
    by (cases "create_process p L Q base end_addr t start_pc w")
      (auto simp: proc_new_def proc_get_ready [OF assms] lk guard_simps)
qed

lemma nil_slot:
  assumes L: "fv_layout_ok L" and Q: "Process_layout_ok L Q" and inv: "procs_inv L Q base end_addr w t ks n" and n: "n < PROC_MAX"
  shows "load_page_table L Q (mram w) (proc_at Q t n) = nil_table"
proof -
  have g: "gmem_ok w" and t: "table_ok Q w t" using inv by (auto simp: procs_inv_def kmem_ok_def)
  note pr = proc_range [OF g t n]
  show ?thesis
  proof (rule zeroed_page_table [OF L Q pr(1)])
    fix x :: usize assume "unat x \<in> table_fields L Q (proc_at Q t n)"
    then have "unat x \<in> proc_bytes Q (proc_at Q t n)" using fields_sub(5) [OF L Q pr(1)] by blast
    then show "mram w x = 0" using inv n unfolding procs_inv_def by blast
  qed
qed

lemma proc_new_ok:
  assumes L: "fv_layout_ok L" and Q: "Process_layout_ok L Q" and t: "procs_are w t"
    and inv: "procs_inv L Q base end_addr w t ks n" and n: "n < PROC_MAX"
    and al: "4096 dvd unat base" "4096 dvd unat end_addr" "base \<le> end_addr"
  shows "proc_new p L Q base end_addr start_pc w = Panic UnwrapNone \<and> \<not> room w (2 + roots base end_addr) \<or>
    (\<exists>w' k. proc_new p L Q base end_addr start_pc w = Ret w' \<and> procs_are w' t \<and>
       procs_inv L Q base end_addr w' t (ks(n := k)) (n + 1) \<and> proc_started Q (mram w') (proc_at Q t n) n start_pc \<and>
       (\<forall>i<n. unchanged_on (proc_bytes Q (proc_at Q t i)) (mram w) (mram w')) \<and> grows w w' \<and>
       (\<forall>r. room w (2 + roots base end_addr + r) \<longrightarrow> room w' r))"
proof -
  have w: "kmem_ok w" "32768 \<le> gcapacity w" "table_ok Q w t" using inv by (auto simp: procs_inv_def)
  from create_process_ok [OF L Q w free_slot_next [OF Q inv n] nil_slot [OF L Q inv n] al, of p start_pc]
  show ?thesis
  proof (elim disjE exE conjE)
    fix w' k
    assume r: "create_process p L Q base end_addr t start_pc w = Ret (n, w')" and gr: "grows w w'"
      and st: "proc_started Q (mram w') (proc_at Q t n) n start_pc"
      and sp: "proc_space L Q base end_addr w' (proc_at Q t n) k" "space_bytes L Q w' (proc_at Q t n) k \<inter> live_bytes w = {}"
      and u: "unchanged_on (live_bytes w - proc_bytes Q (proc_at Q t n)) (mram w) (mram w')"
      and rm: "\<forall>r. room w (2 + roots base end_addr + r) \<longrightarrow> room w' r"
    have m: "mem_state.more w' = mem_state.more w" using gr by (simp add: grows_def)
    have t': "procs_are w' t" using t procs_are_more [OF m] by simp
    have "w'\<lparr>PROC_TABLE := OnceCell_store (PROC_TABLE w) \<lparr>lock = 0, data = t\<rparr>\<rparr> = w'"
      using set_procs_same [OF t'] by (simp add: set_procs_def more_simps(1) [OF m])
    then have "proc_new p L Q base end_addr start_pc w = Ret w'" by (simp add: proc_new_eq [OF t] r)
    then show ?thesis using t' procs_inv_add [OF L Q inv n gr st sp u] st gr rm by blast
  qed (simp add: proc_new_eq [OF t])
qed

lemma proc_new_full:
  assumes "procs_are w t" "procs_inv L Q base end_addr w t ks PROC_MAX"
  shows "proc_new p L Q base end_addr start_pc w = Panic (Expect ''no free process slots.'')"
proof -
  have "next_unused Q t (mram w) = Ret None"
    using assms(2)
    by (intro next_unused_full) (auto simp: procs_inv_def proc_inv_def runnable_def proc_in_state_def)
  then show ?thesis by (simp add: proc_new_eq [OF assms(1)] create_process_def)
qed

text \<open>\<open>proc::init\<close> sets up an empty table in zeroed memory.\<close>

lemma proc_init_ok:
  assumes L: "fv_layout_ok L" and Q: "Process_layout_ok L Q" and w: "kmem_ok w" and cap: "32768 \<le> gcapacity w"
    and new: "PROC_TABLE w = OnceCell_new" and rm: "room w (Suc r)"
  shows "\<exists>w' t. proc_init p Q w = Ret w' \<and> procs_are w' t \<and> curr_proc_idx t = 0 \<and>
    procs_inv L Q base end_addr w' t ks 0 \<and> room w' r \<and> mram w' = mram w \<and> gregion w' = gregion w \<and>
    cpu_regs w' = cpu_regs w \<and> cpu_csrs w' = cpu_csrs w \<and> proc_state.more w' = proc_state.more w"
proof -
  have "unat (off_state Q) + 1 \<le> unat (proc_size Q)" "unat (proc_size Q) \<le> 4096"
    using Q unfolding Process_layout_ok_def proc_fields_def by simp_all
  then have sz: "proc_size Q \<noteq> 0" "unat PROC_MAX * unat (proc_size Q) \<le> 2 ^ 15" "PROC_MAX \<noteq> 0"
    by (auto simp: PROC_MAX_def)
  obtain a k w1 where r: "FixedVec_new p (proc_size Q) PROC_MAX w =
        Ret (\<lparr>fv_ptr = a, fv_cap = PROC_MAX, fv_addr = PhysAddr a (Some (2 ^ k))\<rparr>, w1)"
      and nb: "new_block w (unat a, k) w1" and k: "unat PROC_MAX * unat (proc_size Q) \<le> 2 ^ k" and rm1: "room w1 r"
    using FixedVec_new_room [OF w sz(1,3,2) rm, of p] by blast
  let ?t = "\<lparr>table = \<lparr>fv_ptr = a, fv_cap = PROC_MAX, fv_addr = PhysAddr a (Some (2 ^ k))\<rparr>, curr_proc_idx = 0\<rparr>"
  let ?w = "w1\<lparr>PROC_TABLE := \<lparr>once = \<lparr>state = 2\<rparr>, oc_value = Some (Mutex_new ?t)\<rparr>\<rparr>"
  have w1: "kmem_ok w1" "gmem_ok w1" "gcapacity w1 = gcapacity w" "(unat a, k) \<in> glive w1" "mem_state.more w1 = mem_state.more w"
    "mram w1 = mram w" "gregion w1 = gregion w" and z: "\<And>x. unat x \<in> extent (unat a, k) \<Longrightarrow> mram w x = 0"
    using nb by (auto simp: new_block_def kmem_ok_def)
  have same: "mram ?w = mram w1" "MEMORY ?w = MEMORY w1" by simp_all
  have g: "gmem ?w = gmem w1" by (simp add: gmem_def)
  then have g': "glive ?w = glive w1" "gregion ?w = gregion w1" "gcapacity ?w = gcapacity w1"
    by (simp_all add: glive_def gregion_def gcapacity_def)
  then have kw: "kmem_ok ?w" using w1(1) g by (simp add: kmem_ok_def zero_free_def gmem_ok_def memory_is_def)
  have t: "table_ok Q ?w ?t" "table_ok Q w1 ?t" using w1(4) k g' by (auto simp: table_ok_def PROC_MAX_def)
  have zero: "mram ?w x = 0" if i: "i < PROC_MAX" and x: "unat x \<in> proc_bytes Q (proc_at Q ?t i)" for i x
  proof -
    have i': "unat i < unat PROC_MAX" using i by (simp add: word_less_nat_alt)
    have "proc_bytes Q (proc_at Q ?t i) \<subseteq> extent (unat a, k)"
      using elem_inside(1) [OF i' k gbuddy.live_bound [OF w1(2,4)]] by (simp add: proc_bytes_def proc_at_def)
    then show ?thesis using z x w1(6) by auto
  qed
  have inv: "procs_inv L Q base end_addr ?w ?t ks 0"
    using kw t(1) zero cap w1(3) g' by (auto simp: procs_inv_def)
  have "proc_init p Q w = Ret ?w"
    by (simp add: proc_init_def proc_get_def new get_or_init_new ProcTable_new_def r)
  moreover have "procs_are ?w ?t" by (simp add: procs_are_def completed_def is_complete_def Mutex_new_def)
  moreover have "room ?w r" using rm1 g' by (simp add: room_def)
  ultimately show ?thesis
    using inv w1(6,7) g' more_simps [OF w1(5)] by (intro exI [of _ ?w] exI [of _ ?t]) simp
qed

end
