(* ===== verification/Proc_Interface.thy ===== *)
theory Proc_Interface
  imports Prelude
begin

text \<open>
  What the process subsystem promises to the boot code: a call of \<open>new\<close> with room in the memory and
  a free slot \<open>n\<close> returns, fills that slot with a process that will start at the given address, and
  keeps the other processes and the unrelated state. The client creates a list of processes.
\<close>

fun new_all :: "(usize \<Rightarrow> 's \<Rightarrow> 's outcome) \<Rightarrow> usize list \<Rightarrow> 's \<Rightarrow> 's outcome" where
  "new_all new [] w = Ret w"
| "new_all new (x # xs) w = obind (new x w) (new_all new xs)"

locale process_manager =
  fixes new :: "usize \<Rightarrow> 's \<Rightarrow> 's outcome" and ok :: "usize \<Rightarrow> 's \<Rightarrow> bool" and slots :: usize
    and has_room :: "nat \<Rightarrow> 's \<Rightarrow> bool" and need :: nat and starts :: "usize \<Rightarrow> usize \<Rightarrow> 's \<Rightarrow> bool"
    and extends :: "'s \<Rightarrow> 's \<Rightarrow> bool"
  assumes new_ok: "ok n w \<Longrightarrow> n < slots \<Longrightarrow> has_room (need + r) w \<Longrightarrow>
      \<exists>w'. new x w = Ret w' \<and> ok (n + 1) w' \<and> starts n x w' \<and> has_room r w' \<and> extends w w' \<and>
        (\<forall>i<n. \<forall>y. starts i y w \<longrightarrow> starts i y w')"
    and extends_refl: "ok n w \<Longrightarrow> extends w w"
    and extends_trans: "extends w w' \<Longrightarrow> extends w' w'' \<Longrightarrow> extends w w''"
begin

lemma new_all_ok:
  assumes "ok n w" "unat n + length xs \<le> unat slots" "has_room (length xs * need + r) w"
  shows "\<exists>w'. new_all new xs w = Ret w' \<and> ok (n + of_nat (length xs)) w' \<and> has_room r w' \<and> extends w w' \<and>
    (\<forall>k<length xs. starts (n + of_nat k) (xs ! k) w') \<and> (\<forall>i<n. \<forall>y. starts i y w \<longrightarrow> starts i y w')"
  using assms
proof (induction xs arbitrary: n w)
  case Nil
  then show ?case using extends_refl by auto
next
  case (Cons x xs)
  have n: "n < slots" using Cons.prems(2) by (simp add: word_less_nat_alt)
  have u: "unat (n + 1) = unat n + 1"
    using Cons.prems(2) unat_less_32 [of slots] unat_add_ok [of n 1] by simp
  have "has_room (need + (length xs * need + r)) w" using Cons.prems(3) by (simp add: algebra_simps)
  from new_ok [OF Cons.prems(1) n this, of x] obtain w1 where w1: "new x w = Ret w1" "ok (n + 1) w1" "starts n x w1"
      "has_room (length xs * need + r) w1" "extends w w1" "\<forall>i<n. \<forall>y. starts i y w \<longrightarrow> starts i y w1"
    by blast
  have "unat (n + 1) + length xs \<le> unat slots" using u Cons.prems(2) by simp
  from Cons.IH [OF w1(2) this w1(4)] obtain w' where w': "new_all new xs w1 = Ret w'"
      "ok (n + 1 + of_nat (length xs)) w'" "has_room r w'" "extends w1 w'"
      "\<forall>k<length xs. starts (n + 1 + of_nat k) (xs ! k) w'" "\<forall>i<n + 1. \<forall>y. starts i y w1 \<longrightarrow> starts i y w'"
    by blast
  have lt: "i < n + 1" if "i \<le> n" for i using that u by (simp add: word_le_nat_alt word_less_nat_alt)
  have "starts (n + of_nat k) ((x # xs) ! k) w'" if "k < length (x # xs)" for k
    using that w'(5,6) w1(3) lt [of n] by (cases k) (auto simp: algebra_simps)
  moreover have "\<forall>i<n. \<forall>y. starts i y w \<longrightarrow> starts i y w'" using w1(6) w'(6) lt by auto
  moreover have "extends w w'" using w1(5) w'(4) by (rule extends_trans)
  ultimately show ?case using w1(1) w'(1-3) by (auto simp: algebra_simps)
qed

end

end
