(* ===== verification/Proc_Runs.thy ===== *)
theory Proc_Runs
  imports Proc_System Proc_Interface
begin

text \<open>
  Runs of the scheduler: the processes take turns, each computes for a while (which leaves the
  table of processes alone) and gives up. The list has the processes in the order in which they got
  the processor.
\<close>

definition state_bytes :: "Process_layout \<Rightarrow> ProcTable \<Rightarrow> nat set" where
  "state_bytes Q t = (\<Union>i\<in>{i. i < PROC_MAX}. {unat (proc_at Q t i + off_state Q)})"

text \<open>What a process does between two calls of \<open>give_up\<close>, as far as the scheduler is concerned.\<close>

definition computes :: "Process_layout \<Rightarrow> ProcTable \<Rightarrow> 'z proc_state_scheme \<Rightarrow> 'z proc_state_scheme \<Rightarrow> bool" where
  "computes Q t w w' \<longleftrightarrow>
     PROC_TABLE w' = PROC_TABLE w \<and> MEMORY w' = MEMORY w \<and> unchanged_on (state_bytes Q t) (mram w) (mram w')"

definition current :: "'z proc_state_scheme \<Rightarrow> usize" where
  "current w = curr_proc_idx (data (the (oc_value (PROC_TABLE w))))"

lemma procs_are_current: "procs_are w t \<Longrightarrow> current w = curr_proc_idx t"
  by (simp add: current_def procs_are_def completed_def)

inductive sched_runs :: "profile \<Rightarrow> fv_layout \<Rightarrow> Process_layout \<Rightarrow> ProcTable \<Rightarrow> 'z proc_state_scheme \<Rightarrow> usize list \<Rightarrow>
    'z proc_state_scheme \<Rightarrow> bool"
  for p L Q t w where
  start: "sched_runs p L Q t w [] w"
| turn: "sched_runs p L Q t w is w1 \<Longrightarrow> computes Q t w1 w2 \<Longrightarrow>
    stack_ok Q (t\<lparr>curr_proc_idx := current w2\<rparr>) w2 \<Longrightarrow>
    switch_bytes Q (t\<lparr>curr_proc_idx := current w2\<rparr>) w2 \<inter> state_bytes Q t = {} \<Longrightarrow>
    give_up p L Q w2 = Ret w3 \<Longrightarrow> sched_runs p L Q t w (is @ [current w3]) w3"

inductive_cases sched_runs_snocE: "sched_runs p L Q t w (is @ [i]) w'"

definition turn_order :: "usize \<Rightarrow> nat \<Rightarrow> usize" where
  "turn_order cur n = (if even n = (cur = 1) then 2 else 1)"

text \<open>The state of a run between turns.\<close>

definition between :: "Process_layout \<Rightarrow> ProcTable \<Rightarrow> usize \<Rightarrow> 'z proc_state_scheme \<Rightarrow> bool" where
  "between Q t cur w \<longleftrightarrow>
     procs_are w (t\<lparr>curr_proc_idx := cur\<rparr>) \<and> table_ok Q w t \<and> cur < PROC_MAX \<and>
     runnable Q t (mram w) 1 \<and> runnable Q t (mram w) 2"

lemma table_ok_cong: "MEMORY w' = MEMORY w \<Longrightarrow> table t' = table t \<Longrightarrow> table_ok Q w' t' \<longleftrightarrow> table_ok Q w t"
  by (simp add: table_ok_def glive_def gmem_def)

lemma runnable_cong:
  assumes "unchanged_on (state_bytes Q t) m m'" "i < PROC_MAX"
  shows "runnable Q t m' i = runnable Q t m i"
proof -
  have "unat (proc_at Q t i + off_state Q) \<in> state_bytes Q t" using assms(2) by (auto simp: state_bytes_def)
  then show ?thesis using assms(1) by (simp add: runnable_def proc_in_state_def unchanged_on_def)
qed

lemma runnable_table: "runnable Q (t\<lparr>curr_proc_idx := c\<rparr>) = runnable Q t" "proc_at Q (t\<lparr>curr_proc_idx := c\<rparr>) = proc_at Q t"
  by (simp_all add: runnable_def proc_at_def fun_eq_iff)

lemma between_computes:
  assumes "between Q t cur w" "computes Q t w w'"
  shows "between Q t cur w'"
proof -
  have m: "PROC_TABLE w' = PROC_TABLE w" "MEMORY w' = MEMORY w" and u: "unchanged_on (state_bytes Q t) (mram w) (mram w')"
    using assms(2) by (auto simp: computes_def)
  have r: "runnable Q t (mram w') 1 = runnable Q t (mram w) 1" "runnable Q t (mram w') 2 = runnable Q t (mram w) 2"
    by (rule runnable_cong [OF u]; simp add: PROC_MAX_def)+
  have "table_ok Q w' t \<longleftrightarrow> table_ok Q w t" by (rule table_ok_cong [OF m(2) refl])
  then show ?thesis using assms(1) m(1) r by (simp add: between_def procs_are_def)
qed

text \<open>One turn: it always ends with a switch, to the other one of the two.\<close>

lemma between_turn:
  assumes b: "between Q t cur w" and sp: "stack_ok Q (t\<lparr>curr_proc_idx := cur\<rparr>) w"
    and ap: "switch_bytes Q (t\<lparr>curr_proc_idx := cur\<rparr>) w \<inter> state_bytes Q t = {}"
  shows "\<exists>w'. give_up p L Q w = Ret w' \<and> between Q t (if cur = 1 then 2 else 1) w'"
proof -
  let ?t = "t\<lparr>curr_proc_idx := cur\<rparr>" and ?n = "if cur = 1 then 2 else 1 :: usize"
  have t: "procs_are w ?t" "table_ok Q w ?t" "curr_proc_idx ?t < PROC_MAX"
    using b table_ok_cong [of w w ?t t Q] by (auto simp: between_def)
  have "pick (runnable Q ?t (mram w)) (curr_proc_idx ?t) = ?n"
    using b by (simp add: between_def runnable_table pick_two)
  then obtain w' where w': "give_up p L Q w = Ret w'" "procs_are w' (t\<lparr>curr_proc_idx := ?n\<rparr>)" "MEMORY w' = MEMORY w"
    using give_up_state [OF t, of p L] by auto
  have u: "unchanged_on (state_bytes Q t) (mram w) (mram w')"
    by (rule give_up_memory(2) [OF t sp w'(1) ap])
  have r: "runnable Q t (mram w') 1 = runnable Q t (mram w) 1" "runnable Q t (mram w') 2 = runnable Q t (mram w) 2"
    by (rule runnable_cong [OF u]; simp add: PROC_MAX_def)+
  have "?n < PROC_MAX" by (simp add: PROC_MAX_def)
  then have "between Q t ?n w'" using b w' r table_ok_cong [OF w'(3), of t t Q] by (simp add: between_def)
  then show ?thesis using w'(1) by blast
qed

lemma runs_alternate:
  assumes "sched_runs p L Q t w is w'" "between Q t cur w"
  shows "is = map (turn_order cur) [0..<length is] \<and>
    between Q t (if is = [] then cur else turn_order cur (length is - 1)) w'"
  using assms
proof (induction rule: sched_runs.induct)
  case (turn "is" w1 w2 w3)
  let ?c = "if is = [] then cur else turn_order cur (length is - 1)"
  have ih: "is = map (turn_order cur) [0..<length is]" "between Q t ?c w1" using turn.IH turn.prems by auto
  have b: "between Q t ?c w2" using between_computes [OF ih(2) turn.hyps(2)] .
  then have c: "current w2 = ?c" using procs_are_current [of w2 "t\<lparr>curr_proc_idx := ?c\<rparr>"] by (simp add: between_def)
  have b3: "between Q t (if ?c = 1 then 2 else 1) w3"
    using between_turn [OF b, of p L] turn.hyps(3,4,5) unfolding c by auto
  have n: "(if ?c = 1 then 2 else 1) = turn_order cur (length is)"
    by (cases "length is") (auto simp: turn_order_def)
  have "current w3 = turn_order cur (length is)"
    using b3 procs_are_current [of w3 "t\<lparr>curr_proc_idx := turn_order cur (length is)\<rparr>"] unfolding n
    by (simp add: between_def)
  then show ?case using ih(1) b3 unfolding n by simp
qed simp


section \<open>The first turns of two new processes\<close>

text \<open>A process that has just been started: its frame goes to the top of its own stack.\<close>

lemma top_switchable:
  assumes L: "fv_layout_ok L" and Q: "Process_layout_ok L Q" and a: "unat proc + unat (proc_size Q) \<le> 2 ^ 32"
    and nz: "stack_top Q proc \<noteq> 0"
  shows "switchable (stack_top Q proc) (proc + off_sp Q)" "frame_bytes (stack_top Q proc) \<subseteq> stack_field Q proc"
proof -
  note fr = first_frame_range [OF Q a] and sc = sp_cell [OF Q a]
  have "unat (first_sp Q proc) + 52 \<noteq> 2 ^ 32"
  proof
    assume "unat (first_sp Q proc) + 52 = 2 ^ 32"
    then have "unat (first_sp Q proc + 52) = 0" by (simp add: unat_word_ariths)
    then show False using nz fr(3) by (simp add: unat_eq_0)
  qed
  then have u: "unat (stack_top Q proc) = unat (first_sp Q proc) + 52"
    using fr(1) unfolding fr(3) [symmetric] by (subst unat_add_ok) simp_all
  then have "frame_bytes (stack_top Q proc) = {unat (first_sp Q proc)..<unat (first_sp Q proc) + 52}"
    by (simp add: frame_bytes_def)
  then show f: "frame_bytes (stack_top Q proc) \<subseteq> stack_field Q proc" using fr(2) by simp
  show "switchable (stack_top Q proc) (proc + off_sp Q)"
    using u f sc fields_disjoint(1) [OF Q, of proc] unfolding switchable_def by auto
qed

lemma table_field_sub:
  assumes "fv_layout_ok L" "Process_layout_ok L Q" "gmem_ok w" "table_ok Q w t" "i < PROC_MAX"
  shows "stack_field Q (proc_at Q t i) \<subseteq> proc_bytes Q (proc_at Q t i)" "sp_field Q (proc_at Q t i) \<subseteq> proc_bytes Q (proc_at Q t i)"
    "head_fields Q (proc_at Q t i) \<subseteq> proc_bytes Q (proc_at Q t i)" "proc_bytes Q (proc_at Q t i) \<subseteq> table_bytes Q t"
    "unat (proc_at Q t i + off_state Q) \<in> proc_bytes Q (proc_at Q t i)"
  using fields_sub [OF assms(1,2) proc_range(1) [OF assms(3-5)]] state_unat [OF assms(2) proc_range(1) [OF assms(3-5)]] assms(5)
  by (auto simp: head_fields_def table_bytes_def)

lemma stack_top_nonzero:
  assumes Q: "Process_layout_ok L Q" and g: "gmem_ok w" and t: "table_ok Q w t" and i: "i < 7"
  shows "stack_top Q (proc_at Q t i) \<noteq> 0"
proof -
  obtain k where k: "(unat (fv_ptr (table t)), k) \<in> glive w" "8 * unat (proc_size Q) \<le> 2 ^ k"
    using t by (auto simp: table_ok_def)
  have bd: "unat (fv_ptr (table t)) + 2 ^ k \<le> 2 ^ 32" using gbuddy.live_bound [OF g k(1)] .
  have i7: "unat i < 7" "unat i < unat (8::usize)" using i by (simp_all add: word_less_nat_alt)
  have k8: "unat (8::usize) * unat (proc_size Q) \<le> 2 ^ k" using k(2) by simp
  have u: "unat (proc_at Q t i) = unat (fv_ptr (table t)) + unat i * unat (proc_size Q)"
    using elem_unat(1) [OF i7(2) k8 bd] by (simp add: proc_at_def)
  have sz: "unat (off_stack Q) + 2048 \<le> unat (proc_size Q)" using Q by (simp add: Process_layout_ok_def proc_fields_def)
  have "(unat i + 1) * unat (proc_size Q) \<le> 7 * unat (proc_size Q)" using i7(1) by (intro mult_le_mono1) simp
  then have le: "unat (proc_at Q t i) + unat (off_stack Q) + 2048 < 2 ^ 32"
    using u sz k(2) bd unfolding add_mult_distrib mult_1 by linarith
  then have "unat (proc_at Q t i + off_stack Q) = unat (proc_at Q t i) + unat (off_stack Q)" by (intro unat_add_ok) simp
  then have "unat (stack_top Q (proc_at Q t i)) = unat (proc_at Q t i) + unat (off_stack Q) + 2048"
    unfolding stack_top_def using le by (subst unat_add_ok) simp_all
  then show ?thesis by auto
qed

text \<open>
  From the boot context (process 0, on a stack outside the table) the first two calls of \<open>give_up\<close>
  start the processes 1 and 2 at their entry points, each on its own stack.
\<close>

definition started :: "Process_layout \<Rightarrow> ProcTable \<Rightarrow> ram \<Rightarrow> usize \<Rightarrow> usize \<Rightarrow> bool" where
  "started Q t m i start_pc \<longleftrightarrow> proc_started Q m (proc_at Q t i) i start_pc"

lemma started_runnable: "started Q t m i start_pc \<Longrightarrow> runnable Q t m i"
  by (simp add: started_def proc_started_def runnable_def)

lemma first_turn:
  assumes L: "fv_layout_ok L" and Q: "Process_layout_ok L Q" and g: "gmem_ok w"
    and t: "procs_are w t" "table_ok Q w t" "curr_proc_idx t = 0"
    and s: "started Q t (mram w) 1 pc1" "started Q t (mram w) 2 pc2"
    and sp: "switchable (cpu_regs w SP) (proc_at Q t 0 + off_sp Q)" "frame_bytes (cpu_regs w SP) \<inter> table_bytes Q t = {}"
  shows "\<exists>w'. give_up p L Q w = Ret w' \<and> procs_are w' (t\<lparr>curr_proc_idx := 1\<rparr>) \<and> MEMORY w' = MEMORY w \<and>
    cpu_pc w' = pc1 \<and> cpu_regs w' SP = stack_top Q (proc_at Q t 1) \<and>
    runnable Q t (mram w') 1 \<and> started Q t (mram w') 2 pc2 \<and>
    cpu_csrs w' SATP = satp_of L Q (mram w) (proc_at Q t 1) \<and> cpu_csrs w' SSCRATCH = stack_top Q (proc_at Q t 1) \<and>
    unchanged_on (- (frame_bytes (cpu_regs w SP) \<union> sp_field Q (proc_at Q t 0))) (mram w) (mram w')"
proof -
  have less: "(0::usize) < PROC_MAX" "(1::usize) < PROC_MAX" "(2::usize) < PROC_MAX" by (simp_all add: PROC_MAX_def)
  have cur: "curr_proc_idx t < PROC_MAX" "stack_ok Q t w" using t(3) less sp(1) by (simp_all add: stack_ok_def)
  note sub = table_field_sub [OF L Q g t(2)] and dj = procs_disjoint [OF g t(2)]
  note cell = sp_cell(1) [OF Q proc_range(1) [OF g t(2) less(1)]]
  have pick: "pick (runnable Q t (mram w)) (curr_proc_idx t) = 1"
    using pick_two [OF started_runnable [OF s(1)] started_runnable [OF s(2)], of "curr_proc_idx t"] t(3) by simp
  have sb: "switch_bytes Q t w = frame_bytes (cpu_regs w SP) \<union> sp_field Q (proc_at Q t 0)"
    using t(3) cell by (simp add: switch_bytes_def)
  have ap: "switch_bytes Q t w \<inter> proc_bytes Q (proc_at Q t i) = {}" if "i < PROC_MAX" "i \<noteq> 0" for i
    using sp(2) sub(2) [OF less(1)] sub(4) [OF that(1)] dj [OF less(1) that(1)] that(2) unfolding sb by blast
  have n0: "(1::usize) \<noteq> 0" "(2::usize) \<noteq> 0" by simp_all
  obtain w' where w': "give_up p L Q w = Ret w'" "cpu_pc w' = pc1" "cpu_regs w' SP = stack_top Q (proc_at Q t 1)"
    using give_up_starts [OF Q g t(1,2) cur, of 1 pc1 p, unfolded pick] s(1) ap [OF less(2) n0(1)] by (auto simp: started_def)
  have st: "procs_are w' (t\<lparr>curr_proc_idx := 1\<rparr>)" "MEMORY w' = MEMORY w"
    "cpu_csrs w' SATP = satp_of L Q (mram w) (proc_at Q t 1)" "cpu_csrs w' SSCRATCH = stack_top Q (proc_at Q t 1)"
    using give_up_state [OF t(1,2) cur(1), of p L, unfolded pick] w'(1) by auto
  have u: "unchanged_on (- switch_bytes Q t w) (mram w) (mram w')"
    by (rule give_up_memory(2) [OF t(1,2) cur w'(1)]) simp
  have ui: "unchanged_on (proc_bytes Q (proc_at Q t i)) (mram w) (mram w')" if "i < PROC_MAX" "i \<noteq> 0" for i
    using ap [OF that] by (intro unchanged_on_mono [OF u]) blast
  have "started Q t (mram w') i x" if "i < PROC_MAX" "i \<noteq> 0" "started Q t (mram w) i x" for i x
    using proc_started_on [OF Q proc_range(1) [OF g t(2) that(1)] ui [OF that(1,2)] sub(3) [OF that(1)]] that(3)
    by (simp add: started_def)
  from this [OF less(2) n0(1) s(1)] this [OF less(3) n0(2) s(2)]
  have "runnable Q t (mram w') 1" "started Q t (mram w') 2 pc2" by (auto dest: started_runnable)
  then show ?thesis using w' st u by (simp add: sb)
qed


text \<open>A switch away from process \<open>i\<close> writes to its stack and its stack pointer only, never to a state.\<close>

lemma state_apart:
  assumes L: "fv_layout_ok L" and Q: "Process_layout_ok L Q" and g: "gmem_ok w" and t: "table_ok Q w t" and i: "i < PROC_MAX"
  shows "(stack_field Q (proc_at Q t i) \<union> sp_field Q (proc_at Q t i)) \<inter> state_bytes Q t = {}"
proof -
  note sub = table_field_sub [OF L Q g t] and dj = fields_disjoint [OF Q, of "proc_at Q t i"]
  have "(stack_field Q (proc_at Q t i) \<union> sp_field Q (proc_at Q t i)) \<inter> {unat (proc_at Q t j + off_state Q)} = {}"
    if j: "j < PROC_MAX" for j
  proof (cases "j = i")
    case True
    then show ?thesis using dj(3,6) state_unat [OF Q proc_range(1) [OF g t i]] by auto
  next
    case False
    then show ?thesis using procs_disjoint [OF g t j i] sub(1,2) [OF i] sub(5) [OF j] by blast
  qed
  then show ?thesis unfolding state_bytes_def by blast
qed

lemma own_switch:
  assumes L: "fv_layout_ok L" and Q: "Process_layout_ok L Q" and g: "gmem_ok w" and t: "table_ok Q w t" and i: "i < 7"
    and sp: "cpu_regs w SP = stack_top Q (proc_at Q t i)"
  shows "stack_ok Q (t\<lparr>curr_proc_idx := i\<rparr>) w"
    "switch_bytes Q (t\<lparr>curr_proc_idx := i\<rparr>) w \<subseteq> proc_bytes Q (proc_at Q t i)"
    "switch_bytes Q (t\<lparr>curr_proc_idx := i\<rparr>) w \<inter> state_bytes Q t = {}"
proof -
  have i8: "i < PROC_MAX" using i by (rule less_trans) (simp add: PROC_MAX_def)
  note pr = proc_range(1) [OF g t i8]
  note tp = top_switchable [OF L Q pr stack_top_nonzero [OF Q g t i]]
  note sub = table_field_sub [OF L Q g t i8] and cell = sp_cell(1) [OF Q pr]
  have sb: "switch_bytes Q (t\<lparr>curr_proc_idx := i\<rparr>) w =
      frame_bytes (stack_top Q (proc_at Q t i)) \<union> sp_field Q (proc_at Q t i)"
    by (simp add: switch_bytes_def sp runnable_table cell)
  show "stack_ok Q (t\<lparr>curr_proc_idx := i\<rparr>) w" using tp(1) by (simp add: stack_ok_def sp runnable_table)
  show "switch_bytes Q (t\<lparr>curr_proc_idx := i\<rparr>) w \<subseteq> proc_bytes Q (proc_at Q t i)"
    unfolding sb using tp(2) sub(1,2) by blast
  show "switch_bytes Q (t\<lparr>curr_proc_idx := i\<rparr>) w \<inter> state_bytes Q t = {}"
    unfolding sb using tp(2) state_apart [OF L Q g t i8] by blast
qed

lemma second_turn:
  assumes L: "fv_layout_ok L" and Q: "Process_layout_ok L Q" and g: "gmem_ok w" and b: "between Q t 1 w"
    and s: "started Q t (mram w) 2 pc2" and sp: "cpu_regs w SP = stack_top Q (proc_at Q t 1)"
  shows "\<exists>w'. give_up p L Q w = Ret w' \<and> between Q t 2 w' \<and> MEMORY w' = MEMORY w \<and>
    cpu_pc w' = pc2 \<and> cpu_regs w' SP = stack_top Q (proc_at Q t 2)"
proof -
  let ?t = "t\<lparr>curr_proc_idx := 1\<rparr>"
  have less: "(1::usize) < PROC_MAX" "(2::usize) < PROC_MAX" "(1::usize) < 7" "(1::usize) \<noteq> 2" by (simp_all add: PROC_MAX_def)
  have t: "table_ok Q w t" "procs_are w ?t" using b by (auto simp: between_def)
  then have t': "table_ok Q w ?t" using table_ok_cong [of w w ?t t Q] by simp
  note os = own_switch [OF L Q g t(1) less(3) sp]
  have pick: "pick (runnable Q ?t (mram w)) (curr_proc_idx ?t) = 2"
    using b by (simp add: between_def runnable_table pick_two)
  have ap: "switch_bytes Q ?t w \<inter> proc_bytes Q (proc_at Q t 2) = {}"
    using os(2) procs_disjoint [OF g t(1) less(1,2,4)] by blast
  have cur: "curr_proc_idx ?t < PROC_MAX" using less(1) by simp
  obtain w' where w': "give_up p L Q w = Ret w'" "cpu_pc w' = pc2" "cpu_regs w' SP = stack_top Q (proc_at Q t 2)"
    using give_up_starts [OF Q g t(2) t' cur os(1), of 2 pc2 p, unfolded pick, unfolded runnable_table] s ap by (auto simp: started_def)
  have "between Q t 2 w'" using between_turn [OF b os(1,3), of p L] w'(1) by simp
  moreover have "MEMORY w' = MEMORY w" using give_up_state [OF t(2) t' cur, of p L] w'(1) by auto
  ultimately show ?thesis using w' by blast
qed

text \<open>The boot code creates three processes in a row.\<close>

lemma started_keep:
  assumes L: "fv_layout_ok L" and Q: "Process_layout_ok L Q" and inv: "procs_inv L Q base end_addr w t ks n"
    and i: "i < n" and u: "\<forall>i<n. unchanged_on (proc_bytes Q (proc_at Q t i)) (mram w) (mram w')"
    and s: "started Q t (mram w) i start_pc"
  shows "started Q t (mram w') i start_pc"
proof -
  have g: "gmem_ok w" and t: "table_ok Q w t" and n: "n \<le> PROC_MAX" using inv by (auto simp: procs_inv_def kmem_ok_def)
  have i8: "i < PROC_MAX" using i n by (rule less_le_trans)
  show ?thesis
    using proc_started_on [OF Q proc_range(1) [OF g t i8] spec [OF u, of i, THEN mp, OF i] table_field_sub(3) [OF L Q g t i8]] s
    by (simp add: started_def)
qed

text \<open>The process subsystem keeps the promises of its interface.\<close>

definition manages :: "fv_layout \<Rightarrow> Process_layout \<Rightarrow> usize \<Rightarrow> usize \<Rightarrow> ProcTable \<Rightarrow> usize \<Rightarrow> 'z proc_state_scheme \<Rightarrow> bool" where
  "manages L Q base end_addr t n w \<longleftrightarrow>
     fv_layout_ok L \<and> Process_layout_ok L Q \<and> 4096 dvd unat base \<and> 4096 dvd unat end_addr \<and> base \<le> end_addr \<and>
     procs_are w t \<and> (\<exists>ks. procs_inv L Q base end_addr w t ks n)"

interpretation procs: process_manager "proc_new p L Q base end_addr" "manages L Q base end_addr t" PROC_MAX
  "\<lambda>r w. room w r" "2 + roots base end_addr" "\<lambda>i x w. started Q t (mram w) i x" grows for p L Q base end_addr t
proof
  fix n x :: usize and w :: "'z proc_state_scheme" and r
  assume m: "manages L Q base end_addr t n w" and n: "n < PROC_MAX" and rm: "room w (2 + roots base end_addr + r)"
  obtain ks where w: "fv_layout_ok L" "Process_layout_ok L Q" "procs_are w t" "procs_inv L Q base end_addr w t ks n"
      "4096 dvd unat base" "4096 dvd unat end_addr" "base \<le> end_addr"
    using m by (auto simp: manages_def)
  have "room w (2 + roots base end_addr)" using rm by (rule room_mono) simp
  then obtain w' k where w': "proc_new p L Q base end_addr x w = Ret w'" "procs_are w' t"
      "procs_inv L Q base end_addr w' t (ks(n := k)) (n + 1)" "proc_started Q (mram w') (proc_at Q t n) n x"
      "\<forall>i<n. unchanged_on (proc_bytes Q (proc_at Q t i)) (mram w) (mram w')" "grows w w'" "room w' r"
    using proc_new_ok [OF w(1-4) n w(5-7), of p x] rm by blast
  moreover have "\<forall>i<n. \<forall>y. started Q t (mram w) i y \<longrightarrow> started Q t (mram w') i y"
    using started_keep [OF w(1,2,4) _ w'(5)] by blast
  ultimately show "\<exists>w'. proc_new p L Q base end_addr x w = Ret w' \<and> manages L Q base end_addr t (n + 1) w' \<and>
      started Q t (mram w') n x \<and> room w' r \<and> grows w w' \<and>
      (\<forall>i<n. \<forall>y. started Q t (mram w) i y \<longrightarrow> started Q t (mram w') i y)"
    using w by (auto simp: manages_def started_def)
qed (auto simp: manages_def procs_inv_def grows_def)

lemma three_new:
  assumes L: "fv_layout_ok L" and Q: "Process_layout_ok L Q" and t: "procs_are w t"
    and inv: "procs_inv L Q base end_addr w t ks 0"
    and al: "4096 dvd unat base" "4096 dvd unat end_addr" "base \<le> end_addr"
    and rm: "room w (3 * (2 + roots base end_addr))"
  shows "\<exists>w1 w2 w3 ks'. proc_new p L Q base end_addr pc0 w = Ret w1 \<and> proc_new p L Q base end_addr pc1 w1 = Ret w2 \<and>
    proc_new p L Q base end_addr pc2 w2 = Ret w3 \<and> procs_are w3 t \<and> procs_inv L Q base end_addr w3 t ks' 3 \<and>
    started Q t (mram w3) 0 pc0 \<and> started Q t (mram w3) 1 pc1 \<and> started Q t (mram w3) 2 pc2 \<and> grows w w3"
proof -
  have "manages L Q base end_addr t 0 w" using assms(1-7) by (auto simp: manages_def)
  moreover have "unat (0::usize) + length [pc0, pc1, pc2] \<le> unat PROC_MAX" by (simp add: PROC_MAX_def)
  moreover have "room w (length [pc0, pc1, pc2] * (2 + roots base end_addr) + 0)"
    using rm by (rule room_mono) simp
  ultimately obtain w3 where w3: "new_all (proc_new p L Q base end_addr) [pc0, pc1, pc2] w = Ret w3"
      "manages L Q base end_addr t (0 + of_nat (length [pc0, pc1, pc2])) w3" "grows w w3"
      "\<forall>k<length [pc0, pc1, pc2]. started Q t (mram w3) (0 + of_nat k) ([pc0, pc1, pc2] ! k)"
    using procs.new_all_ok [of L Q base end_addr t 0 w "[pc0, pc1, pc2]" 0 p] by blast
  have "started Q t (mram w3) 0 pc0" "started Q t (mram w3) 1 pc1" "started Q t (mram w3) 2 pc2"
    using spec [OF w3(4), of 0] spec [OF w3(4), of 1] spec [OF w3(4), of 2] by simp_all
  then show ?thesis using w3(1-3) by (auto simp: manages_def obind_eq_Ret)
qed

end
