(* ===== verification/Proc_Properties.thy ===== *)
theory Proc_Properties
  imports Proc_Runs Vm_Properties
begin

text \<open>
  The properties of processes and of the scheduler, with witnesses on a kernel that manages 4 MB.
\<close>

section \<open>A kernel with 4 MB\<close>

definition memory1k :: Memory where
  "memory1k =
     \<lparr>m_start = PhysAddr 0x80400000 None, m_end = PhysAddr 0x80800000 None, mem_size = 0x400000,
      buddy_node_count = 2047, buddy_high_order = 22, buddy_low_order = 12, buddy_stack_size = 8188,
      buddy_stack = replicate 11 0, buddy_meta = replicate 2047 Free\<rparr>"

definition kernel1k :: proc_state where
  "kernel1k = \<lparr>mram = (\<lambda>_. 0), MEMORY = \<lparr>once = \<lparr>state = 2\<rparr>, oc_value = Some \<lparr>lock = 0, data = memory1k\<rparr>\<rparr>,
     PROC_TABLE = OnceCell_new, cpu_regs = (\<lambda>r. if r = SP then 0x80300000 else 0), cpu_csrs = (\<lambda>_. 0), cpu_pc = 0\<rparr>"

text \<open>A layout of \<open>Process\<close> that the compiler may choose.\<close>

definition plain_process :: Process_layout where
  "plain_process = \<lparr>proc_size = 2100, off_stack = 48, off_sp = 0, off_pid = 4, off_root = 8, off_second = 28,
     off_state = 2096\<rparr>"

lemma plain_process_ok: "Process_layout_ok plain_layout plain_process"
  by (simp add: Process_layout_ok_def plain_layout_def plain_process_def proc_fields_def)

lemma memory1k_ok: "mem_ok memory1k" "capacity memory1k = 0x400000" "live memory1k = {}"
proof -
  have "layout_ok 1024 0x80400000 0x80800000 0x80300000 0x80380000" by (simp add: layout_ok_def)
  moreover have l: "ilog2_nat 1024 = 10" using ilog2_nat_power [of 10] by simp
  moreover have "fresh_memory 1024 0x80400000 0x80800000 memory1k"
    by (simp add: fresh_memory_def memory1k_def l)
  ultimately show "mem_ok memory1k" "capacity memory1k = 0x400000" "live memory1k = {}"
    using fresh_memory_ok [of 1024] by (auto simp: capacity_def)
qed

lemma gmem1k [simp]: "gmem kernel1k = memory1k"
  by (simp add: gmem_def kernel1k_def)

lemma kernel1k_ok: "kmem_ok kernel1k" "gcapacity kernel1k = 0x400000" "room kernel1k 128" "PROC_TABLE kernel1k = OnceCell_new"
proof -
  have "memory_is kernel1k memory1k" by (simp add: memory_is_def kernel1k_def completed_new)
  then show "kmem_ok kernel1k"
    using memory1k_ok by (simp add: kmem_ok_def gmem_ok_def zero_free_def) (simp add: kernel1k_def)
  show c: "gcapacity kernel1k = 0x400000" using memory1k_ok by (simp add: gcapacity_def)
  have "gregion kernel1k = {0x80400000..<0x80800000}"
    using memory1k_ok by (simp add: gregion_def levels_def) (simp add: memory1k_def extent_def)
  then show "room kernel1k 128" using memory1k_ok c by (simp add: room_def glive_def)
  show "PROC_TABLE kernel1k = OnceCell_new" by (simp add: kernel1k_def)
qed

text \<open>The kernel after \<open>proc::init\<close>, and with its first process.\<close>

definition ret_or :: "'a \<Rightarrow> 'a outcome \<Rightarrow> 'a" where
  "ret_or d r = (case r of Ret a \<Rightarrow> a | _ \<Rightarrow> d)"

definition kernel1k_init :: proc_state where
  "kernel1k_init = ret_or kernel1k (proc_init Release plain_process kernel1k)"

definition procs1k :: ProcTable where
  "procs1k = data (the (oc_value (PROC_TABLE kernel1k_init)))"

abbreviation new1k :: "usize \<Rightarrow> proc_state \<Rightarrow> proc_state outcome" where
  "new1k \<equiv> proc_new Release plain_layout plain_process 0x80400000 0x80800000"

lemma roots1k: "roots 0x80400000 0x80800000 \<le> 2"
  using roots_le [of "0x80400000" "0x80800000"] by simp

lemma kernel1k_init:
  "proc_init Release plain_process kernel1k = Ret kernel1k_init" "procs_are kernel1k_init procs1k"
  "curr_proc_idx procs1k = 0" "room kernel1k_init 127"
  "procs_inv plain_layout plain_process base end_addr kernel1k_init procs1k ks 0"
proof -
  have c: "32768 \<le> gcapacity kernel1k" using kernel1k_ok(2) by simp
  have r: "room kernel1k (Suc 127)" using kernel1k_ok(3) by simp
  note i = proc_init_ok [OF plain_layout_ok plain_process_ok kernel1k_ok(1) c kernel1k_ok(4) r, of Release]
  from i [of base end_addr ks] obtain w' t where w': "proc_init Release plain_process kernel1k = Ret w'" "procs_are w' t"
      "curr_proc_idx t = 0" "room w' 127" "procs_inv plain_layout plain_process base end_addr w' t ks 0"
    by blast
  then have e: "w' = kernel1k_init" by (simp add: kernel1k_init_def ret_or_def)
  have "t = procs1k" using w'(2) by (simp add: procs1k_def e procs_are_def completed_def)
  with w' e show "proc_init Release plain_process kernel1k = Ret kernel1k_init" "procs_are kernel1k_init procs1k"
    "curr_proc_idx procs1k = 0" "room kernel1k_init 127"
    "procs_inv plain_layout plain_process base end_addr kernel1k_init procs1k ks 0" by simp_all
qed


text \<open>With three processes, and after the first and the second switch.\<close>

definition kernel1k_3 :: proc_state where
  "kernel1k_3 = ret_or kernel1k (obind (new1k 0 kernel1k_init) (\<lambda>w. obind (new1k 0x80201000 w) (new1k 0x80202000)))"

definition kernel1k_a :: proc_state where
  "kernel1k_a = ret_or kernel1k (give_up Release plain_layout plain_process kernel1k_3)"

definition kernel1k_b :: proc_state where
  "kernel1k_b = ret_or kernel1k (give_up Release plain_layout plain_process kernel1k_a)"

lemma kernel1k_frame:
  "gregion kernel1k_init = {0x80400000..<0x80800000}" "cpu_regs kernel1k_init SP = 0x80300000"
proof -
  have c: "32768 \<le> gcapacity kernel1k" using kernel1k_ok(2) by simp
  have r: "room kernel1k (Suc 127)" using kernel1k_ok(3) by simp
  have g: "gregion kernel1k = {0x80400000..<0x80800000}"
    using memory1k_ok by (simp add: gregion_def levels_def) (simp add: memory1k_def extent_def)
  have "cpu_regs kernel1k SP = 0x80300000" by (simp add: kernel1k_def)
  then show "gregion kernel1k_init = {0x80400000..<0x80800000}" "cpu_regs kernel1k_init SP = 0x80300000"
    using proc_init_ok [OF plain_layout_ok plain_process_ok kernel1k_ok(1) c kernel1k_ok(4) r, of Release 0 0 "\<lambda>_. 0"]
      kernel1k_init(1) g by auto
qed

lemma aligned1k: "4096 dvd unat (0x80400000 :: usize)" "4096 dvd unat (0x80800000 :: usize)" "(0x80400000 :: usize) \<le> 0x80800000"
  by simp_all

lemma kernel1k_3:
  "procs_are kernel1k_3 procs1k" "\<exists>ks. procs_inv plain_layout plain_process 0x80400000 0x80800000 kernel1k_3 procs1k ks 3"
  "started plain_process procs1k (mram kernel1k_3) 1 0x80201000" "started plain_process procs1k (mram kernel1k_3) 2 0x80202000"
  "gregion kernel1k_3 = {0x80400000..<0x80800000}" "cpu_regs kernel1k_3 SP = 0x80300000"
proof -
  have rm: "room kernel1k_init (3 * (2 + roots 0x80400000 0x80800000))"
    using kernel1k_init(4) by (rule room_mono) (use roots1k in simp)
  obtain w1 w2 w3 ks where w: "new1k 0 kernel1k_init = Ret w1" "new1k 0x80201000 w1 = Ret w2" "new1k 0x80202000 w2 = Ret w3"
      "procs_are w3 procs1k" "procs_inv plain_layout plain_process 0x80400000 0x80800000 w3 procs1k ks 3"
      "started plain_process procs1k (mram w3) 1 0x80201000" "started plain_process procs1k (mram w3) 2 0x80202000"
      "grows kernel1k_init w3"
    using three_new [OF plain_layout_ok plain_process_ok kernel1k_init(2,5) aligned1k rm, of Release 0 "0x80201000" "0x80202000"]
    by blast
  have e: "kernel1k_3 = w3" using w(1-3) by (simp add: kernel1k_3_def ret_or_def)
  have "cpu_regs w3 = cpu_regs kernel1k_init" using w(8) by (intro more_simps(2)) (simp add: grows_def)
  then show "procs_are kernel1k_3 procs1k" "\<exists>ks. procs_inv plain_layout plain_process 0x80400000 0x80800000 kernel1k_3 procs1k ks 3"
    "started plain_process procs1k (mram kernel1k_3) 1 0x80201000" "started plain_process procs1k (mram kernel1k_3) 2 0x80202000"
    "gregion kernel1k_3 = {0x80400000..<0x80800000}" "cpu_regs kernel1k_3 SP = 0x80300000"
    using w(4-8) kernel1k_frame unfolding e by (auto simp: grows_def)
qed

lemma kernel1k_3_table: "gmem_ok kernel1k_3" "table_ok plain_process kernel1k_3 procs1k"
  using kernel1k_3(2) by (auto simp: procs_inv_def kmem_ok_def)

lemma kernel1k_3_stack:
  "switchable (cpu_regs kernel1k_3 SP) (proc_at plain_process procs1k 0 + off_sp plain_process)"
  "frame_bytes (cpu_regs kernel1k_3 SP) \<inter> table_bytes plain_process procs1k = {}"
proof -
  note g = kernel1k_3_table
  have z: "(0::usize) < PROC_MAX" by (simp add: PROC_MAX_def)
  have lb: "table_bytes plain_process procs1k \<subseteq> {0x80400000..<0x80800000}"
    using table_bytes_live [OF g] live_in_region [OF g(1)] kernel1k_3(5) unfolding live_bytes_def by blast
  have fb: "frame_bytes (cpu_regs kernel1k_3 SP) = {0x802FFFCC..<0x80300000}"
    by (simp add: kernel1k_3(6) frame_bytes_def)
  show d: "frame_bytes (cpu_regs kernel1k_3 SP) \<inter> table_bytes plain_process procs1k = {}"
    unfolding fb using lb by fastforce
  note sc = sp_cell [OF plain_process_ok proc_range(1) [OF g z]]
  have "sp_field plain_process (proc_at plain_process procs1k 0) \<subseteq> table_bytes plain_process procs1k"
    using table_field_sub [OF plain_layout_ok plain_process_ok g z] by blast
  then have "frame_bytes (cpu_regs kernel1k_3 SP) \<inter> cell_bytes (proc_at plain_process procs1k 0 + off_sp plain_process) = {}"
    unfolding sc(1) using d by blast
  moreover have "52 \<le> unat (cpu_regs kernel1k_3 SP)" by (simp add: kernel1k_3(6))
  ultimately show "switchable (cpu_regs kernel1k_3 SP) (proc_at plain_process procs1k 0 + off_sp plain_process)"
    using sc(2) by (simp add: switchable_def)
qed


section \<open>Creating processes\<close>

text \<open>
  C31. \<open>proc::init\<close> on consistent, zeroed memory establishes the invariant of the process subsystem
  with no process, and the lock is free.
\<close>

theorem proc_init_invariant:
  assumes "fv_layout_ok L" "Process_layout_ok L Q" "kmem_ok w" "32768 \<le> gcapacity w"
    and "PROC_TABLE w = OnceCell_new" "room w 1"
  shows "\<exists>w' t. proc_init p Q w = Ret w' \<and> procs_are w' t \<and> curr_proc_idx t = 0 \<and>
    procs_inv L Q base end_addr w' t ks 0"
  using proc_init_ok [OF assms(1-5), of 0 p base end_addr ks] assms(6) by auto

theorem proc_init_invariant_witness:
  "\<exists>w' t. proc_init Release plain_process kernel1k = Ret w' \<and> procs_are w' t \<and> curr_proc_idx t = 0 \<and>
     procs_inv plain_layout plain_process 0x80400000 0x80800000 w' t (\<lambda>_. 0) 0"
  using proc_init_invariant [OF plain_layout_ok plain_process_ok kernel1k_ok(1) _ kernel1k_ok(4), of Release
      "0x80400000" "0x80800000" "\<lambda>_. 0"] kernel1k_ok(2) room_mono [OF kernel1k_ok(3), of 1] by simp

text \<open>
  C32. \<open>proc::new\<close> keeps the invariant: with room in the memory and a free slot it takes the first free
  slot \<open>n\<close>; the new process has its index, is runnable and will start at \<open>start_pc\<close> on an empty stack;
  the hardware translates its kernel addresses to themselves and faults on all others; its page
  tables are its own; the records of the other processes are untouched, and the lock is released.
\<close>

theorem proc_new_correct:
  assumes "fv_layout_ok L" "Process_layout_ok L Q" "procs_are w t" "procs_inv L Q base end_addr w t ks n"
    and "n < PROC_MAX" "4096 dvd unat base" "4096 dvd unat end_addr" "base \<le> end_addr"
    and "room w (2 + roots base end_addr)"
  shows "\<exists>w' k. proc_new p L Q base end_addr start_pc w = Ret w' \<and> procs_are w' t \<and>
    procs_inv L Q base end_addr w' t (ks(n := k)) (n + 1) \<and>
    load32 (mram w') (proc_at Q t n + off_pid Q) = n \<and> proc_in_state Q (mram w') (proc_at Q t n) Runnable \<and>
    load32 (mram w') (proc_at Q t n + off_sp Q) = stack_top Q (proc_at Q t n) - 52 \<and>
    load_words (mram w') (stack_top Q (proc_at Q t n) - 52) 13 = start_pc # replicate 12 0 \<and>
    (\<forall>va. sv32_walk (mram w') (root_pt_addr (load_page_table L Q (mram w') (proc_at Q t n))) va =
       (if base \<le> va \<and> va < end_addr then Some (page_of va, PAGE_R OR PAGE_W OR PAGE_X OR PAGE_V) else None)) \<and>
    (\<forall>i<n. unchanged_on (proc_bytes Q (proc_at Q t i)) (mram w) (mram w'))"
proof -
  obtain w' k where w': "proc_new p L Q base end_addr start_pc w = Ret w'" "procs_are w' t"
      "procs_inv L Q base end_addr w' t (ks(n := k)) (n + 1)" "proc_started Q (mram w') (proc_at Q t n) n start_pc"
      "\<forall>i<n. unchanged_on (proc_bytes Q (proc_at Q t i)) (mram w) (mram w')"
    using proc_new_ok [OF assms(1-8), of p start_pc] assms(9) by blast
  have "n < n + 1" using assms(5) by (simp add: PROC_MAX_def word_less_nat_alt unat_word_ariths)
  then have "proc_inv L Q base end_addr w' t k n" using w'(3) by (auto simp: procs_inv_def)
  then have sp: "vm_lookup w' (load_page_table L Q (mram w') (proc_at Q t n)) va =
      (if base \<le> va \<and> va < end_addr then Some (page_of va, 0xF) else None)" for va
    by (simp add: proc_inv_def proc_space_def)
  have top: "stack_top Q (proc_at Q t n) - 52 = first_sp Q (proc_at Q t n)"
    by (simp add: stack_top_def first_sp_def)
  have fl: "PAGE_R OR PAGE_W OR PAGE_X OR PAGE_V = (0xF :: usize)"
    by (simp add: PAGE_R_def PAGE_W_def PAGE_X_def PAGE_V_def)
  show ?thesis
    using w' sp unfolding proc_started_def top fl vm_lookup_def by blast
qed

theorem proc_new_correct_witness:
  "\<exists>w'. new1k 0x80201000 kernel1k_init = Ret w' \<and> procs_are w' procs1k \<and>
     sv32_walk (mram w') (root_pt_addr (load_page_table plain_layout plain_process (mram w')
       (proc_at plain_process procs1k 0))) 0x80400010 = Some (0x80400000, 0xF)"
proof -
  have r: "room kernel1k_init (2 + roots 0x80400000 0x80800000)"
    using kernel1k_init(4) by (rule room_mono) (use roots1k in simp)
  have z: "(0::usize) < PROC_MAX" by (simp add: PROC_MAX_def)
  have e: "page_of 0x80400010 = 0x80400000" "PAGE_R OR PAGE_W OR PAGE_X OR PAGE_V = (0xF :: usize)"
    by (simp_all add: page_of_def PAGE_R_def PAGE_W_def PAGE_X_def PAGE_V_def drop_bit_eq_div push_bit_eq_mult)
  from proc_new_correct [OF plain_layout_ok plain_process_ok kernel1k_init(2,5) z aligned1k r, of Release "0x80201000"]
  obtain w' where w': "new1k 0x80201000 kernel1k_init = Ret w'" "procs_are w' procs1k"
      "\<forall>va. sv32_walk (mram w') (root_pt_addr (load_page_table plain_layout plain_process (mram w')
         (proc_at plain_process procs1k 0))) va =
       (if 0x80400000 \<le> va \<and> va < 0x80800000 then Some (page_of va, PAGE_R OR PAGE_W OR PAGE_X OR PAGE_V) else None)"
    by blast
  then show ?thesis using e spec [OF w'(3), of "0x80400010"] by simp
qed

text \<open>
  C33. \<open>proc::new\<close> always ends, in both build profiles. It returns with a new process; or it panics in
  \<open>unwrap\<close>, and then the memory is short of blocks for the tables; or, with all eight slots in use, it
  panics in \<open>expect\<close>. In particular the mapping loop terminates.
\<close>

theorem proc_new_terminates:
  assumes "fv_layout_ok L" "Process_layout_ok L Q" "procs_are w t" "procs_inv L Q base end_addr w t ks n"
    and "n \<le> PROC_MAX" "4096 dvd unat base" "4096 dvd unat end_addr" "base \<le> end_addr"
  shows "n < PROC_MAX \<and> (\<exists>w'. proc_new p L Q base end_addr start_pc w = Ret w') \<or>
    n < PROC_MAX \<and> proc_new p L Q base end_addr start_pc w = Panic UnwrapNone \<and> \<not> room w (2 + roots base end_addr) \<or>
    n = PROC_MAX \<and> proc_new p L Q base end_addr start_pc w = Panic (Expect ''no free process slots.'')"
proof (cases "n = PROC_MAX")
  case True
  then show ?thesis using proc_new_full [OF assms(3)] assms(4) by blast
next
  case False
  then have "n < PROC_MAX" using assms(5) by simp
  then show ?thesis using proc_new_ok [OF assms(1-4) _ assms(6-8), of p start_pc] by blast
qed

theorem proc_new_terminates_witness:
  "\<exists>w'. proc_new Dev plain_layout plain_process 0x80400000 0x80800000 7 kernel1k_init = Ret w'"
proof -
  have z: "(0::usize) \<le> PROC_MAX" "(0::usize) \<noteq> PROC_MAX" by (simp_all add: PROC_MAX_def)
  have "room kernel1k_init (2 + roots 0x80400000 0x80800000)"
    using kernel1k_init(4) by (rule room_mono) (use roots1k in simp)
  then show ?thesis
    using proc_new_terminates [OF plain_layout_ok plain_process_ok kernel1k_init(2,5) z(1) aligned1k, of Dev 7] z(2) by blast
qed


section \<open>The scheduler\<close>

text \<open>
  C34. \<open>give_up\<close> implements the abstract scheduler: it always switches, to the first runnable process
  other than the current one among 1 to 7, or to the idle process 0 when there is none. It makes that
  process the current one, its page table the address space and the end of its stack the trap stack,
  releases the lock, and leaves the allocator alone.
\<close>

theorem give_up_schedules:
  assumes "procs_are w t" "table_ok Q w t" "curr_proc_idx t < PROC_MAX"
  shows "\<exists>w' n. give_up p L Q w = Ret w' \<and> procs_are w' (t\<lparr>curr_proc_idx := n\<rparr>) \<and>
    (1 \<le> n \<and> n < PROC_MAX \<and> proc_in_state Q (mram w) (proc_at Q t n) Runnable \<and> n \<noteq> curr_proc_idx t
     \<or> n = 0 \<and> (\<forall>j. 1 \<le> j \<and> j < PROC_MAX \<and> proc_in_state Q (mram w) (proc_at Q t j) Runnable \<longrightarrow> j = curr_proc_idx t)) \<and>
    (\<forall>j. 1 \<le> j \<and> j < n \<and> proc_in_state Q (mram w) (proc_at Q t j) Runnable \<longrightarrow> j = curr_proc_idx t) \<and>
    cpu_csrs w' SATP = (SATP_SV32 OR root_pt_addr (load_page_table L Q (mram w) (proc_at Q t n)) div PAGE_SIZE) \<and>
    cpu_csrs w' SSCRATCH = stack_top Q (proc_at Q t n) \<and> MEMORY w' = MEMORY w"
proof -
  let ?n = "pick (runnable Q t (mram w)) (curr_proc_idx t)"
  obtain w' where w': "give_up p L Q w = Ret w'" "procs_are w' (t\<lparr>curr_proc_idx := ?n\<rparr>)"
      "cpu_csrs w' SATP = satp_of L Q (mram w) (proc_at Q t ?n)" "cpu_csrs w' SSCRATCH = stack_top Q (proc_at Q t ?n)"
      "MEMORY w' = MEMORY w"
    using give_up_state [OF assms, of p L] by blast
  have r: "runnable Q t (mram w) = (\<lambda>i. proc_in_state Q (mram w) (proc_at Q t i) Runnable)"
    by (simp add: runnable_def fun_eq_iff)
  have "1 \<le> ?n \<and> ?n < PROC_MAX \<and> runnable Q t (mram w) ?n \<and> ?n \<noteq> curr_proc_idx t
     \<or> ?n = 0 \<and> (\<forall>j. 1 \<le> j \<and> j < PROC_MAX \<and> runnable Q t (mram w) j \<longrightarrow> j = curr_proc_idx t)"
    using pick_cases [of "runnable Q t (mram w)" "curr_proc_idx t"] by blast
  moreover have "\<forall>j. 1 \<le> j \<and> j < ?n \<and> runnable Q t (mram w) j \<longrightarrow> j = curr_proc_idx t"
    using pick_least by blast
  moreover have "PAGE_SIZE = 4096" by (simp add: PAGE_SIZE_def)
  ultimately show ?thesis
    using w' by (intro exI [of _ w'] exI [of _ ?n]) (simp add: satp_of_def r)
qed

lemma kernel1k_3_cur: "curr_proc_idx procs1k < PROC_MAX"
  by (simp add: kernel1k_init(3) PROC_MAX_def)

theorem give_up_schedules_witness:
  "\<exists>w' n. give_up Release plain_layout plain_process kernel1k_3 = Ret w' \<and>
     procs_are w' (procs1k\<lparr>curr_proc_idx := n\<rparr>) \<and> (1 \<le> n \<or> n = 0)"
  using give_up_schedules [OF kernel1k_3(1) kernel1k_3_table(2) kernel1k_3_cur, of Release plain_layout] by blast

text \<open>
  C35. The first switch to a new process enters it at its start address, with an empty stack of its
  own, all saved registers zero. The frame that \<open>create_process\<close> wrote is what \<open>switch_context\<close> reads.
\<close>

theorem give_up_starts_process:
  assumes "Process_layout_ok L Q" "gmem_ok w" "procs_are w t" "table_ok Q w t" "curr_proc_idx t < PROC_MAX"
    and "stack_ok Q t w" "pick (runnable Q t (mram w)) (curr_proc_idx t) = n"
    and "proc_started Q (mram w) (proc_at Q t n) i start_pc"
    and "switch_bytes Q t w \<inter> proc_bytes Q (proc_at Q t n) = {}"
  shows "\<exists>w'. give_up p L Q w = Ret w' \<and> cpu_pc w' = start_pc \<and> cpu_regs w' SP = stack_top Q (proc_at Q t n) \<and>
    cpu_regs w' S0 = 0 \<and> cpu_regs w' S11 = 0"
proof -
  from give_up_starts [OF assms(1-6), of i start_pc p] assms(7-9) obtain w' where
    "give_up p L Q w = Ret w'" "cpu_pc w' = start_pc" "cpu_regs w' SP = stack_top Q (proc_at Q t n)"
    "\<forall>r\<in>set callee_saved - {RA}. cpu_regs w' r = 0" by auto
  then show ?thesis by (auto simp: callee_saved_def)
qed

text \<open>The first process starts from the boot context.\<close>

lemma kernel1k_pick: "pick (runnable plain_process procs1k (mram kernel1k_3)) (curr_proc_idx procs1k) = 1"
  using pick_two [OF started_runnable [OF kernel1k_3(3)] started_runnable [OF kernel1k_3(4)]] kernel1k_init(3) by simp

lemma kernel1k_3_switch:
  "stack_ok plain_process procs1k kernel1k_3"
  "switch_bytes plain_process procs1k kernel1k_3 \<inter> proc_bytes plain_process (proc_at plain_process procs1k 1) = {}"
proof -
  have less: "(0::usize) < PROC_MAX" "(1::usize) < PROC_MAX" "(0::usize) \<noteq> 1" by (simp_all add: PROC_MAX_def)
  note g = kernel1k_3_table
  show "stack_ok plain_process procs1k kernel1k_3" using kernel1k_3_stack(1) by (simp add: stack_ok_def kernel1k_init(3))
  show "switch_bytes plain_process procs1k kernel1k_3 \<inter> proc_bytes plain_process (proc_at plain_process procs1k 1) = {}"
    using kernel1k_3_stack(2) sp_cell(1) [OF plain_process_ok proc_range(1) [OF g less(1)]]
      table_field_sub(2) [OF plain_layout_ok plain_process_ok g less(1)]
      table_field_sub(4) [OF plain_layout_ok plain_process_ok g less(2)] procs_disjoint [OF g less]
    unfolding switch_bytes_def kernel1k_init(3) by blast
qed

theorem give_up_starts_process_witness:
  "\<exists>w'. give_up Release plain_layout plain_process kernel1k_3 = Ret w' \<and> cpu_pc w' = 0x80201000 \<and>
     cpu_regs w' SP = stack_top plain_process (proc_at plain_process procs1k 1)"
  using give_up_starts_process [OF plain_process_ok kernel1k_3_table(1) kernel1k_3(1) kernel1k_3_table(2) kernel1k_3_cur
      kernel1k_3_switch(1) kernel1k_pick kernel1k_3(3) [unfolded started_def] kernel1k_3_switch(2), of Release] by blast


lemma gmem_ok_cong: "MEMORY w' = MEMORY w \<Longrightarrow> gmem_ok w' = gmem_ok w"
  by (simp add: gmem_ok_def memory_is_def gmem_def)

lemma kernel1k_a:
  "give_up Release plain_layout plain_process kernel1k_3 = Ret kernel1k_a" "between plain_process procs1k 1 kernel1k_a"
  "started plain_process procs1k (mram kernel1k_a) 2 0x80202000" "gmem_ok kernel1k_a"
  "cpu_regs kernel1k_a SP = stack_top plain_process (proc_at plain_process procs1k 1)"
proof -
  obtain w' where w': "give_up Release plain_layout plain_process kernel1k_3 = Ret w'" "procs_are w' (procs1k\<lparr>curr_proc_idx := 1\<rparr>)"
      "MEMORY w' = MEMORY kernel1k_3" "cpu_regs w' SP = stack_top plain_process (proc_at plain_process procs1k 1)"
      "runnable plain_process procs1k (mram w') 1" "started plain_process procs1k (mram w') 2 0x80202000"
    using first_turn [OF plain_layout_ok plain_process_ok kernel1k_3_table(1) kernel1k_3(1) kernel1k_3_table(2)
        kernel1k_init(3) kernel1k_3(3,4) kernel1k_3_stack, of Release] by blast
  have e: "kernel1k_a = w'" using w'(1) by (simp add: kernel1k_a_def ret_or_def)
  have t: "table_ok plain_process w' procs1k" using table_ok_cong [OF w'(3) refl] kernel1k_3_table(2) by blast
  show "give_up Release plain_layout plain_process kernel1k_3 = Ret kernel1k_a" "between plain_process procs1k 1 kernel1k_a"
    "started plain_process procs1k (mram kernel1k_a) 2 0x80202000" "gmem_ok kernel1k_a"
    "cpu_regs kernel1k_a SP = stack_top plain_process (proc_at plain_process procs1k 1)"
    using w' started_runnable [OF w'(6)] t kernel1k_3_table(1) gmem_ok_cong [OF w'(3)] unfolding e
    by (simp_all add: between_def PROC_MAX_def)
qed

lemma kernel1k_b:
  "give_up Release plain_layout plain_process kernel1k_a = Ret kernel1k_b" "between plain_process procs1k 2 kernel1k_b"
  "gmem_ok kernel1k_b" "cpu_regs kernel1k_b SP = stack_top plain_process (proc_at plain_process procs1k 2)"
proof -
  obtain w' where w': "give_up Release plain_layout plain_process kernel1k_a = Ret w'" "between plain_process procs1k 2 w'"
      "MEMORY w' = MEMORY kernel1k_a" "cpu_regs w' SP = stack_top plain_process (proc_at plain_process procs1k 2)"
    using second_turn [OF plain_layout_ok plain_process_ok kernel1k_a(4,2,3,5), of Release] by blast
  have e: "kernel1k_b = w'" using w'(1) by (simp add: kernel1k_b_def ret_or_def)
  show "give_up Release plain_layout plain_process kernel1k_a = Ret kernel1k_b" "between plain_process procs1k 2 kernel1k_b"
    "gmem_ok kernel1k_b" "cpu_regs kernel1k_b SP = stack_top plain_process (proc_at plain_process procs1k 2)"
    using w' kernel1k_a(4) gmem_ok_cong [OF w'(3)] unfolding e by simp_all
qed

text \<open>
  C36. Giving up is transparent to a process: when it is picked again, after others ran that left its
  saved frame alone, \<open>give_up\<close> returns to it with its stack pointer and callee-saved registers.
\<close>

theorem give_up_transparent:
  assumes "procs_are w t" "table_ok Q w t" "curr_proc_idx t < PROC_MAX" "stack_ok Q t w" "give_up p L Q w = Ret w1"
    and "procs_are w2 t'" "table_ok Q w2 t'" "curr_proc_idx t' < PROC_MAX" "stack_ok Q t' w2" "table t' = table t"
    and "pick (runnable Q t' (mram w2)) (curr_proc_idx t') = curr_proc_idx t"
    and "unchanged_on (switch_bytes Q t w) (mram w1) (mram w2)" "switch_bytes Q t' w2 \<inter> switch_bytes Q t w = {}"
  shows "\<exists>w3. give_up p L Q w2 = Ret w3 \<and> (\<forall>r\<in>set callee_saved. cpu_regs w3 r = cpu_regs w r) \<and>
    cpu_regs w3 SP = cpu_regs w SP \<and> cpu_pc w3 = cpu_regs w RA"
  using assms by (rule give_up_resumes)

theorem give_up_transparent_witness:
  "\<exists>w3. give_up Release plain_layout plain_process kernel1k_b = Ret w3 \<and>
     cpu_regs w3 SP = stack_top plain_process (proc_at plain_process procs1k 1) \<and> cpu_pc w3 = cpu_regs kernel1k_a RA"
proof -
  let ?ta = "procs1k\<lparr>curr_proc_idx := 1\<rparr>" and ?tb = "procs1k\<lparr>curr_proc_idx := 2\<rparr>"
  have ta: "procs_are kernel1k_a ?ta" "table_ok plain_process kernel1k_a procs1k"
    and tb: "procs_are kernel1k_b ?tb" "table_ok plain_process kernel1k_b procs1k"
      "runnable plain_process procs1k (mram kernel1k_b) 1" "runnable plain_process procs1k (mram kernel1k_b) 2"
    using kernel1k_a(2) kernel1k_b(2) by (auto simp: between_def)
  have tab: "table_ok plain_process kernel1k_a ?ta" "table_ok plain_process kernel1k_b ?tb"
    using ta(2) tb(2) by (simp_all add: table_ok_def)
  have less: "(1::usize) < 7" "(2::usize) < 7" "(1::usize) < PROC_MAX" "(2::usize) < PROC_MAX" "(2::usize) \<noteq> 1"
    by (simp_all add: PROC_MAX_def)
  have cur: "curr_proc_idx ?ta < PROC_MAX" "curr_proc_idx ?tb < PROC_MAX" using less by simp_all
  note oa = own_switch [OF plain_layout_ok plain_process_ok kernel1k_a(4) ta(2) less(1) kernel1k_a(5)]
    and ob = own_switch [OF plain_layout_ok plain_process_ok kernel1k_b(3) tb(2) less(2) kernel1k_b(4)]
  have ap: "switch_bytes plain_process ?tb kernel1k_b \<inter> switch_bytes plain_process ?ta kernel1k_a = {}"
    using oa(2) ob(2) procs_disjoint [OF kernel1k_b(3) tb(2) less(4,3,5)] by blast
  have pk: "pick (runnable plain_process ?tb (mram kernel1k_b)) (curr_proc_idx ?tb) = curr_proc_idx ?ta"
    using pick_two [OF tb(3,4), of 2] by (simp add: runnable_table)
  have same: "table ?tb = table ?ta" by simp
  show ?thesis
    using give_up_transparent [OF ta(1) tab(1) cur(1) oa(1) kernel1k_b(1) tb(1) tab(2) cur(2) ob(1) same pk unchanged_on_refl ap]
      kernel1k_a(5) by auto
qed

text \<open>
  C37. Two processes alternate for ever: in every run of a system whose processes 1 and 2 are runnable,
  started from the boot context, the processor goes to 1, 2, 1, 2 and so on, and every call of \<open>give_up\<close>
  returns. No other process ever gets a turn, runnable or not.
\<close>

theorem scheduler_alternates:
  assumes "procs_are w t" "table_ok Q w t" "curr_proc_idx t = 0"
    and "runnable Q t (mram w) 1" "runnable Q t (mram w) 2" "sched_runs p L Q t w is w'"
  shows "is = map (\<lambda>n. if even n then 1 else 2) [0..<length is] \<and> 3 \<notin> set is \<and>
    (stack_ok Q (t\<lparr>curr_proc_idx := current w'\<rparr>) w' \<and>
      switch_bytes Q (t\<lparr>curr_proc_idx := current w'\<rparr>) w' \<inter> state_bytes Q t = {} \<longrightarrow>
      (\<exists>w''. give_up p L Q w' = Ret w''))"
proof -
  have t0: "t\<lparr>curr_proc_idx := 0\<rparr> = t" using assms(3) by (cases t) simp
  have b: "between Q t 0 w" unfolding between_def t0 using assms(1,2,4,5) by (simp add: PROC_MAX_def)
  note r = runs_alternate [OF assms(6) b]
  have m: "map (turn_order 0) [0..<n] = map (\<lambda>n. if even n then 1 else 2) [0..<n]" for n
    by (simp add: turn_order_def)
  then have e: "is = map (\<lambda>n. if even n then 1 else 2) [0..<length is]" using r by metis
  have "set (map (\<lambda>n. if even n then 1 else 2) [0..<k]) \<subseteq> {1, 2 :: usize}" for k by auto
  then have "set is \<subseteq> {1, 2}" using e by metis
  then have "3 \<notin> set is" by auto
  moreover have "\<exists>w''. give_up p L Q w' = Ret w''"
    if s: "stack_ok Q (t\<lparr>curr_proc_idx := current w'\<rparr>) w'"
      "switch_bytes Q (t\<lparr>curr_proc_idx := current w'\<rparr>) w' \<inter> state_bytes Q t = {}"
  proof -
    obtain c where c: "between Q t c w'" using r by blast
    then have "current w' = c" using procs_are_current [of w' "t\<lparr>curr_proc_idx := c\<rparr>"] by (simp add: between_def)
    then show ?thesis using between_turn [OF c, of p L] s by auto
  qed
  ultimately show ?thesis using e by blast
qed

theorem scheduler_alternates_witness:
  "\<exists>w'. sched_runs Release plain_layout plain_process procs1k kernel1k_3 [1, 2] w' \<and>
     [1, 2 :: usize] = map (\<lambda>n. if even n then 1 else 2) [0..<length [1, 2 :: usize]]"
proof -
  have cp: "computes plain_process procs1k w w" for w :: proc_state by (simp add: computes_def)
  have z: "(0::usize) < PROC_MAX" "(1::usize) < 7" by (simp_all add: PROC_MAX_def)
  have c3: "current kernel1k_3 = 0" using procs_are_current [OF kernel1k_3(1)] kernel1k_init(3) by simp
  have t0: "procs1k\<lparr>curr_proc_idx := 0\<rparr> = procs1k" using kernel1k_init(3) by (cases procs1k) simp
  have ca: "current kernel1k_a = 1" and cb: "current kernel1k_b = 2"
    using procs_are_current [of kernel1k_a "procs1k\<lparr>curr_proc_idx := 1\<rparr>"] kernel1k_a(2)
      procs_are_current [of kernel1k_b "procs1k\<lparr>curr_proc_idx := 2\<rparr>"] kernel1k_b(2) by (auto simp: between_def)
  have tb: "table_ok plain_process kernel1k_a procs1k" using kernel1k_a(2) by (simp add: between_def)
  have "state_bytes plain_process procs1k \<subseteq> table_bytes plain_process procs1k"
    using table_field_sub(4,5) [OF plain_layout_ok plain_process_ok kernel1k_3_table] unfolding state_bytes_def by blast
  then have s3: "switch_bytes plain_process procs1k kernel1k_3 \<inter> state_bytes plain_process procs1k = {}"
    using kernel1k_3_stack(2) state_apart [OF plain_layout_ok plain_process_ok kernel1k_3_table z(1)]
      sp_cell(1) [OF plain_process_ok proc_range(1) [OF kernel1k_3_table z(1)]]
    unfolding switch_bytes_def kernel1k_init(3) by blast
  have r1: "sched_runs Release plain_layout plain_process procs1k kernel1k_3 ([] @ [current kernel1k_a]) kernel1k_a"
    by (rule sched_runs.turn [OF sched_runs.start cp]) (simp_all add: c3 t0 kernel1k_3_switch(1) s3 kernel1k_a(1))
  note oa = own_switch [OF plain_layout_ok plain_process_ok kernel1k_a(4) tb z(2) kernel1k_a(5)]
  have "sched_runs Release plain_layout plain_process procs1k kernel1k_3 (([] @ [current kernel1k_a]) @ [current kernel1k_b]) kernel1k_b"
    by (rule sched_runs.turn [OF r1 cp]) (simp_all add: ca kernel1k_b(1) oa(1,3))
  then have r: "sched_runs Release plain_layout plain_process procs1k kernel1k_3 [1, 2] kernel1k_b" by (simp add: ca cb)
  note conjunct1 [OF scheduler_alternates [OF kernel1k_3(1) kernel1k_3_table(2) kernel1k_init(3)
      started_runnable [OF kernel1k_3(3)] started_runnable [OF kernel1k_3(4)] r]]
  with r show ?thesis by (intro exI [of _ kernel1k_b] conjI)
qed

end
