(* ===== verification/Kernel.thy ===== *)
theory Kernel
  imports Proc_Runs Console Trap
begin

text \<open>
  The kernel itself (\<open>src/rust/src/kernel.rs\<close>): \<open>boot\<close>, \<open>kernel_init\<close>, \<open>kernel_main\<close> and the two processes
  it starts. Parameters are the addresses that the linker assigns, the firmware behind the console,
  and what the compiled code of a function does to the registers on its way to the call of
  \<open>switch_context\<close>.
\<close>

section \<open>State and symbols\<close>

record 'f kernel = proc_state +
  kfw :: 'f

record symbols =
  sym_bss :: usize
  sym_bss_end :: usize
  sym_stack_top :: usize
  sym_free_ram :: usize
  sym_free_ram_end :: usize
  sym_allocator_mem :: usize
  sym_allocator_mem_end :: usize
  sym_kernel_base :: usize
  sym_trap_entry :: usize
  sym_proc_a_entry :: usize
  sym_proc_b_entry :: usize

text \<open>The linker script \<open>src/rust/kernel.ld\<close>, for an image whose data ends at \<open>data_end\<close>.\<close>

definition align_up :: "usize \<Rightarrow> usize \<Rightarrow> usize" where
  "align_up n a = (a + (n - 1)) div n * n"

definition kernel_ld :: "usize \<Rightarrow> usize \<Rightarrow> usize \<Rightarrow> usize \<Rightarrow> usize \<Rightarrow> symbols" where
  "kernel_ld data_end bss_size trap a b =
     (let bss = align_up 4 data_end;
          bss_end = bss + bss_size;
          stk = align_up 4 bss_end + 128 * 1024;
          allocator_mem = align_up 4096 stk;
          allocator_mem_end = allocator_mem + 512 * 1024;
          free_ram = align_up 4096 allocator_mem_end;
          free_ram_end = free_ram + 64 * 1024 * 1024
      in \<lparr>sym_bss = bss, sym_bss_end = bss_end, sym_stack_top = stk, sym_free_ram = free_ram,
          sym_free_ram_end = free_ram_end, sym_allocator_mem = allocator_mem,
          sym_allocator_mem_end = allocator_mem_end, sym_kernel_base = 0x80200000,
          sym_trap_entry = trap, sym_proc_a_entry = a, sym_proc_b_entry = b\<rparr>)"


section \<open>Initialisation\<close>

definition write_csr :: "csr \<Rightarrow> usize \<Rightarrow> 'z proc_state_scheme \<Rightarrow> 'z proc_state_scheme" where
  "write_csr c v w = w\<lparr>cpu_csrs := (cpu_csrs w)(c := v)\<rparr>"

definition kernel_println :: "'f firmware \<Rightarrow> string \<Rightarrow> fmt_arg list \<Rightarrow> 'f kernel \<Rightarrow> 'f kernel" where
  "kernel_println ecall fmt args w = w\<lparr>kfw := println ecall fmt args (kfw w)\<rparr>"

definition kernel_print :: "'f firmware \<Rightarrow> string \<Rightarrow> fmt_arg list \<Rightarrow> 'f kernel \<Rightarrow> 'f kernel" where
  "kernel_print ecall fmt args w = w\<lparr>kfw := print ecall fmt args (kfw w)\<rparr>"

text \<open>\<open>start.write_bytes(0, end.offset_from(start) as usize)\<close>.\<close>

definition zero_range :: "usize \<Rightarrow> usize \<Rightarrow> 'z mem_state_scheme \<Rightarrow> 'z mem_state_scheme" where
  "zero_range from_addr end_addr w = w\<lparr>mram := write_bytes (mram w) from_addr 0 (end_addr - from_addr)\<rparr>"

definition kernel_init :: "profile \<Rightarrow> Process_layout \<Rightarrow> symbols \<Rightarrow> 'f firmware \<Rightarrow> usize \<Rightarrow> usize \<Rightarrow> 'f kernel \<Rightarrow>
    'f kernel outcome" where
  "kernel_init p Q S ecall hart_id dtb_addr w =
     (let w = write_csr STVEC (sym_trap_entry S) w in
      if hart_id \<noteq> 0 then
        let w = kernel_println ecall ''hart_id:{}'' [ArgNum hart_id] w in
        loop (\<lambda>w. Ret (Inl w)) w
      else
        let w = zero_range (sym_bss S) (sym_bss_end S) w;
            w = zero_range (sym_allocator_mem S) (sym_allocator_mem_end S) w;
            w = zero_range (sym_free_ram S) (sym_free_ram_end S) w in
        obind (mem_init p (sym_free_ram S) (sym_free_ram_end S) (sym_allocator_mem S) (sym_allocator_mem_end S) w) (\<lambda>w.
        proc_init p Q w))"


section \<open>The main function\<close>

text \<open>
  \<open>kernel_main\<close> up to the switch away from it, with \<open>regs_at\<close> for the registers at that switch; and
  what it does when the scheduler switches back to it, as the idle process.
\<close>

definition kernel_main :: "profile \<Rightarrow> fv_layout \<Rightarrow> Process_layout \<Rightarrow> symbols \<Rightarrow> 'f firmware \<Rightarrow>
    ((reg \<Rightarrow> usize) \<Rightarrow> reg \<Rightarrow> usize) \<Rightarrow> usize \<Rightarrow> usize \<Rightarrow> 'f kernel \<Rightarrow> 'f kernel outcome" where
  "kernel_main p L Q S ecall regs_at hart_id dtb_addr w =
     (let create = proc_new p L Q (sym_kernel_base S) (sym_free_ram_end S) in
      obind (kernel_init p Q S ecall hart_id dtb_addr w) (\<lambda>w.
      let w = kernel_println ecall ''Hello, World!'' [] w in
      obind (create 0 w) (\<lambda>w.
      obind (create (sym_proc_a_entry S) w) (\<lambda>w.
      obind (create (sym_proc_b_entry S) w) (\<lambda>w.
      give_up p L Q (w\<lparr>cpu_regs := regs_at (cpu_regs w)\<rparr>))))))"

definition kernel_main_resumed :: "'f firmware \<Rightarrow> 'f kernel \<Rightarrow> 'f \<times> unit outcome" where
  "kernel_main_resumed ecall w = panic_macro ecall ''src/kernel.rs'' 107 ''switched to idle proc'' [] (kfw w)"

text \<open>The panic handler: a panic of the core library is printed by the kernel's own \<open>panic!\<close>.\<close>

definition panic_handler :: "'f firmware \<Rightarrow> rstr \<Rightarrow> 'f kernel \<Rightarrow> 'f \<times> unit outcome" where
  "panic_handler ecall info w = panic_macro ecall ''src/kernel.rs'' 19 ''{info}'' [ArgStr info] (kfw w)"

text \<open>
  What the core library does when \<open>trap_handler\<close> panics: it calls the handler with a \<open>PanicInfo\<close>, which
  is displayed as the location of the panic and its message.
\<close>

definition PanicInfo_Display :: "string \<Rightarrow> usize \<Rightarrow> usize \<Rightarrow> rstr \<Rightarrow> rstr" where
  "PanicInfo_Display file line column message =
     format_args ''panicked at {}:{}:{}:\<newline>{}'' [ArgStr (lit file), ArgNum line, ArgNum column, ArgStr message]"

definition kernel_trap :: "'f firmware \<Rightarrow> 'f kernel \<Rightarrow> 'f \<times> unit outcome" where
  "kernel_trap ecall w =
     (case trap_entry trap_handler (machine_of w) of
        Ret s \<Rightarrow> (kfw w, Ret ())
      | Panic (Formatted fmt args) \<Rightarrow>
          panic_handler ecall (PanicInfo_Display ''src/trap.rs'' 127 5 (format_args fmt (map ArgNum args))) w
      | Panic e \<Rightarrow> (kfw w, Panic e)
      | Hang \<Rightarrow> (kfw w, Hang))"

text \<open>The inline assembly of \<open>boot\<close>; \<open>r0\<close>, \<open>r1\<close>, \<open>r2\<close> are the registers the compiler picks for the operands.\<close>

definition boot_code :: "reg \<Rightarrow> reg \<Rightarrow> reg \<Rightarrow> instr list" where
  "boot_code r0 r1 r2 = [MV A0 r0, MV A1 r1, MV SP r2, J ''kernel_main'']"

definition boot :: "profile \<Rightarrow> fv_layout \<Rightarrow> Process_layout \<Rightarrow> symbols \<Rightarrow> 'f firmware \<Rightarrow>
    ((reg \<Rightarrow> usize) \<Rightarrow> reg \<Rightarrow> usize) \<Rightarrow> reg \<Rightarrow> reg \<Rightarrow> reg \<Rightarrow> usize \<Rightarrow> usize \<Rightarrow> 'f kernel \<Rightarrow> 'f kernel outcome" where
  "boot p L Q S ecall regs_at r0 r1 r2 hart_id dtb_addr w =
     obind (exec (\<lambda>f s. Ret s) (boot_code r0 r1 r2)
       (set_reg r2 (sym_stack_top S) (set_reg r1 dtb_addr (set_reg r0 hart_id (machine_of w))))) (\<lambda>s.
     kernel_main p L Q S ecall regs_at (regs s A0) (regs s A1) (set_machine s w))"


section \<open>The processes\<close>

definition delay :: "'s \<Rightarrow> 's" where
  "delay w = ((\<lambda>w. w) ^^ 10000000) w"

text \<open>
  One iteration of the loop of a process, from the return of \<open>give_up\<close> (or the entry, when there is
  no \<open>delay\<close> before) to its next call; \<open>code\<close> is what the compiled code does to the process's own
  registers and stack on the way.
\<close>

definition proc_a_entry :: "profile \<Rightarrow> fv_layout \<Rightarrow> Process_layout \<Rightarrow> 'f firmware \<Rightarrow> ('f kernel \<Rightarrow> 'f kernel) \<Rightarrow> bool \<Rightarrow>
    'f kernel \<Rightarrow> 'f kernel outcome" where
  "proc_a_entry p L Q ecall code resumed w =
     (let w = (if resumed then delay w else w);
          w = kernel_print ecall ''a'' [] w
      in give_up p L Q (code w))"

definition proc_b_entry :: "profile \<Rightarrow> fv_layout \<Rightarrow> Process_layout \<Rightarrow> 'f firmware \<Rightarrow> ('f kernel \<Rightarrow> 'f kernel) \<Rightarrow> bool \<Rightarrow>
    'f kernel \<Rightarrow> 'f kernel outcome" where
  "proc_b_entry p L Q ecall code resumed w =
     (let w = (if resumed then delay w else w);
          w = kernel_print ecall ''b'' [] w
      in give_up p L Q (code w))"

text \<open>The turns of the processor after boot: the current process runs until it gives up.\<close>

fun turns :: "profile \<Rightarrow> fv_layout \<Rightarrow> Process_layout \<Rightarrow> 'f firmware \<Rightarrow> ('f kernel \<Rightarrow> 'f kernel) \<Rightarrow> nat \<Rightarrow>
    'f kernel \<Rightarrow> 'f kernel outcome" where
  "turns p L Q ecall code 0 w = Ret w"
| "turns p L Q ecall code (Suc n) w =
     obind (turns p L Q ecall code n w) (\<lambda>w.
       if current w = 1 then proc_a_entry p L Q ecall code (2 \<le> n) w
       else if current w = 2 then proc_b_entry p L Q ecall code (2 \<le> n) w
       else obind (snd (kernel_main_resumed ecall w)) (\<lambda>_. Ret w))"

end
