(* ===== verification/Kernel_Boot.thy ===== *)
theory Kernel_Boot
  imports Kernel
begin

text \<open>
  The boot sequence: the layout that the linker script gives, the initialisation of the memory and
  of the process table, the creation of the three processes and the first switch. On 64 MB it
  cannot run out of memory: at most 64 blocks of at most 32 KB are allocated, and there are 2048
  chunks of that size.
\<close>

section \<open>The layout of the image\<close>

lemma align_up_unat:
  fixes n a :: usize
  assumes "n \<noteq> 0" "unat a + unat n \<le> 2 ^ 32"
  shows "unat a \<le> unat (align_up n a)" "unat (align_up n a) < unat a + unat n" "unat n dvd unat (align_up n a)"
proof -
  have n: "0 < unat n" using assms(1) by (simp add: unat_gt_0)
  then have "(1::usize) \<le> n" by (simp add: word_le_nat_alt)
  then have n1: "unat (n - 1) = unat n - 1" by (subst unat_sub_ok) simp_all
  have s: "unat (a + (n - 1)) = unat a + (unat n - 1)" using n1 n assms(2) by (subst unat_add_ok) auto
  let ?q = "(unat a + (unat n - 1)) div unat n"
  have le: "?q * unat n \<le> unat a + (unat n - 1)" by simp
  have "unat ((a + (n - 1)) div n) = ?q" by (simp add: unat_div s)
  moreover have "?q * unat n < 2 ^ 32" using le n assms(2) by linarith
  ultimately have u: "unat (align_up n a) = ?q * unat n" unfolding align_up_def by (subst unat_mul_ok) simp_all
  have "unat a + (unat n - 1) < ?q * unat n + unat n" using n by (metis dividend_less_div_times add.commute)
  then show "unat a \<le> unat (align_up n a)" using u by linarith
  show "unat (align_up n a) < unat a + unat n" using u le n by linarith
  show "unat n dvd unat (align_up n a)" by (simp add: u)
qed

definition image_ok :: "usize \<Rightarrow> usize \<Rightarrow> bool" where
  "image_ok data_end bss_size \<longleftrightarrow> 0x80200000 \<le> unat data_end \<and> unat data_end + unat bss_size \<le> 0x80800000"

text \<open>What the boot sequence relies on.\<close>

definition symbols_ok :: "symbols \<Rightarrow> bool" where
  "symbols_ok S \<longleftrightarrow>
     sym_kernel_base S = 0x80200000 \<and> 0x80200000 \<le> unat (sym_bss_end S) \<and>
     unat (sym_bss_end S) + 0x20000 \<le> unat (sym_stack_top S) \<and> unat (sym_stack_top S) \<le> unat (sym_allocator_mem S) \<and>
     unat (sym_allocator_mem_end S) = unat (sym_allocator_mem S) + 0x80000 \<and>
     unat (sym_free_ram S) = unat (sym_allocator_mem_end S) \<and> 4096 dvd unat (sym_free_ram S) \<and>
     unat (sym_free_ram_end S) = unat (sym_free_ram S) + 0x4000000 \<and> unat (sym_free_ram_end S) \<le> 0x84900000"

lemma kernel_ld_ok:
  assumes "image_ok data_end bss_size"
  shows "symbols_ok (kernel_ld data_end bss_size trap a b)"
proof -
  have d: "0x80200000 \<le> unat data_end" "unat data_end + unat bss_size \<le> 0x80800000"
    using assms by (auto simp: image_ok_def)
  define bss where "bss = align_up 4 data_end"
  define bss_end where "bss_end = bss + bss_size"
  define stk where "stk = align_up 4 bss_end + 0x20000"
  define am where "am = align_up 4096 stk"
  define ame where "ame = am + 0x80000"
  define fr where "fr = align_up 4096 ame"
  define fe where "fe = fr + 0x4000000"
  have u4: "unat (4::usize) = 4" "unat (4096::usize) = 4096" "(4::usize) \<noteq> 0" "(4096::usize) \<noteq> 0" by simp_all
  have b: "unat data_end \<le> unat bss" "unat bss < unat data_end + 4"
    using align_up_unat [OF u4(3), of data_end] d unfolding bss_def u4 by simp_all
  have be: "unat bss_end = unat bss + unat bss_size" unfolding bss_end_def using b d by (intro unat_add_ok) simp
  have a4: "unat bss_end \<le> unat (align_up 4 bss_end)" "unat (align_up 4 bss_end) < unat bss_end + 4"
    using align_up_unat [OF u4(3), of bss_end] be b d unfolding u4 by simp_all
  have s: "unat stk = unat (align_up 4 bss_end) + 0x20000"
    unfolding stk_def using a4 be b d by (subst unat_add_ok) simp_all
  have am: "unat stk \<le> unat am" "unat am < unat stk + 4096" "4096 dvd unat am"
    using align_up_unat [OF u4(4), of stk] s a4 be b d unfolding am_def u4 by simp_all
  have ame: "unat ame = unat am + 0x80000" unfolding ame_def using am s a4 be b d by (subst unat_add_ok) simp_all
  have fr: "unat ame \<le> unat fr" "unat fr < unat ame + 4096" "4096 dvd unat fr"
    using align_up_unat [OF u4(4), of ame] ame am s a4 be b d unfolding fr_def u4 by simp_all
  have "(4096::nat) dvd unat ame" unfolding ame using am(3) by (intro dvd_add) simp_all
  then have fa: "unat fr = unat ame" using fr by (auto elim!: dvdE)
  have fe: "unat fe = unat fr + 0x4000000" unfolding fe_def using fa ame am s a4 be b d by (subst unat_add_ok) simp_all
  have S: "kernel_ld data_end bss_size trap a b =
      \<lparr>sym_bss = bss, sym_bss_end = bss_end, sym_stack_top = stk, sym_free_ram = fr, sym_free_ram_end = fe,
       sym_allocator_mem = am, sym_allocator_mem_end = ame, sym_kernel_base = 0x80200000, sym_trap_entry = trap,
       sym_proc_a_entry = a, sym_proc_b_entry = b\<rparr>"
    by (simp add: kernel_ld_def Let_def bss_def bss_end_def stk_def am_def ame_def fr_def fe_def)
  show ?thesis
    unfolding S symbols_ok_def using d b be a4 s am ame fr(3) fa fe by simp
qed


lemma symbols_layout:
  assumes "symbols_ok S"
  shows "layout_ok 16384 (sym_free_ram S) (sym_free_ram_end S) (sym_allocator_mem S) (sym_allocator_mem_end S)"
proof -
  have "4096 dvd unat (sym_free_ram S)" using assms unfolding symbols_ok_def by blast
  then show ?thesis using assms unfolding symbols_ok_def layout_ok_def by (elim conjE) (simp del: dvd_add_right_iff)
qed

lemma symbols_roots:
  assumes "symbols_ok S"
  shows "roots (sym_kernel_base S) (sym_free_ram_end S) \<le> 19"
proof -
  have "unat (sym_free_ram_end S) div 2 ^ 22 \<le> 0x84900000 div 2 ^ 22"
    using assms by (intro div_le_mono) (simp add: symbols_ok_def)
  moreover have "unat (sym_kernel_base S) = 0x80200000" using assms by (simp add: symbols_ok_def)
  ultimately show ?thesis using roots_le [of "sym_kernel_base S" "sym_free_ram_end S"] by simp
qed


section \<open>What depends on the memory only\<close>

lemma mem_cong:
  assumes "mram w' = mram w" "MEMORY w' = MEMORY w"
  shows "gmem_ok w' = gmem_ok w" "kmem_ok w' = kmem_ok w" "glive w' = glive w" "gregion w' = gregion w"
    "gcapacity w' = gcapacity w" "live_bytes w' = live_bytes w" "pt_ok L w' = pt_ok L w" "vm_lookup w' = vm_lookup w"
    "pt_bytes L w' = pt_bytes L w"
proof -
  have g: "gmem w' = gmem w" using assms(2) by (simp add: gmem_def)
  show l: "glive w' = glive w" "gregion w' = gregion w" "gcapacity w' = gcapacity w"
    using g by (simp_all add: glive_def gregion_def gcapacity_def)
  show go: "gmem_ok w' = gmem_ok w" using g assms(2) by (simp add: gmem_ok_def memory_is_def)
  show "kmem_ok w' = kmem_ok w" using go l assms(1) by (simp add: kmem_ok_def zero_free_def)
  show "live_bytes w' = live_bytes w" using l by (simp add: live_bytes_def)
  have v: "valid w' pt i = valid w pt i" "slot L w' pt i = slot L w pt i" "pte1 w' pt i = pte1 w pt i" "owned w' a = owned w a"
    for L pt i a
    by (simp_all add: valid_def slot_def pte1_def owned_def assms(1) l)
  show "pt_ok L w' = pt_ok L w" using v l by (simp add: pt_ok_def pt_frame_def pt_entry_def fun_eq_iff)
  show "vm_lookup w' = vm_lookup w" by (simp add: vm_lookup_def [abs_def] assms(1))
  show "pt_bytes L w' = pt_bytes L w" using v by (simp add: pt_bytes_def fun_eq_iff)
qed

lemma procs_cong:
  assumes "mram w' = mram w" "MEMORY w' = MEMORY w"
  shows "procs_inv L Q base end_addr w' t ks n = procs_inv L Q base end_addr w t ks n"
    "proc_inv L Q base end_addr w' t k i = proc_inv L Q base end_addr w t k i"
    "table_ok Q w' t = table_ok Q w t" "room w' r = room w r"
  using assms
  by (simp_all add: procs_inv_def proc_inv_def proc_space_def space_bytes_def table_ok_def room_def mem_cong [OF assms])


section \<open>Initialisation\<close>

lemma zero_range_simps [simp]:
  "MEMORY (zero_range a b w) = MEMORY w" "mem_state.more (zero_range a b w) = mem_state.more w"
  by (simp_all add: zero_range_def)

lemma zero_range_zero:
  assumes "unat a \<le> unat b" "unat x \<in> {unat a..<unat b}"
  shows "mram (zero_range a b w) x = 0"
proof -
  have "unat (x - a) = unat x - unat a" "unat (b - a) = unat b - unat a"
    using assms by (simp_all add: unat_sub_ok word_le_nat_alt)
  then have "x - a < b - a" using assms unfolding word_less_nat_alt atLeastLessThan_iff by linarith
  then show ?thesis by (simp add: zero_range_def write_bytes_inside)
qed

lemma mem_init_boot:
  assumes S: "symbols_ok S" and m: "MEMORY w = OnceCell_new"
    and z: "\<And>x. unat x \<in> {unat (sym_free_ram S)..<unat (sym_free_ram_end S)} \<Longrightarrow> mram w x = 0"
  shows "\<exists>w'. mem_init p (sym_free_ram S) (sym_free_ram_end S) (sym_allocator_mem S) (sym_allocator_mem_end S) w = Ret w' \<and>
    kmem_ok w' \<and> gcapacity w' = 0x4000000 \<and> glive w' = {} \<and>
    gregion w' = {unat (sym_free_ram S)..<unat (sym_free_ram_end S)} \<and> mem_state.more w' = mem_state.more w"
proof -
  let ?s = "sym_free_ram S" and ?e = "sym_free_ram_end S" and ?a = "sym_allocator_mem S" and ?b = "sym_allocator_mem_end S"
  note lay = symbols_layout [OF S]
  obtain mm where mm: "Memory_new p (mram w) (Some ?s) (Some ?e) (Some ?a) (Some ?b) = Ret (mm, metadata_written 16384 ?a ?b (mram w))"
      "fresh_memory 16384 ?s ?e mm"
    using Memory_new_ok [OF lay] by blast
  note ok = fresh_memory_ok [OF lay mm(2)]
  have lg: "ilog2_nat 16384 = 14" using ilog2_nat_power [of 14] by simp
  let ?w = "w\<lparr>mram := metadata_written 16384 ?a ?b (mram w), MEMORY := \<lparr>once = \<lparr>state = 2\<rparr>, oc_value = Some (Mutex_new mm)\<rparr>\<rparr>"
  have r: "mem_init p ?s ?e ?a ?b w = Ret ?w" by (simp add: mem_init_eq [OF m] mm(1))
  have g: "gmem ?w = mm" by (simp add: gmem_def Mutex_new_def)
  have st: "m_start mm = PhysAddr ?s None" using mm(2) by (simp add: fresh_memory_def)
  have reg: "gregion ?w = {unat ?s..<unat ?e}"
    using S by (simp add: gregion_def g st ok(2) lg extent_def symbols_ok_def)
  have "memory_is ?w mm" by (simp add: memory_is_def completed_new Mutex_new_def)
  then have go: "gmem_ok ?w" using ok(1) g by (simp add: gmem_ok_def)
  have "mram ?w x = 0" if x: "unat x \<in> {unat ?s..<unat ?e}" for x
  proof -
    have le: "unat ?a \<le> unat ?b" "unat ?b \<le> unat x" "unat ?b = unat ?a + 0x80000" using S x by (auto simp: symbols_ok_def)
    then have u: "unat (x - ?a) = unat x - unat ?a" "unat (?b - ?a) = unat ?b - unat ?a"
      by (simp_all add: unat_sub_ok word_le_nat_alt)
    then have "\<not> unat (x - ?a) < 2 * 16384 - 1" "\<not> x - ?a < ?b - ?a" using le by (auto simp: word_less_nat_alt)
    then show ?thesis using z [OF x] by (simp add: metadata_written_def)
  qed
  then have "kmem_ok ?w" using go reg by (simp add: kmem_ok_def zero_free_def)
  moreover have "gcapacity ?w = 0x4000000" by (simp add: gcapacity_def g capacity_def ok(2) lg)
  moreover have "glive ?w = {}" by (simp add: glive_def g ok(4))
  ultimately show ?thesis using r reg by (intro exI [of _ ?w]) simp
qed

lemma kernel_init_ok:
  fixes w :: "'f kernel"
  assumes L: "fv_layout_ok L" and Q: "Process_layout_ok L Q" and S: "symbols_ok S"
    and m: "MEMORY w = OnceCell_new" "PROC_TABLE w = OnceCell_new"
  shows "\<exists>w' t. kernel_init p Q S ecall 0 dtb_addr w = Ret w' \<and> procs_are w' t \<and> curr_proc_idx t = 0 \<and>
    procs_inv L Q base end_addr w' t ks 0 \<and> room w' 2047 \<and>
    gregion w' = {unat (sym_free_ram S)..<unat (sym_free_ram_end S)} \<and> cpu_regs w' = cpu_regs w \<and>
    cpu_csrs w' = (cpu_csrs w)(STVEC := sym_trap_entry S) \<and> kfw w' = kfw w"
proof -
  let ?s = "sym_free_ram S" and ?e = "sym_free_ram_end S"
  define w0 where "w0 = zero_range (sym_allocator_mem S) (sym_allocator_mem_end S)
    (zero_range (sym_bss S) (sym_bss_end S) (write_csr STVEC (sym_trap_entry S) w))"
  let ?w = "zero_range ?s ?e w0"
  have more: "mem_state.more ?w = mem_state.more (write_csr STVEC (sym_trap_entry S) w)" by (simp add: w0_def)
  have m': "MEMORY ?w = OnceCell_new" using m(1) by (simp add: w0_def write_csr_def)
  have le: "unat ?s \<le> unat ?e" using S by (simp add: symbols_ok_def)
  obtain w1 where w1: "mem_init p ?s ?e (sym_allocator_mem S) (sym_allocator_mem_end S) ?w = Ret w1" "kmem_ok w1"
      "gcapacity w1 = 0x4000000" "glive w1 = {}" "gregion w1 = {unat ?s..<unat ?e}" "mem_state.more w1 = mem_state.more ?w"
    using mem_init_boot [OF S m' zero_range_zero [OF le]] by blast
  note mo = more_simps [OF w1(6) [unfolded more]]
  have pt: "PROC_TABLE w1 = OnceCell_new" using mo(1) m(2) by (simp add: write_csr_def)
  have "0 \<notin> gregion w1" using w1(5) S by (auto simp: symbols_ok_def)
  then have rm: "room w1 (Suc 2047)" using w1(3,4) by (simp add: room_def)
  have cap: "32768 \<le> gcapacity w1" using w1(3) by simp
  obtain w2 t where w2: "proc_init p Q w1 = Ret w2" "procs_are w2 t" "curr_proc_idx t = 0"
      "procs_inv L Q base end_addr w2 t ks 0" "room w2 2047" "gregion w2 = gregion w1" "cpu_regs w2 = cpu_regs w1"
      "cpu_csrs w2 = cpu_csrs w1" "proc_state.more w2 = proc_state.more w1"
    using proc_init_ok [OF L Q w1(2) cap pt rm, of p base end_addr ks] by blast
  have "kernel_init p Q S ecall 0 dtb_addr w = Ret w2"
    using w1(1) w2(1) by (simp add: kernel_init_def w0_def Let_def)
  moreover have "kfw w2 = kfw w"
  proof -
    have "proc_state.more w2 = proc_state.more w" using w2(9) mo(5) by (simp add: write_csr_def)
    then show ?thesis by (cases w; cases w2; simp)
  qed
  ultimately show ?thesis using w2 w1(5) mo(2,3) by (intro exI [of _ w2] exI [of _ t]) (simp add: write_csr_def)
qed

text \<open>The other harts print their number and spin.\<close>

lemma kernel_init_other_hart: "hart_id \<noteq> 0 \<Longrightarrow> kernel_init p Q S ecall hart_id dtb_addr w = Hang"
  by (simp add: kernel_init_def Let_def loop_spin)

lemma kernel_main_other_hart: "hart_id \<noteq> 0 \<Longrightarrow> kernel_main p L Q S ecall regs_at hart_id dtb_addr w = Hang"
  by (simp add: kernel_main_def kernel_init_other_hart)



section \<open>The main function\<close>

text \<open>At the first switch the stack pointer is in the boot stack.\<close>

definition boot_stack_ok :: "symbols \<Rightarrow> ((reg \<Rightarrow> usize) \<Rightarrow> reg \<Rightarrow> usize) \<Rightarrow> bool" where
  "boot_stack_ok S regs_at \<longleftrightarrow>
     (\<forall>r. r SP = sym_stack_top S \<longrightarrow>
        unat (sym_bss_end S) + 52 \<le> unat (regs_at r SP) \<and> unat (regs_at r SP) \<le> unat (sym_stack_top S))"

lemma boot_frame:
  assumes S: "symbols_ok S" and Q: "Process_layout_ok L Q" and L: "fv_layout_ok L" and g: "gmem_ok w" and t: "table_ok Q w t"
    and reg: "gregion w = {unat (sym_free_ram S)..<unat (sym_free_ram_end S)}"
    and sp: "unat (sym_bss_end S) + 52 \<le> unat x" "unat x \<le> unat (sym_stack_top S)"
  shows "switchable x (proc_at Q t 0 + off_sp Q)" "frame_bytes x \<inter> live_bytes w = {}"
proof -
  have "live_bytes w \<subseteq> gregion w" using live_in_region [OF g] by (auto simp: live_bytes_def)
  then show fb: "frame_bytes x \<inter> live_bytes w = {}"
    using reg sp S by (auto simp: frame_bytes_def symbols_ok_def)
  have z: "(0::usize) < PROC_MAX" by (simp add: PROC_MAX_def)
  note sc = sp_cell [OF Q proc_range(1) [OF g t z]]
  have "sp_field Q (proc_at Q t 0) \<subseteq> live_bytes w"
    using table_field_sub(2,4) [OF L Q g t z] table_bytes_live [OF g t] by blast
  then show "switchable x (proc_at Q t 0 + off_sp Q)" using sc fb sp(1) unfolding switchable_def by auto
qed

lemma symbols_aligned:
  assumes "symbols_ok S"
  shows "4096 dvd unat (sym_kernel_base S)" "4096 dvd unat (sym_free_ram_end S)" "sym_kernel_base S \<le> sym_free_ram_end S"
proof -
  have "4096 dvd unat (sym_free_ram S)" using assms unfolding symbols_ok_def by blast
  moreover have "unat (sym_free_ram_end S) = unat (sym_free_ram S) + 4096 * 16384" using assms by (simp add: symbols_ok_def)
  ultimately show "4096 dvd unat (sym_free_ram_end S)" by (metis dvd_add dvd_triv_left)
qed (use assms in \<open>auto simp: symbols_ok_def word_le_nat_alt\<close>)

text \<open>Up to the creation of the three processes.\<close>

lemma kernel_created:
  fixes w :: "'f kernel"
  assumes L: "fv_layout_ok L" and Q: "Process_layout_ok L Q" and S: "symbols_ok S"
    and m: "MEMORY w = OnceCell_new" "PROC_TABLE w = OnceCell_new"
  defines "base \<equiv> sym_kernel_base S" and "end_addr \<equiv> sym_free_ram_end S"
  shows "\<exists>w1 w2 w3 w4 t ks. kernel_init p Q S ecall 0 dtb_addr w = Ret w1 \<and>
    proc_new p L Q base end_addr 0 (kernel_println ecall ''Hello, World!'' [] w1) = Ret w2 \<and>
    proc_new p L Q base end_addr (sym_proc_a_entry S) w2 = Ret w3 \<and>
    proc_new p L Q base end_addr (sym_proc_b_entry S) w3 = Ret w4 \<and>
    procs_are w4 t \<and> curr_proc_idx t = 0 \<and> procs_inv L Q base end_addr w4 t ks 3 \<and>
    started Q t (mram w4) 1 (sym_proc_a_entry S) \<and> started Q t (mram w4) 2 (sym_proc_b_entry S) \<and>
    gregion w4 = {unat (sym_free_ram S)..<unat (sym_free_ram_end S)} \<and> cpu_regs w4 = cpu_regs w \<and>
    cpu_csrs w4 STVEC = sym_trap_entry S \<and> kfw w4 = println ecall ''Hello, World!'' [] (kfw w)"
proof -
  note al = symbols_aligned [OF S, folded base_def end_addr_def]
  obtain w1 t where w1: "kernel_init p Q S ecall 0 dtb_addr w = Ret w1" "procs_are w1 t" "curr_proc_idx t = 0"
      "procs_inv L Q base end_addr w1 t (\<lambda>_. 0) 0" "room w1 2047"
      "gregion w1 = {unat (sym_free_ram S)..<unat (sym_free_ram_end S)}" "cpu_regs w1 = cpu_regs w" "kfw w1 = kfw w"
      "cpu_csrs w1 = (cpu_csrs w)(STVEC := sym_trap_entry S)"
    using kernel_init_ok [OF L Q S m, of p ecall dtb_addr base end_addr "\<lambda>_. 0"] by blast
  let ?w1 = "kernel_println ecall ''Hello, World!'' [] w1"
  have e1: "mram ?w1 = mram w1" "MEMORY ?w1 = MEMORY w1" "PROC_TABLE ?w1 = PROC_TABLE w1" "cpu_regs ?w1 = cpu_regs w1"
    by (simp_all add: kernel_println_def)
  have "room w1 (3 * (2 + roots base end_addr))"
    using w1(5) by (rule room_mono) (use symbols_roots [OF S] in \<open>simp add: base_def end_addr_def\<close>)
  then have pre: "room ?w1 (3 * (2 + roots base end_addr))" "procs_are ?w1 t" "procs_inv L Q base end_addr ?w1 t (\<lambda>_. 0) 0"
    using w1(2,4) procs_cong [OF e1(1,2)] e1(3) by (simp_all add: procs_are_def)
  obtain w2 w3 w4 ks where n: "proc_new p L Q base end_addr 0 ?w1 = Ret w2"
      "proc_new p L Q base end_addr (sym_proc_a_entry S) w2 = Ret w3"
      "proc_new p L Q base end_addr (sym_proc_b_entry S) w3 = Ret w4" "procs_are w4 t" "procs_inv L Q base end_addr w4 t ks 3"
      "started Q t (mram w4) 1 (sym_proc_a_entry S)" "started Q t (mram w4) 2 (sym_proc_b_entry S)" "grows ?w1 w4"
    using three_new [OF L Q pre(2,3) al pre(1), of p 0 "sym_proc_a_entry S" "sym_proc_b_entry S"] by blast
  have gw: "mem_state.more w4 = mem_state.more ?w1" "gregion w4 = gregion w1"
    using n(8) mem_cong(4) [OF e1(1,2)] by (auto simp: grows_def)
  note mo = more_simps [OF gw(1)]
  have "kfw w4 = kfw ?w1" using mo(5) by (cases w4; cases ?w1; simp)
  then have kf: "kfw w4 = println ecall ''Hello, World!'' [] (kfw w)" using w1(8) by (simp add: kernel_println_def)
  have "cpu_regs w4 = cpu_regs w" "cpu_csrs w4 STVEC = sym_trap_entry S"
    using mo(2,3) e1(4) w1(7,9) by (simp_all add: kernel_println_def)
  then show ?thesis
    using w1(1,3,6) n gw(2) kf
    by (intro exI [of _ w1] exI [of _ w2] exI [of _ w3] exI [of _ w4] exI [of _ t] exI [of _ ks]) simp
qed

text \<open>The switch from the boot stack to the first process leaves that process as it was set up.\<close>

lemma switch_keeps_first:
  assumes L: "fv_layout_ok L" and Q: "Process_layout_ok L Q" and g: "gmem_ok w" "gmem_ok w'" "table_ok Q w t"
    and inv: "proc_inv L Q base end_addr w t k 1" and live: "glive w' = glive w"
    and f: "f \<inter> live_bytes w = {}" and u: "unchanged_on (- (f \<union> sp_field Q (proc_at Q t 0))) (mram w) (mram w')"
  shows "proc_inv L Q base end_addr w' t k 1" "satp_of L Q (mram w') (proc_at Q t 1) = satp_of L Q (mram w) (proc_at Q t 1)"
proof -
  have less: "(0::usize) < PROC_MAX" "(1::usize) < PROC_MAX" "(0::usize) \<noteq> 1" by (simp_all add: PROC_MAX_def)
  have "space_bytes L Q w (proc_at Q t 1) k \<subseteq> live_bytes w - table_bytes Q t" using inv by (simp add: proc_inv_def)
  then have "proc_bytes Q (proc_at Q t 1) \<union> space_bytes L Q w (proc_at Q t 1) k \<subseteq> - (f \<union> sp_field Q (proc_at Q t 0))"
    using f table_bytes_live [OF g(1,3)] table_field_sub(4) [OF L Q g(1,3) less(2)]
      table_field_sub(2,4) [OF L Q g(1,3) less(1)] procs_disjoint [OF g(1,3) less] by blast
  then have un: "unchanged_on (proc_bytes Q (proc_at Q t 1) \<union> space_bytes L Q w (proc_at Q t 1) k) (mram w) (mram w')"
    by (rule unchanged_on_mono [OF u])
  show "proc_inv L Q base end_addr w' t k 1"
    using proc_inv_unchanged(1) [OF L Q g less(2) inv _ un] live by simp
  have "load_page_table L Q (mram w') (proc_at Q t 1) = load_page_table L Q (mram w) (proc_at Q t 1)"
    using fields_sub(5) [OF L Q proc_range(1) [OF g(1,3) less(2)]]
    by (intro load_page_table_on [OF L Q proc_range(1) [OF g(1,3) less(2)] un]) blast
  then show "satp_of L Q (mram w') (proc_at Q t 1) = satp_of L Q (mram w) (proc_at Q t 1)" by (simp add: satp_of_def)
qed

lemma kernel_first_switch:
  fixes w :: "'f kernel"
  assumes L: "fv_layout_ok L" and Q: "Process_layout_ok L Q" and S: "symbols_ok S"
    and g: "gmem_ok w" "table_ok Q w t" and pa: "procs_are w t" "curr_proc_idx t = 0"
    and st: "started Q t (mram w) 1 a" "started Q t (mram w) 2 b" and inv: "proc_inv L Q base end_addr w t k 1"
    and reg: "gregion w = {unat (sym_free_ram S)..<unat (sym_free_ram_end S)}"
    and sp: "unat (sym_bss_end S) + 52 \<le> unat (cpu_regs w SP)" "unat (cpu_regs w SP) \<le> unat (sym_stack_top S)"
  shows "\<exists>w'. give_up p L Q w = Ret w' \<and> gmem_ok w' \<and> between Q t 1 w' \<and> cpu_pc w' = a \<and>
    cpu_regs w' SP = stack_top Q (proc_at Q t 1) \<and> started Q t (mram w') 2 b \<and> proc_inv L Q base end_addr w' t k 1 \<and>
    cpu_csrs w' SATP = satp_of L Q (mram w') (proc_at Q t 1) \<and> cpu_csrs w' SSCRATCH = stack_top Q (proc_at Q t 1) \<and>
    cpu_csrs w' STVEC = cpu_csrs w STVEC \<and> kfw w' = kfw w"
proof -
  note bf = boot_frame [OF S Q L g reg sp]
  have fb: "frame_bytes (cpu_regs w SP) \<inter> table_bytes Q t = {}" using bf(2) table_bytes_live [OF g] by blast
  obtain w' where w': "give_up p L Q w = Ret w'" "procs_are w' (t\<lparr>curr_proc_idx := 1\<rparr>)" "MEMORY w' = MEMORY w"
      "cpu_pc w' = a" "cpu_regs w' SP = stack_top Q (proc_at Q t 1)" "runnable Q t (mram w') 1"
      "started Q t (mram w') 2 b" "cpu_csrs w' SATP = satp_of L Q (mram w) (proc_at Q t 1)"
      "cpu_csrs w' SSCRATCH = stack_top Q (proc_at Q t 1)"
      "unchanged_on (- (frame_bytes (cpu_regs w SP) \<union> sp_field Q (proc_at Q t 0))) (mram w) (mram w')"
    using first_turn [OF L Q g(1) pa(1) g(2) pa(2) st bf(1) fb, of p] by blast
  have "gmem w' = gmem w" using w'(3) by (simp add: gmem_def)
  then have go: "gmem_ok w'" "glive w' = glive w" using g(1) w'(3) by (simp_all add: gmem_ok_def memory_is_def glive_def)
  have tb: "table_ok Q w' t" using g(2) table_ok_cong [OF w'(3) refl] by blast
  have bt: "between Q t 1 w'" using w'(2,6) started_runnable [OF w'(7)] tb by (simp add: between_def PROC_MAX_def)
  have gs: "proc_state.more w' = proc_state.more w" "cpu_csrs w' STVEC = cpu_csrs w STVEC"
    using give_up_state [OF pa(1) g(2), of p L] pa(2) w'(1) by (auto simp: PROC_MAX_def)
  have "kfw w' = kfw w" using gs(1) by (cases w'; cases w; simp)
  then show ?thesis
    using w' go(1) bt gs(2) switch_keeps_first [OF L Q g(1) go(1) g(2) inv go(2) bf(2) w'(10)]
    by (intro exI [of _ w']) simp
qed

lemma kernel_main_ok:
  fixes w :: "'f kernel"
  assumes L: "fv_layout_ok L" and Q: "Process_layout_ok L Q" and S: "symbols_ok S"
    and m: "MEMORY w = OnceCell_new" "PROC_TABLE w = OnceCell_new"
    and sp: "cpu_regs w SP = sym_stack_top S" "boot_stack_ok S regs_at"
  defines "base \<equiv> sym_kernel_base S" and "end_addr \<equiv> sym_free_ram_end S"
  shows "\<exists>w' t k. kernel_main p L Q S ecall regs_at 0 dtb_addr w = Ret w' \<and> gmem_ok w' \<and> between Q t 1 w' \<and>
    cpu_pc w' = sym_proc_a_entry S \<and> cpu_regs w' SP = stack_top Q (proc_at Q t 1) \<and>
    started Q t (mram w') 2 (sym_proc_b_entry S) \<and> proc_inv L Q base end_addr w' t k 1 \<and>
    cpu_csrs w' SATP = satp_of L Q (mram w') (proc_at Q t 1) \<and> cpu_csrs w' SSCRATCH = stack_top Q (proc_at Q t 1) \<and>
    cpu_csrs w' STVEC = sym_trap_entry S \<and> kfw w' = println ecall ''Hello, World!'' [] (kfw w)"
proof -
  obtain w1 w2 w3 w4 t ks where n: "kernel_init p Q S ecall 0 dtb_addr w = Ret w1"
      "proc_new p L Q base end_addr 0 (kernel_println ecall ''Hello, World!'' [] w1) = Ret w2"
      "proc_new p L Q base end_addr (sym_proc_a_entry S) w2 = Ret w3"
      "proc_new p L Q base end_addr (sym_proc_b_entry S) w3 = Ret w4"
      "procs_are w4 t" "curr_proc_idx t = 0" "procs_inv L Q base end_addr w4 t ks 3"
      "started Q t (mram w4) 1 (sym_proc_a_entry S)" "started Q t (mram w4) 2 (sym_proc_b_entry S)"
      "gregion w4 = {unat (sym_free_ram S)..<unat (sym_free_ram_end S)}" "cpu_regs w4 = cpu_regs w"
      "cpu_csrs w4 STVEC = sym_trap_entry S" "kfw w4 = println ecall ''Hello, World!'' [] (kfw w)"
    using kernel_created [OF L Q S m, of p ecall dtb_addr] unfolding base_def end_addr_def by blast
  let ?w = "w4\<lparr>cpu_regs := regs_at (cpu_regs w4)\<rparr>"
  have e4: "mram ?w = mram w4" "MEMORY ?w = MEMORY w4" by simp_all
  have "(1::usize) < 3" by simp
  then have inv: "gmem_ok ?w" "table_ok Q ?w t" "proc_inv L Q base end_addr ?w t (ks 1) 1"
    using n(7) mem_cong [OF e4] procs_cong [OF e4] by (auto simp: procs_inv_def kmem_ok_def)
  have reg: "gregion ?w = {unat (sym_free_ram S)..<unat (sym_free_ram_end S)}" using n(10) mem_cong(4) [OF e4] by simp
  have x: "unat (sym_bss_end S) + 52 \<le> unat (cpu_regs ?w SP)" "unat (cpu_regs ?w SP) \<le> unat (sym_stack_top S)"
    using sp n(11) by (auto simp: boot_stack_ok_def)
  have pa: "procs_are ?w t" using n(5) by (simp add: procs_are_def)
  have st: "started Q t (mram ?w) 1 (sym_proc_a_entry S)" "started Q t (mram ?w) 2 (sym_proc_b_entry S)" using n(8,9) by simp_all
  have "cpu_csrs ?w STVEC = sym_trap_entry S" "kfw ?w = println ecall ''Hello, World!'' [] (kfw w)" using n(12,13) by simp_all
  moreover have "kernel_main p L Q S ecall regs_at 0 dtb_addr w = give_up p L Q ?w"
    unfolding kernel_main_def base_def [symmetric] end_addr_def [symmetric] Let_def using n(1-4) by simp
  ultimately show ?thesis using kernel_first_switch [OF L Q S inv(1,2) pa n(6) st inv(3) reg x, of p] by metis
qed


text \<open>The registers that the compiler may pick for the operands of \<open>boot\<close>.\<close>

definition operands_ok :: "reg \<Rightarrow> reg \<Rightarrow> reg \<Rightarrow> bool" where
  "operands_ok r0 r1 r2 \<longleftrightarrow> distinct [r0, r1, r2] \<and> r1 \<noteq> A0 \<and> r2 \<notin> {A0, A1}"

lemma boot_ok:
  assumes "operands_ok r0 r1 r2"
  shows "\<exists>w0. boot p L Q S ecall regs_at r0 r1 r2 hart_id dtb_addr w = kernel_main p L Q S ecall regs_at hart_id dtb_addr w0 \<and>
    MEMORY w0 = MEMORY w \<and> PROC_TABLE w0 = PROC_TABLE w \<and> kfw w0 = kfw w \<and> cpu_regs w0 SP = sym_stack_top S"
proof -
  let ?w0 = "w\<lparr>cpu_regs := (cpu_regs w)(r0 := hart_id, r1 := dtb_addr, r2 := sym_stack_top S,
      A0 := hart_id, A1 := dtb_addr, SP := sym_stack_top S), cpu_pc := pcv (machine_of w)\<rparr>"
  have "boot p L Q S ecall regs_at r0 r1 r2 hart_id dtb_addr w = kernel_main p L Q S ecall regs_at hart_id dtb_addr ?w0"
    using assms by (simp add: boot_def boot_code_def operands_ok_def set_machine_def)
  then show ?thesis by (intro exI [of _ ?w0]) simp
qed


section \<open>The processes\<close>

lemma delay_id [simp]: "delay w = w"
proof -
  have "((\<lambda>w. w) ^^ n) w = w" for n by (induction n) simp_all
  then show ?thesis by (simp add: delay_def)
qed

text \<open>
  The compiled code of a process leaves the process table and the allocator alone, keeps its stack
  pointer in order and prints nothing by itself.
\<close>

definition code_ok :: "Process_layout \<Rightarrow> ProcTable \<Rightarrow> ('f kernel \<Rightarrow> 'f kernel) \<Rightarrow> bool" where
  "code_ok Q t code \<longleftrightarrow>
     (\<forall>w i. i \<in> {1, 2} \<and> gmem_ok w \<and> between Q t i w \<longrightarrow>
        computes Q t w (code w) \<and> kfw (code w) = kfw w \<and> stack_ok Q (t\<lparr>curr_proc_idx := i\<rparr>) (code w) \<and>
        switch_bytes Q (t\<lparr>curr_proc_idx := i\<rparr>) (code w) \<inter> state_bytes Q t = {})"

definition letter :: "nat \<Rightarrow> char" where
  "letter n = (if even n then CHR ''a'' else CHR ''b'')"

lemma turn_ok:
  fixes w :: "'f kernel"
  assumes out: "console_putchar ecall out" and c: "code_ok Q t code" and g: "gmem_ok w" and i: "i \<in> {1, 2}" "between Q t i w"
    and ch: "ch \<noteq> CHR ''{''"
  shows "\<exists>w'. give_up p L Q (code (kernel_print ecall [ch] [] w)) = Ret w' \<and> gmem_ok w' \<and>
    between Q t (if i = 1 then 2 else 1) w' \<and> out (kfw w') = out (kfw w) @ [of_char ch]"
proof -
  let ?w = "kernel_print ecall [ch] [] w"
  have e: "mram ?w = mram w" "MEMORY ?w = MEMORY w" "PROC_TABLE ?w = PROC_TABLE w" by (simp_all add: kernel_print_def)
  have g1: "gmem_ok ?w" using g mem_cong(1) [OF e(1,2)] by simp
  have b1: "between Q t i ?w"
    using i(2) e procs_cong(3) [OF e(1,2)] by (simp add: between_def procs_are_def)
  have cd: "computes Q t ?w (code ?w)" "kfw (code ?w) = kfw ?w" "stack_ok Q (t\<lparr>curr_proc_idx := i\<rparr>) (code ?w)"
    "switch_bytes Q (t\<lparr>curr_proc_idx := i\<rparr>) (code ?w) \<inter> state_bytes Q t = {}"
    using c i(1) g1 b1 unfolding code_ok_def by blast+
  have b2: "between Q t i (code ?w)" using between_computes [OF b1 cd(1)] .
  obtain w' where w': "give_up p L Q (code ?w) = Ret w'" "between Q t (if i = 1 then 2 else 1) w'"
    using between_turn [OF b2 cd(3,4), of p L] by blast
  have t: "procs_are (code ?w) (t\<lparr>curr_proc_idx := i\<rparr>)" "table_ok Q (code ?w) (t\<lparr>curr_proc_idx := i\<rparr>)"
    "curr_proc_idx (t\<lparr>curr_proc_idx := i\<rparr>) < PROC_MAX"
    using b2 by (auto simp: between_def table_ok_def)
  have st: "MEMORY w' = MEMORY (code ?w)" "proc_state.more w' = proc_state.more (code ?w)"
    using give_up_state [OF t, of p L] w'(1) by auto
  have "kfw w' = kfw (code ?w)" using st(2) by (cases w'; cases "code ?w"; simp)
  then have "out (kfw w') = out (kfw w) @ [of_char ch]"
    using cd(2) ch print_out [OF out, of "[ch]" "[]" "kfw w"] by (simp add: kernel_print_def format_args_def)
  moreover have "gmem_ok w'"
  proof -
    have "MEMORY w' = MEMORY w" using st(1) cd(1) e(2) by (simp add: computes_def)
    then show ?thesis using g by (simp add: gmem_ok_def memory_is_def gmem_def)
  qed
  ultimately show ?thesis using w' by blast
qed

lemma turns_ok:
  fixes w :: "'f kernel"
  assumes out: "console_putchar ecall out" and c: "code_ok Q t code" and g: "gmem_ok w" and b: "between Q t 1 w"
  shows "\<exists>w'. turns p L Q ecall code n w = Ret w' \<and> gmem_ok w' \<and> between Q t (if even n then 1 else 2) w' \<and>
    out (kfw w') = out (kfw w) @ map (of_char \<circ> letter) [0..<n]"
proof (induction n)
  case 0
  then show ?case using g b by simp
next
  case (Suc n)
  let ?i = "if even n then 1 else 2 :: usize"
  obtain w1 where w1: "turns p L Q ecall code n w = Ret w1" "gmem_ok w1" "between Q t ?i w1"
      "out (kfw w1) = out (kfw w) @ map (of_char \<circ> letter) [0..<n]"
    using Suc by blast
  have cur: "current w1 = ?i" using procs_are_current [of w1 "t\<lparr>curr_proc_idx := ?i\<rparr>"] w1(3) by (simp add: between_def)
  have i: "?i \<in> {1, 2}" "letter n \<noteq> CHR ''{''" by (simp_all add: letter_def)
  have n: "(if ?i = 1 then 2 else 1) = (if even (Suc n) then 1 else 2 :: usize)" by simp
  obtain w' where w': "give_up p L Q (code (kernel_print ecall [letter n] [] w1)) = Ret w'" "gmem_ok w'"
      "between Q t (if even (Suc n) then 1 else 2) w'" "out (kfw w') = out (kfw w1) @ [of_char (letter n)]"
    using turn_ok [OF out c w1(2) i(1) w1(3) i(2), of p L] unfolding n by blast
  have "turns p L Q ecall code (Suc n) w = Ret w'"
    using w1(1) w'(1) cur by (cases "even n") (simp_all add: proc_a_entry_def proc_b_entry_def letter_def)
  then show ?case using w'(2-4) w1(4) by auto
qed

end
