(* ===== verification/Kernel_Properties.thy ===== *)
theory Kernel_Properties
  imports Kernel_Boot Machine_Properties Proc_Properties
begin

text \<open>
  The properties of the whole kernel, from \<open>boot\<close> to the output of its two processes, with a witness on
  an image of 64 KB.
\<close>

section \<open>An image\<close>







section \<open>Boot\<close>






section \<open>Traps\<close>



end
