(* ===== verification/Spec2Isabelle.thy ===== *)
theory Spec2Isabelle
  imports Buddy_Properties Sync_Properties Vm_Properties Machine_Properties Proc_Properties Kernel_Properties
begin

text \<open>
  A verification library for the OS1K kernel, the Rust kernel under \<open>src/rust\<close>: a small operating
  system for a 32-bit RISC-V machine, which boots, sets up a buddy allocator over its memory,
  creates an idle process and two processes with page tables of their own, and lets the processes
  hand the processor to one another.

  \<^bold>\<open>The program and its parts.\<close> The boot code (\<open>kernel.rs\<close>) zeroes the memory, initialises the
  allocator (\<open>mem::init\<close>) and the process table (\<open>proc::init\<close>), greets, creates the processes
  (\<open>proc::new\<close>) and gives up the processor (\<open>proc::give_up\<close>). The allocator and the process table are
  globals, each a \<open>OnceCell\<close> of a \<open>Mutex\<close> (\<open>sync.rs\<close>). \<open>FixedVec\<close> (\<open>stdlib.rs\<close>) is an array in a block
  of the allocator; the process table is one, and so are the page tables (\<open>vm.rs\<close>). A switch of
  processes changes \<open>satp\<close> and \<open>sscratch\<close> and then runs the assembly routine \<open>switch_context\<close>. A
  trap enters the assembly routine \<open>trap_entry\<close> (\<open>trap.rs\<close>). Output goes through the macros of
  \<open>macros.rs\<close> to the firmware (\<open>sbi.rs\<close>).

  \<^bold>\<open>How the code is modelled.\<close> \<open>usize\<close> is a word of 32 bits, memory a function from addresses to bytes
  (\<open>Ram\<close>), a Rust function a HOL function from the state to an \<open>outcome\<close> (\<open>Prelude\<close>): a value (\<open>Ret\<close>), a
  panic with its cause (\<open>Panic\<close>), or \<open>Hang\<close> when the call never comes back. A \<open>loop\<close> or \<open>while\<close> of the
  code is \<open>loop body\<close>: it iterates the body to its first exit and is \<open>Hang\<close> when there is none, so a
  theorem with the conclusion \<open>f x = Ret y\<close> is one of total correctness. Arithmetic takes the build
  profile \<open>p\<close> (\<open>Dev\<close> panics on overflow, \<open>Release\<close> wraps); unless it says otherwise a theorem holds for
  both. The state of the kernel is a record that grows with the components: \<open>mem_state\<close> (memory
  and \<open>MEMORY\<close>), \<open>proc_state\<close> (\<open>PROC_TABLE\<close> and the processor's registers), \<open>kernel\<close> (the
  firmware); operations of a lower component work on every extension of their record.

  \<^bold>\<open>Theories, in the order of the code they model.\<close>
  \<^item> \<open>Prelude\<close>, \<open>Ram\<close>: outcomes, loops, checked arithmetic, bytes and words in memory.
  \<^item> \<open>Addr\<close>: \<open>PhysAddr\<close> and \<open>VirtAddr\<close> of \<open>mem.rs\<close>, with their derived orders.
  \<^item> \<open>Bits\<close>, \<open>Buddy\<close>: \<open>find_order\<close>, \<open>next_power_of_two\<close>, \<open>InitialAlloc\<close> and \<open>Memory\<close> of \<open>mem.rs\<close>.
    \<open>Buddy_Tree\<close> is the abstract specification, a tree of blocks; \<open>Buddy_Alloc\<close> and \<open>Buddy_Free\<close> prove
    that the search and the merge loop over the array of block states implement it, and
    \<open>Buddy_Init\<close> that \<open>Memory::new\<close> sets it up. \<open>Alloc_Interface\<close> states as a locale what a client
    relies on, and \<open>Buddy_Spec\<close> interprets it on the code. \<open>Buddy_Properties\<close> has C1 to C12.
  \<^item> \<open>Sync\<close>: \<open>Once\<close>, \<open>OnceCell\<close>, \<open>Mutex\<close> and its guard of \<open>sync.rs\<close>. \<open>Sync_Steps\<close> models any number of
    contexts that share a \<open>OnceCell<Mutex<T>>\<close>, one shared access per step, and proves their
    invariant in the locale \<open>guarded_data\<close>. \<open>Mem_Global\<close> has the global allocator (\<open>init\<close>,
    \<open>buddy_alloc\<close>, \<open>buddy_free\<close> of \<open>mem.rs\<close>; \<open>phalloc\<close>, \<open>phree\<close> of \<open>stdlib.rs\<close>), interprets
    \<open>block_allocator\<close> on it for one context and \<open>guarded_data\<close> for many. \<open>Sync_Properties\<close> has
    C13 to C18.
  \<^item> \<open>Fixed_Vec\<close> (\<open>stdlib.rs\<close>), \<open>Vm\<close> (\<open>vm.rs\<close>) and \<open>Vm_Map\<close>, which proves \<open>map_page\<close> against the Sv32
    translation of the hardware (\<open>sv32_walk\<close>). \<open>Vm_Properties\<close> has C19 to C23.
  \<^item> \<open>Riscv\<close>: the RV32 instructions of the assembly routines. \<open>Switch\<close> (\<open>switch_context\<close> of \<open>proc.rs\<close>),
    \<open>Trap\<close> (\<open>trap.rs\<close>) and \<open>Console\<close> (\<open>sbi.rs\<close>, \<open>macros.rs\<close>, the hexadecimal output of
    addresses); \<open>Utf8\<close>: \<open>PhysAddr::as_str\<close>. \<open>Machine_Properties\<close> has C24 to C27, C29, C30 and C40.
  \<^item> \<open>Proc\<close>: the processes of \<open>proc.rs\<close>. \<open>Room\<close> shows when an allocation cannot fail; \<open>Proc_Map\<close>,
    \<open>Proc_Create\<close> and \<open>Proc_Space\<close> follow \<open>create_process\<close>; \<open>Proc_System\<close> has the invariant of the
    process table; \<open>Proc_Sched\<close> and \<open>Proc_Runs\<close> follow \<open>give_up\<close>; \<open>Proc_Interface\<close> states as a locale
    what the boot code relies on, interpreted in \<open>Proc_Runs\<close>. \<open>Proc_Properties\<close> has C31 to C37.
  \<^item> \<open>Kernel\<close>: \<open>kernel.rs\<close> and the linker script \<open>kernel.ld\<close>. \<open>Kernel_Boot\<close> composes all of the above.
    \<open>Kernel_Properties\<close> has C28, C38 and C39.

  \<^bold>\<open>What is shown.\<close> The allocator: a request that fits returns a large enough, page-aligned block apart
  from all live ones, or reports \<open>OutOfMemory\<close> only when every block of the size is in use; release
  undoes allocation; misuse panics. The primitives: mutual exclusion, one initialisation, no
  deadlock, and the serialisation of the operations under the lock, for every interleaving. Page
  tables: \<open>map_page\<close> has exactly the promised effect on the hardware's translation. The assembly:
  the routines are equivalent to their specification, and a process or an interrupted program
  finds its registers again. Processes: every process has an address space that maps the kernel
  to itself and nothing else, the scheduler picks the first other runnable process, and a process
  starts at its entry point and resumes where it gave up. The kernel: \<open>boot\<close> reaches the first
  process from any contents of the memory, the processes print \<open>abab\<close> and so on, and a trap is
  reported on the console and stops the machine.

  \<^bold>\<open>Parameters.\<close> The compiler lays out \<open>FixedVec\<close> and \<open>Process\<close> as it likes: \<open>fv_layout\<close> and
  \<open>Process_layout\<close> are arguments, of which the theorems assume that fields lie inside the struct
  and do not overlap, that the encodings of \<open>None\<close> (zero) and \<open>Some\<close> differ (\<open>fv_layout_ok\<close>,
  \<open>Process_layout_ok\<close>), and that a \<open>Process\<close> takes at most a page, so that the table has at most 32 KB. The
  linker decides the addresses: \<open>kernel_ld\<close> computes the symbols from the end of the image and the size
  of \<open>.bss\<close>; together they are assumed to take at most 6 MB (\<open>image_ok\<close>).
  The firmware is a function from the eight argument registers; \<open>console_putchar\<close> states the legacy console
  extension of the SBI specification. What compiled Rust code does to registers and to its own
  stack between two calls of \<open>give_up\<close> is a parameter too (\<open>regs_at\<close>, \<open>code\<close>), restricted to leave
  the process table alone and to have a stack with space for a frame (\<open>boot_stack_ok\<close>, \<open>code_ok\<close>).

  \<^bold>\<open>Bounds.\<close> No loop has fuel. The scope of the allocator theorems is a memory of at most \<open>2 ^ 31\<close> bytes
  (\<open>mem_ok\<close>). That boot cannot run out of memory rests on counting: at most 64 blocks of at most 32 KB
  each are live, and 64 MB have 2048 aligned chunks of that size, so that one of them is free
  (\<open>room\<close> in the theory \<open>Room\<close>).

  \<^bold>\<open>Not modelled.\<close> The derived \<open>Debug\<close> and \<open>Hash\<close> implementations. The \<open>Ordering\<close> arguments of
  atomics: memory is sequentially consistent. The TLB: \<open>sfence.vma\<close> has no effect, since the tables
  are read at each access. The bytes of the statics, which lie in \<open>.bss\<close>: their values are fields of
  the state, with the initial value the program gives them. The memory accesses of compiled code
  are not sent through the page table; the tables map the kernel to itself. A panic of the core library
  is the outcome \<open>Panic\<close>; what the handler prints of it is modelled for the panic of \<open>trap_handler\<close> only.
  Interrupts during kernel code: the kernel never enables them. The C version of the kernel under \<open>src/c\<close> is
  another program.
\<close>

end
